(* ===== verification/Picomesh_Prelude.thy ===== *)
theory Picomesh_Prelude
  imports "HOL-Library.Word" "HOL-Library.Monad_Syntax"
begin

text \<open>
  Shared material of the development: the machine integers of the code, checked access to
  fixed-capacity arrays, runs of a stateful component over a list of inputs, and the
  general facts on lists and words that the component theories use.

  A computation of type \<open>'a option\<close> is a fragment of C++ that may have undefined behaviour:
  \<open>None\<close> is an access outside an array (or outside the bytes a pointer may read), \<open>Some x\<close>
  is a normal result \<open>x\<close>. The components' theories prove that \<open>None\<close> never arises.
\<close>

unbundle bit_operations_syntax

section \<open>Types\<close>

type_synonym u8 = "8 word"
type_synonym u32 = "32 word"
type_synonym u64 = "64 word"

text \<open>
  \<open>const std::uint8_t*\<close>: either the null pointer or the bytes that may be read through it.
\<close>

type_synonym byte_ptr = "u8 list option"

named_theorems ub_simps \<open>checked accesses that are in range\<close>
named_theorems shape \<open>lengths and sizes the components keep\<close>

section \<open>Checked array access\<close>

definition rd :: "'a list \<Rightarrow> nat \<Rightarrow> 'a option" where
  "rd xs i = (if i < length xs then Some (xs ! i) else None)"

definition wr :: "'a list \<Rightarrow> nat \<Rightarrow> 'a \<Rightarrow> 'a list option" where
  "wr xs i x = (if i < length xs then Some (xs[i := x]) else None)"

text \<open>\<open>std::copy_n\<close> and the byte-copying loops: element by element, every access checked.\<close>

fun copy_n :: "'a list \<Rightarrow> nat \<Rightarrow> nat \<Rightarrow> 'a list \<Rightarrow> nat \<Rightarrow> 'a list option" where
  "copy_n src si 0 dst di = Some dst"
| "copy_n src si (Suc n) dst di = do {
     x \<leftarrow> rd src si;
     dst' \<leftarrow> wr dst di x;
     copy_n src (Suc si) n dst' (Suc di)
   }"

lemma rd_in [ub_simps]: "i < length xs \<Longrightarrow> rd xs i = Some (xs ! i)"
  by (simp add: rd_def)

lemma wr_in [ub_simps]: "i < length xs \<Longrightarrow> wr xs i x = Some (xs[i := x])"
  by (simp add: wr_def)

lemma rd_None_iff [simp]: "rd xs i = None \<longleftrightarrow> length xs \<le> i"
  by (simp add: rd_def)

lemma wr_None_iff [simp]: "wr xs i x = None \<longleftrightarrow> length xs \<le> i"
  by (simp add: wr_def)

lemma list_update_take_drop:
  "i < length xs \<Longrightarrow> take (Suc i) (xs[i := x]) = take i xs @ [x]"
  by (simp add: take_Suc_conv_app_nth)

lemma copy_n_in [ub_simps]:
  "si + n \<le> length src \<Longrightarrow> di + n \<le> length dst \<Longrightarrow>
   copy_n src si n dst di = Some (take di dst @ take n (drop si src) @ drop (di + n) dst)"
proof (induction n arbitrary: si di dst)
  case 0
  then show ?case by simp
next
  case (Suc n)
  then have si: "si < length src" and di: "di < length dst" by simp_all
  have "copy_n src (Suc si) n (dst[di := src ! si]) (Suc di)
      = Some (take (Suc di) (dst[di := src ! si]) @ take n (drop (Suc si) src)
              @ drop (Suc di + n) (dst[di := src ! si]))"
    by (rule Suc.IH) (use Suc.prems in simp_all)
  moreover have "take (Suc n) (drop si src) = src ! si # take n (drop (Suc si) src)"
    using si by (simp add: Cons_nth_drop_Suc [symmetric])
  ultimately show ?case
    using si di by (simp add: ub_simps list_update_take_drop)
qed

text \<open>The converse: a copy that leaves either array has undefined behaviour.\<close>

lemma copy_n_defined:
  "copy_n src si n dst di = Some r \<Longrightarrow>
   (n = 0 \<or> si + n \<le> length src \<and> di + n \<le> length dst) \<and> length r = length dst"
proof (induction n arbitrary: si di dst r)
  case 0
  then show ?case by simp
next
  case (Suc n)
  then obtain x d where step: "rd src si = Some x" "wr dst di x = Some d"
    and rest: "copy_n src (Suc si) n d (Suc di) = Some r"
    by (auto split: Option.bind_splits)
  from step have "si < length src" "di < length dst" "length d = length dst"
    by (auto simp: rd_def wr_def split: if_splits)
  with Suc.IH [OF rest] show ?case by auto
qed

section \<open>Scans that stop at the first match\<close>

text \<open>
  \<open>for (auto& x : xs) if (p(x)) { x = f(x); return ...; }\<close>: the first element that
  satisfies \<open>p\<close>, with the array after the update, or nothing.
\<close>

fun update_first :: "('a \<Rightarrow> bool) \<Rightarrow> ('a \<Rightarrow> 'a) \<Rightarrow> 'a list \<Rightarrow> ('a \<times> 'a list) option" where
  "update_first p f [] = None"
| "update_first p f (x # xs) =
     (if p x then Some (x, f x # xs)
      else map_option (\<lambda>(y, ys). (y, x # ys)) (update_first p f xs))"

lemma update_first_None_iff: "update_first p f xs = None \<longleftrightarrow> (\<forall>x\<in>set xs. \<not> p x)"
  by (induction xs) auto

lemma update_first_SomeD:
  "update_first p f xs = Some (y, ys) \<Longrightarrow>
   \<exists>us vs. xs = us @ y # vs \<and> ys = us @ f y # vs \<and> p y \<and> (\<forall>u\<in>set us. \<not> p u)"
proof (induction xs arbitrary: ys)
  case Nil
  then show ?case by simp
next
  case (Cons x xs)
  show ?case
  proof (cases "p x")
    case True
    with Cons.prems show ?thesis by (auto intro: exI [of _ "[]"])
  next
    case False
    with Cons.prems obtain zs where "update_first p f xs = Some (y, zs)" and ys: "ys = x # zs"
      by auto
    from Cons.IH [OF this(1)] obtain us vs
      where "xs = us @ y # vs \<and> zs = us @ f y # vs \<and> p y \<and> (\<forall>u\<in>set us. \<not> p u)"
      by blast
    with False ys show ?thesis by (intro exI [of _ "x # us"] exI [of _ vs]) auto
  qed
qed

lemma update_first_append:
  "(\<forall>u\<in>set us. \<not> p u) \<Longrightarrow> p y \<Longrightarrow>
   update_first p f (us @ y # vs) = Some (y, us @ f y # vs)"
  by (induction us) auto

lemma update_first_length [shape]:
  "update_first p f xs = Some (y, ys) \<Longrightarrow> length ys = length xs"
  by (auto dest!: update_first_SomeD)

section \<open>Running a component\<close>

text \<open>
  A component is a step function from a state and an input to an output and a new state,
  with \<open>None\<close> for undefined behaviour. \<open>run\<close> feeds it a list of inputs.
\<close>

type_synonym ('s, 'i, 'o) component = "'s \<Rightarrow> 'i \<Rightarrow> ('o \<times> 's) option"

fun run :: "('s, 'i, 'o) component \<Rightarrow> 's \<Rightarrow> 'i list \<Rightarrow> ('o list \<times> 's) option" where
  "run step s [] = Some ([], s)"
| "run step s (i # is) = do {
     (x, s') \<leftarrow> step s i;
     (xs, s'') \<leftarrow> run step s' is;
     Some (x # xs, s'')
   }"

lemma run_append:
  "run step s (is @ js) = do {
     (xs, s') \<leftarrow> run step s is;
     (ys, s'') \<leftarrow> run step s' js;
     Some (xs @ ys, s'')
   }"
  by (induction "is" arbitrary: s) (auto split: Option.bind_splits)

lemma run_length: "run step s is = Some (xs, t) \<Longrightarrow> length xs = length is"
  by (induction "is" arbitrary: s xs) (auto split: Option.bind_splits)

lemma run_snoc:
  "run step s is = Some (xs, t) \<Longrightarrow> step t i = Some (x, u) \<Longrightarrow>
   run step s (is @ [i]) = Some (xs @ [x], u)"
  by (simp add: run_append)

text \<open>
  The interface of a component that is free of undefined behaviour: an invariant of its
  state under which every step is defined, and which every step keeps. Whatever satisfies
  it can be run on any input.
\<close>

locale safe_component =
  fixes step :: "('s, 'i, 'o) component"
    and inv :: "'s \<Rightarrow> bool"
    and start :: "'s"
  assumes inv_start: "inv start"
    and step_defined: "inv s \<Longrightarrow> \<exists>x t. step s i = Some (x, t)"
    and step_inv: "inv s \<Longrightarrow> step s i = Some (x, t) \<Longrightarrow> inv t"
begin

lemma step_total: "inv s \<Longrightarrow> \<exists>x t. step s i = Some (x, t) \<and> inv t"
  using step_defined step_inv by blast

lemma run_total: "inv s \<Longrightarrow> \<exists>xs t. run step s is = Some (xs, t) \<and> inv t"
proof (induction "is" arbitrary: s)
  case Nil
  then show ?case by simp
next
  case (Cons i "is")
  obtain x t where t: "step s i = Some (x, t)" "inv t"
    using step_total [OF Cons.prems] by blast
  obtain xs u where "run step t is = Some (xs, u)" "inv u"
    using Cons.IH [OF t(2)] by blast
  with t show ?case by simp
qed

lemma run_inv: "inv s \<Longrightarrow> run step s is = Some (xs, t) \<Longrightarrow> inv t"
  using run_total [of s "is"] by auto

lemma run_start_total: "\<exists>xs t. run step start is = Some (xs, t) \<and> inv t"
  by (rule run_total) (rule inv_start)

text \<open>A property of single steps under the invariant holds of every output of a run.\<close>

lemma run_outputs:
  assumes out: "\<And>s i x t. inv s \<Longrightarrow> step s i = Some (x, t) \<Longrightarrow> P x"
  shows "inv s \<Longrightarrow> run step s is = Some (xs, t) \<Longrightarrow> x \<in> set xs \<Longrightarrow> P x"
proof (induction "is" arbitrary: s xs)
  case Nil
  then show ?case by simp
next
  case (Cons i "is")
  then obtain y u ys where "step s i = Some (y, u)" "run step u is = Some (ys, t)" "xs = y # ys"
    by (auto split: Option.bind_splits)
  with Cons show ?case by (auto intro: out dest: step_inv)
qed

end

text \<open>
  A component refines a specification when the abstraction of its state moves as the
  specification says, with the same outputs; its runs are then the specification's runs.
\<close>

fun spec_run :: "('a \<Rightarrow> 'i \<Rightarrow> 'o \<times> 'a) \<Rightarrow> 'a \<Rightarrow> 'i list \<Rightarrow> 'o list \<times> 'a" where
  "spec_run spec a [] = ([], a)"
| "spec_run spec a (i # is) =
     (let (x, b) = spec a i; (xs, c) = spec_run spec b is in (x # xs, c))"

lemma spec_run_append:
  "spec_run spec a (is @ js) =
     (let (xs, b) = spec_run spec a is; (ys, c) = spec_run spec b js in (xs @ ys, c))"
  by (induction "is" arbitrary: a) (simp_all add: Let_def split_beta)

lemma spec_run_length [simp]: "length (fst (spec_run spec a is)) = length is"
  by (induction "is" arbitrary: a) (simp_all add: Let_def split_beta)

lemma spec_run_nth:
  "k < length is \<Longrightarrow>
   fst (spec_run spec a is) ! k = fst (spec (snd (spec_run spec a (take k is))) (is ! k))"
proof (induction "is" arbitrary: a k)
  case Nil
  then show ?case by simp
next
  case (Cons i "is")
  then show ?case by (cases k) (simp_all add: Let_def split_beta)
qed

text \<open>What every step keeps of the outputs so far and the state holds after every run.\<close>

lemma spec_run_invariant:
  assumes "P [] a" and "\<And>outs b i. P outs b \<Longrightarrow> P (outs @ [fst (spec b i)]) (snd (spec b i))"
  shows "P (fst (spec_run spec a is)) (snd (spec_run spec a is))"
  by (induction "is" rule: rev_induct) (simp_all add: assms spec_run_append Let_def split_beta)

locale refined_component = safe_component step inv start
  for step :: "('s, 'i, 'o) component" and inv and start +
  fixes spec :: "'a \<Rightarrow> 'i \<Rightarrow> 'o \<times> 'a"
    and abs :: "'s \<Rightarrow> 'a"
  assumes step_refines: "inv s \<Longrightarrow> step s i = Some (x, t) \<Longrightarrow> spec (abs s) i = (x, abs t)"
begin

lemma run_refines: "inv s \<Longrightarrow> run step s is = Some (xs, t) \<Longrightarrow> spec_run spec (abs s) is = (xs, abs t)"
proof (induction "is" arbitrary: s xs)
  case Nil
  then show ?case by simp
next
  case (Cons i "is")
  from Cons.prems(2) obtain x u ys where step: "step s i = Some (x, u)"
    and rest: "run step u is = Some (ys, t)" and xs: "xs = x # ys"
    by (auto split: Option.bind_splits)
  from step_inv [OF Cons.prems(1) step] have "spec_run spec (abs u) is = (ys, abs t)"
    using rest by (rule Cons.IH)
  with step_refines [OF Cons.prems(1) step] xs show ?case by simp
qed

lemma run_spec:
  assumes "inv s"
  shows "\<exists>t. run step s is = Some (fst (spec_run spec (abs s) is), t) \<and>
    abs t = snd (spec_run spec (abs s) is) \<and> inv t"
proof -
  obtain xs t where r: "run step s is = Some (xs, t)" and "inv t"
    using run_total [OF assms] by blast
  with run_refines [OF assms r] show ?thesis by simp
qed

end

section \<open>Bytes\<close>

lemma unat_u8_less [simp]: "unat (x :: u8) < 256"
  using unsigned_less [of x] by simp

lemma unat_u8_le [simp]: "unat (x :: u8) \<le> 255"
  using unat_u8_less [of x] by linarith

lemma unat_u8_inject [simp]: "unat (a :: u8) = unat b \<longleftrightarrow> a = b"
  by (auto intro: unsigned_word_eqI)

lemma unat_u8_Suc:
  assumes "(a :: u8) < b"
  shows "unat (a + 1) = Suc (unat a)"
proof -
  from assms have "unat a < unat b" by (simp add: word_less_nat_alt)
  with unat_u8_less [of b] have "Suc (unat a) < 256" by linarith
  then show ?thesis by (simp add: unat_word_ariths)
qed

lemma unat_of_nat_u8: "n < 256 \<Longrightarrow> unat (of_nat n :: u8) = n"
  by (simp add: unat_of_nat take_bit_eq_mod)

lemma unat_u32_less [simp]: "unat (x :: u32) < 4294967296"
  using unsigned_less [of x] by simp

text \<open>Differences of clock readings, as the modular subtraction of the code sees them.\<close>

lemma unat_of_nat_diff_u32:
  "a \<le> b \<Longrightarrow> unat (of_nat b - of_nat a :: u32) = (b - a) mod 2 ^ 32"
  by (simp add: unat_of_nat take_bit_eq_mod flip: of_nat_diff)

text \<open>A cleared payload, with its first bytes apart.\<close>

lemma zeros_32: "replicate 32 (0 :: u8) = 0 # 0 # 0 # 0 # replicate 28 0"
  "replicate 30 (0 :: u8) = 0 # 0 # replicate 28 0"
  by (simp_all add: replicate_add [symmetric] flip: replicate_Suc)

lemma sum_list_insert: "sum_list (xs @ a # ys) = a + sum_list (xs @ ys :: u8 list)"
  by simp

end
