(* ===== verification/Checksum.thy ===== *)
theory Checksum
  imports Picomesh_Prelude "HOL-Library.Multiset"
begin

text \<open>
  The integrity byte of the protocol (\<open>src/checksum.cpp\<close>): the loops over the buffer as the
  code has them, the sum of the bytes as their specification, and the interface
  \<open>integrity_code\<close> through which the frame codec uses them.
\<close>

section \<open>The code\<close>

text \<open>
  \<open>for (i = 0; i < length; ++i) sum += data[i];\<close> with the number of iterations left as the
  third argument.
\<close>

fun sum_loop :: "u8 list \<Rightarrow> nat \<Rightarrow> nat \<Rightarrow> u8 \<Rightarrow> u8 option" where
  "sum_loop data i 0 s = Some s"
| "sum_loop data i (Suc n) s = do {
     b \<leftarrow> rd data i;
     sum_loop data (Suc i) n (s + b)
   }"

definition checksum8 :: "byte_ptr \<Rightarrow> nat \<Rightarrow> u8 option" where
  "checksum8 data len = (case data of
     None \<Rightarrow> Some 0
   | Some bs \<Rightarrow> do {
       s \<leftarrow> sum_loop bs 0 len 0;
       Some (0 - s)
     })"

definition verify_checksum8 :: "byte_ptr \<Rightarrow> nat \<Rightarrow> bool option" where
  "verify_checksum8 data len = (case data of
     None \<Rightarrow> Some False
   | Some bs \<Rightarrow>
       if len = 0 then Some False
       else do {
         s \<leftarrow> sum_loop bs 0 len 0;
         Some (s = 0)
       })"

section \<open>Specification\<close>

definition seal :: "u8 list \<Rightarrow> u8" where
  "seal bs = - sum_list bs"

definition sealed :: "u8 list \<Rightarrow> bool" where
  "sealed bs \<longleftrightarrow> bs \<noteq> [] \<and> sum_list bs = 0"

lemma sum_loop_in [ub_simps]:
  "i + n \<le> length bs \<Longrightarrow> sum_loop bs i n s = Some (s + sum_list (take n (drop i bs)))"
proof (induction n arbitrary: i s)
  case 0
  then show ?case by simp
next
  case (Suc n)
  then have i: "i < length bs" by simp
  then have "take (Suc n) (drop i bs) = bs ! i # take n (drop (Suc i) bs)"
    by (simp add: Cons_nth_drop_Suc [symmetric])
  with Suc i show ?case by (simp add: ub_simps add.assoc)
qed

lemma checksum8_seal [ub_simps]:
  "len \<le> length bs \<Longrightarrow> checksum8 (Some bs) len = Some (seal (take len bs))"
  by (simp add: checksum8_def seal_def ub_simps)

lemma verify_checksum8_sealed [ub_simps]:
  "len \<le> length bs \<Longrightarrow> verify_checksum8 (Some bs) len = Some (sealed (take len bs))"
  by (cases bs) (auto simp: verify_checksum8_def sealed_def ub_simps)

lemma checksum8_null [simp]: "checksum8 None len = Some 0"
  by (simp add: checksum8_def)

lemma verify_checksum8_null [simp]: "verify_checksum8 None len = Some False"
  by (simp add: verify_checksum8_def)

section \<open>Interface\<close>

text \<open>
  What the codec relies on: appending the seal makes a message check, nothing else does,
  and two messages that check do not differ in exactly one byte.
\<close>

locale integrity_code =
  fixes compute :: "u8 list \<Rightarrow> u8"
    and check :: "u8 list \<Rightarrow> bool"
  assumes check_append: "check (xs @ [c]) \<longleftrightarrow> c = compute xs"
    and check_substitute: "check (xs @ a # ys) \<Longrightarrow> check (xs @ b # ys) \<Longrightarrow> a = b"
    and check_nonempty: "check xs \<Longrightarrow> xs \<noteq> []"
begin

lemma check_sealed: "check (xs @ [compute xs])"
  by (simp add: check_append)

lemma check_butlast: "check xs \<Longrightarrow> xs = butlast xs @ [compute (butlast xs)]"
  using check_append [of "butlast xs" "last xs"] check_nonempty [of xs]
  by (metis append_butlast_last_id)

lemma single_byte_detected:
  assumes "check xs" and "i < length xs" and "xs ! i \<noteq> b"
  shows "\<not> check (xs[i := b])"
proof
  assume "check (xs[i := b])"
  with assms have "check (take i xs @ b # drop (Suc i) xs)"
    by (simp add: upd_conv_take_nth_drop)
  moreover from assms have "check (take i xs @ xs ! i # drop (Suc i) xs)"
    by (simp add: id_take_nth_drop [symmetric])
  ultimately show False using check_substitute assms(3) by blast
qed

end

text \<open>
  The check of this code is a sum: it also cannot see the order of the bytes, which bounds
  what it detects.
\<close>

locale additive_code = integrity_code +
  assumes check_mset: "xs \<noteq> [] \<Longrightarrow> mset xs = mset ys \<Longrightarrow> check xs \<longleftrightarrow> check ys"
begin

lemma swap_undetected:
  assumes "i < length xs" and "j < length xs"
  shows "check (xs[i := xs ! j, j := xs ! i]) \<longleftrightarrow> check xs"
proof -
  have "mset (xs[i := xs ! j, j := xs ! i]) = mset xs"
    using mset_swap [OF assms(2,1)] by simp
  moreover from assms have "xs[i := xs ! j, j := xs ! i] \<noteq> []" by auto
  ultimately show ?thesis by (metis check_mset)
qed

end

lemma sealed_append: "sealed (xs @ [c]) \<longleftrightarrow> c = seal xs"
  by (auto simp: sealed_def seal_def eq_neg_iff_add_eq_0 add.commute)

interpretation checksum: additive_code seal sealed
proof unfold_locales
  fix xs ys :: "u8 list" and a b c :: u8
  show "sealed (xs @ [c]) \<longleftrightarrow> c = seal xs" by (rule sealed_append)
  show "a = b" if "sealed (xs @ a # ys)" "sealed (xs @ b # ys)"
    using that by (simp add: sealed_def sum_list_insert del: sum_list_append)
      (metis add_right_cancel)
  show "xs \<noteq> []" if "sealed xs" using that by (simp add: sealed_def)
  show "sealed xs \<longleftrightarrow> sealed ys" if "xs \<noteq> []" "mset xs = mset ys"
    using that by (auto simp: sealed_def simp flip: sum_mset_sum_list)
qed

section \<open>Properties\<close>

text \<open>
  Sealing and verifying agree. For every buffer, the byte \<open>checksum8\<close> returns, appended
  to the buffer, makes \<open>verify_checksum8\<close> accept it, and every other byte makes it refuse;
  neither function reads outside the buffer.
\<close>

theorem checksum_seals_and_verifies:
  "checksum8 (Some bs) (length bs) = Some c \<longleftrightarrow>
   verify_checksum8 (Some (bs @ [c])) (length bs + 1) = Some True"
  by (simp add: ub_simps checksum.check_append eq_commute)

end
