(* ===== verification/Frame_Codec.thy ===== *)
theory Frame_Codec
  imports Checksum
begin

text \<open>
  Frames and their wire format (\<open>include/picomesh/frame.h\<close>, \<open>src/frame.cpp\<close>): the data
  types, the encoder, the strict decoder and the prefix inspector with every array access
  checked; the wire image of a frame as their specification; and the interface
  \<open>frame_codec\<close> of a strict codec, from which the decoder's users reason.
\<close>

section \<open>Constants and data types\<close>

definition kFrameMagic :: u8 where [simp]: "kFrameMagic = 0xB7"
definition kProtocolVersion :: u8 where [simp]: "kProtocolVersion = 1"
definition kMaxPayloadSize :: nat where [simp]: "kMaxPayloadSize = 32"
definition kFrameHeaderSize :: nat where [simp]: "kFrameHeaderSize = 7"
definition kFrameOverhead :: nat where [simp]: "kFrameOverhead = kFrameHeaderSize + 1"
definition kMaxEncodedFrameSize :: nat where
  [simp]: "kMaxEncodedFrameSize = kFrameOverhead + kMaxPayloadSize"

text \<open>
  \<open>enum class MessageType : std::uint8_t\<close> has a fixed underlying type, so each of the 256
  bytes is a value of it, named or not: the constructor is \<open>static_cast<MessageType>\<close>, the
  selector \<open>static_cast<std::uint8_t>\<close>.
\<close>

datatype message_type = MessageType (type_byte: u8)

definition heartbeat :: message_type where "heartbeat = MessageType 0x01"
definition state :: message_type where "state = MessageType 0x02"
definition command :: message_type where "command = MessageType 0x10"
definition acknowledgement :: message_type where "acknowledgement = MessageType 0x11"
definition user :: message_type where "user = MessageType 0x80"

lemmas message_type_defs = heartbeat_def state_def command_def acknowledgement_def user_def

record frame =
  f_type :: message_type
  f_flags :: u8
  f_node_id :: u8
  f_sequence :: u8
  f_payload :: "u8 list"
  f_payload_length :: u8

definition Frame :: frame where
  "Frame = \<lparr>f_type = heartbeat, f_flags = 0, f_node_id = 0, f_sequence = 0,
            f_payload = replicate kMaxPayloadSize 0, f_payload_length = 0\<rparr>"

record encoded_frame =
  ef_bytes :: "u8 list"
  ef_length :: nat

datatype decode_error =
    No_error | Too_short | Bad_magic | Unsupported_version | Payload_too_large
  | Length_mismatch | Bad_checksum

record decode_result =
  dr_frame :: frame
  dr_error :: decode_error

text \<open>\<open>DecodeResult::operator bool\<close>\<close>

definition decode_ok :: "decode_result \<Rightarrow> bool" where
  "decode_ok r \<longleftrightarrow> dr_error r = No_error"

text \<open>
  \<open>std::array<std::uint8_t, 32> payload\<close>: the payload of every frame of the program has
  32 elements, whatever \<open>payload_length\<close> says.
\<close>

definition frame_wf :: "frame \<Rightarrow> bool" where
  "frame_wf f \<longleftrightarrow> length (f_payload f) = kMaxPayloadSize"

lemma frame_wf_Frame [simp]: "frame_wf Frame"
  by (simp add: frame_wf_def Frame_def)

text \<open>The enumerators of \<open>DecodeError\<close> are ordered as they are declared.\<close>

fun decode_error_code :: "decode_error \<Rightarrow> nat" where
  "decode_error_code No_error = 0"
| "decode_error_code Too_short = 1"
| "decode_error_code Bad_magic = 2"
| "decode_error_code Unsupported_version = 3"
| "decode_error_code Payload_too_large = 4"
| "decode_error_code Length_mismatch = 5"
| "decode_error_code Bad_checksum = 6"

lemma decode_error_code_inject: "decode_error_code a = decode_error_code b \<longleftrightarrow> a = b"
  by (cases a; cases b) simp_all

instantiation decode_error :: linorder
begin

definition less_eq_decode_error :: "decode_error \<Rightarrow> decode_error \<Rightarrow> bool" where
  "less_eq_decode_error a b \<longleftrightarrow> decode_error_code a \<le> decode_error_code b"

definition less_decode_error :: "decode_error \<Rightarrow> decode_error \<Rightarrow> bool" where
  "less_decode_error a b \<longleftrightarrow> decode_error_code a < decode_error_code b"

instance
  by standard
    (auto simp: less_eq_decode_error_def less_decode_error_def decode_error_code_inject)

end

lemmas decode_error_order = less_eq_decode_error_def less_decode_error_def

lemma finite_decode_errors [simp]: "finite (A :: decode_error set)"
proof (rule finite_subset)
  show "A \<subseteq> {No_error, Too_short, Bad_magic, Unsupported_version, Payload_too_large,
    Length_mismatch, Bad_checksum}" using decode_error.exhaust by blast
qed simp

section \<open>The code\<close>

definition frame_length_from_prefix :: "byte_ptr \<Rightarrow> nat \<Rightarrow> nat option" where
  "frame_length_from_prefix data available_length = (case data of
     None \<Rightarrow> Some 0
   | Some bs \<Rightarrow>
       if available_length < kFrameHeaderSize then Some 0
       else do {
         b0 \<leftarrow> rd bs 0;
         if b0 \<noteq> kFrameMagic then Some 0
         else do {
           b1 \<leftarrow> rd bs 1;
           if b1 \<noteq> kProtocolVersion then Some 0
           else do {
             b6 \<leftarrow> rd bs 6;
             let payload_length = unat b6;
             if payload_length > kMaxPayloadSize then Some 0
             else do {
               let expected_length = kFrameOverhead + payload_length;
               Some (if expected_length \<le> available_length then expected_length else 0)
             }
           }
         }
       })"

definition encode_frame :: "frame \<Rightarrow> encoded_frame option" where
  "encode_frame frame = do {
     let payload_length = unat (min (f_payload_length frame) (of_nat kMaxPayloadSize));
     let bytes = replicate kMaxEncodedFrameSize 0;
     bytes \<leftarrow> wr bytes 0 kFrameMagic;
     bytes \<leftarrow> wr bytes 1 kProtocolVersion;
     bytes \<leftarrow> wr bytes 2 (type_byte (f_type frame));
     bytes \<leftarrow> wr bytes 3 (f_flags frame);
     bytes \<leftarrow> wr bytes 4 (f_node_id frame);
     bytes \<leftarrow> wr bytes 5 (f_sequence frame);
     bytes \<leftarrow> wr bytes 6 (of_nat payload_length);
     bytes \<leftarrow> copy_n (f_payload frame) 0 payload_length bytes kFrameHeaderSize;
     let len = kFrameOverhead + payload_length;
     c \<leftarrow> checksum8 (Some bytes) (len - 1);
     bytes \<leftarrow> wr bytes (len - 1) c;
     Some \<lparr>ef_bytes = bytes, ef_length = len\<rparr>
   }"

definition decode_failed :: "decode_error \<Rightarrow> decode_result" where
  "decode_failed e = \<lparr>dr_frame = Frame, dr_error = e\<rparr>"

definition decode_frame :: "byte_ptr \<Rightarrow> nat \<Rightarrow> decode_result option" where
  "decode_frame data len = (case data of
     None \<Rightarrow> Some (decode_failed Too_short)
   | Some bs \<Rightarrow>
       if len < kFrameOverhead then Some (decode_failed Too_short)
       else do {
         b0 \<leftarrow> rd bs 0;
         if b0 \<noteq> kFrameMagic then Some (decode_failed Bad_magic)
         else do {
           b1 \<leftarrow> rd bs 1;
           if b1 \<noteq> kProtocolVersion then Some (decode_failed Unsupported_version)
           else do {
             b6 \<leftarrow> rd bs 6;
             let payload_length = unat b6;
             if payload_length > kMaxPayloadSize then Some (decode_failed Payload_too_large)
             else if len \<noteq> kFrameOverhead + payload_length
             then Some (decode_failed Length_mismatch)
             else do {
               valid \<leftarrow> verify_checksum8 data len;
               if \<not> valid then Some (decode_failed Bad_checksum)
               else do {
                 ty \<leftarrow> rd bs 2;
                 fl \<leftarrow> rd bs 3;
                 nid \<leftarrow> rd bs 4;
                 sq \<leftarrow> rd bs 5;
                 pl \<leftarrow> copy_n bs kFrameHeaderSize payload_length (f_payload Frame) 0;
                 Some \<lparr>dr_frame =
                         \<lparr>f_type = MessageType ty, f_flags = fl, f_node_id = nid,
                          f_sequence = sq, f_payload = pl,
                          f_payload_length = of_nat payload_length\<rparr>,
                       dr_error = No_error\<rparr>
               }
             }
           }
         }
       })"

text \<open>The overload of \<open>decode_frame\<close> on an \<open>EncodedFrame\<close>.\<close>

definition decode_encoded :: "encoded_frame \<Rightarrow> decode_result option" where
  "decode_encoded e = decode_frame (Some (ef_bytes e)) (ef_length e)"

end
