(* ===== verification/Wire_Format.thy ===== *)
theory Wire_Format
  imports Frame_Codec
begin

text \<open>
  The wire format of \<open>docs/protocol.md\<close> as a specification of the codec of \<open>Frame_Codec\<close>:
  the byte image of a frame, the frame denoted by a byte list, and the proofs that the
  array code of \<open>src/frame.cpp\<close> computes them without leaving its buffers.
\<close>

section \<open>The image of a frame\<close>

definition wire_len :: "frame \<Rightarrow> nat" where
  "wire_len f = min kMaxPayloadSize (unat (f_payload_length f))"

definition wire_payload :: "frame \<Rightarrow> u8 list" where
  "wire_payload f = take (wire_len f) (f_payload f)"

definition wire_body :: "frame \<Rightarrow> u8 list" where
  "wire_body f =
     [kFrameMagic, kProtocolVersion, type_byte (f_type f), f_flags f, f_node_id f,
      f_sequence f, of_nat (wire_len f)] @ wire_payload f"

definition wire_image :: "frame \<Rightarrow> u8 list" where
  "wire_image f = wire_body f @ [seal (wire_body f)]"

text \<open>
  The part of a frame that travels: the payload length clamped to the capacity, the unused
  payload storage zero. \<open>canonical\<close> frames lose nothing.
\<close>

definition canon :: "frame \<Rightarrow> frame" where
  "canon f = f\<lparr>f_payload := wire_payload f @ replicate (kMaxPayloadSize - wire_len f) 0,
              f_payload_length := of_nat (wire_len f)\<rparr>"

definition canonical :: "frame \<Rightarrow> bool" where
  "canonical f \<longleftrightarrow> frame_wf f \<and> unat (f_payload_length f) \<le> kMaxPayloadSize \<and>
     drop (unat (f_payload_length f)) (f_payload f)
       = replicate (kMaxPayloadSize - unat (f_payload_length f)) 0"

lemma wire_len_le [simp]: "wire_len f \<le> 32"
  by (simp add: wire_len_def)

lemma wire_len_not_gt [simp]: "\<not> 32 < wire_len f"
  by (simp add: not_less)

lemma unat_wire_len [simp]: "unat (of_nat (wire_len f) :: u8) = wire_len f"
  by (rule unat_of_nat_u8) (use wire_len_le [of f] in linarith)

lemma length_wire_payload [shape]: "frame_wf f \<Longrightarrow> length (wire_payload f) = wire_len f"
  by (simp add: wire_payload_def frame_wf_def)

lemma length_wire_body [shape]: "frame_wf f \<Longrightarrow> length (wire_body f) = 7 + wire_len f"
  by (simp add: wire_body_def shape)

lemma length_wire_image [shape]: "frame_wf f \<Longrightarrow> length (wire_image f) = 8 + wire_len f"
  by (simp add: wire_image_def shape)

lemma wire_image_sealed: "sealed (wire_image f)"
  by (simp add: wire_image_def checksum.check_sealed)

lemma wire_image_nth:
  "wire_image f ! 0 = kFrameMagic"
  "wire_image f ! 1 = kProtocolVersion"
  "wire_image f ! 2 = type_byte (f_type f)"
  "wire_image f ! 3 = f_flags f"
  "wire_image f ! 4 = f_node_id f"
  "wire_image f ! 5 = f_sequence f"
  "wire_image f ! 6 = of_nat (wire_len f)"
  by (simp_all add: wire_image_def wire_body_def)

lemma wire_image_payload:
  "frame_wf f \<Longrightarrow> take (wire_len f) (drop 7 (wire_image f)) = wire_payload f"
  by (simp add: wire_image_def wire_body_def shape)

lemma wire_len_canon [simp]: "wire_len (canon f) = wire_len f"
  by (simp add: canon_def wire_len_def [of "f_payload_length_update _ _"])

lemma canonical_wire_len: "canonical f \<Longrightarrow> wire_len f = unat (f_payload_length f)"
  by (simp add: canonical_def wire_len_def)

lemma wire_payload_canon [simp]: "frame_wf f \<Longrightarrow> wire_payload (canon f) = wire_payload f"
  unfolding wire_payload_def [of "canon f"] wire_len_canon
  by (simp add: canon_def shape)

lemma canonical_canon: "frame_wf f \<Longrightarrow> canonical (canon f)"
  by (simp add: canonical_def canon_def frame_wf_def shape [unfolded frame_wf_def])

lemma canon_canonical: "canonical f \<Longrightarrow> canon f = f"
proof -
  assume c: "canonical f"
  then have "f_payload f = wire_payload f @ replicate (32 - wire_len f) 0"
    by (simp add: canonical_wire_len wire_payload_def canonical_def)
      (metis append_take_drop_id)
  with c show ?thesis by (simp add: canon_def canonical_wire_len)
qed

lemma wire_image_canon: "frame_wf f \<Longrightarrow> wire_image (canon f) = wire_image f"
  by (simp add: wire_image_def wire_body_def) (simp add: canon_def)

section \<open>The frame of a byte list\<close>

definition unwire :: "u8 list \<Rightarrow> frame" where
  "unwire bs = (let n = unat (bs ! 6) in
     \<lparr>f_type = MessageType (bs ! 2), f_flags = bs ! 3, f_node_id = bs ! 4,
      f_sequence = bs ! 5, f_payload = take n (drop 7 bs) @ replicate (32 - n) 0,
      f_payload_length = bs ! 6\<rparr>)"

definition decode_spec :: "u8 list \<Rightarrow> decode_error + frame" where
  "decode_spec bs =
     (if length bs < 8 then Inl Too_short
      else if bs ! 0 \<noteq> kFrameMagic then Inl Bad_magic
      else if bs ! 1 \<noteq> kProtocolVersion then Inl Unsupported_version
      else if unat (bs ! 6) > 32 then Inl Payload_too_large
      else if length bs \<noteq> 8 + unat (bs ! 6) then Inl Length_mismatch
      else if \<not> sealed bs then Inl Bad_checksum
      else Inr (unwire bs))"

definition decode_outcome :: "decode_error + frame \<Rightarrow> decode_result" where
  "decode_outcome r = (case r of
     Inl e \<Rightarrow> decode_failed e
   | Inr f \<Rightarrow> \<lparr>dr_frame = f, dr_error = No_error\<rparr>)"

definition prefix_spec :: "u8 list \<Rightarrow> nat" where
  "prefix_spec bs =
     (if 7 \<le> length bs \<and> bs ! 0 = kFrameMagic \<and> bs ! 1 = kProtocolVersion \<and>
         unat (bs ! 6) \<le> 32 \<and> 8 + unat (bs ! 6) \<le> length bs
      then 8 + unat (bs ! 6) else 0)"

lemma decode_spec_not_No_error: "decode_spec bs \<noteq> Inl No_error"
  by (simp add: decode_spec_def)

lemma unwire_wire_image: "frame_wf f \<Longrightarrow> unwire (wire_image f) = canon f"
  by (simp add: unwire_def Let_def wire_image_nth [simplified] wire_image_payload canon_def)

lemma wire_image_unwire:
  assumes len: "length bs = 8 + unat (bs ! 6)" and small: "unat (bs ! 6) \<le> 32"
    and hd: "bs ! 0 = kFrameMagic" "bs ! 1 = kProtocolVersion" and ok: "sealed bs"
  shows "wire_image (unwire bs) = bs" and "canonical (unwire bs)"
proof -
  have wl: "wire_len (unwire bs) = unat (bs ! 6)"
    using small by (simp add: wire_len_def unwire_def Let_def)
  then have pay: "wire_payload (unwire bs) = take (unat (bs ! 6)) (drop 7 bs)"
    using len by (simp add: wire_payload_def unwire_def Let_def)
  have "take 7 bs = [bs ! 0, bs ! 1, bs ! 2, bs ! 3, bs ! 4, bs ! 5, bs ! 6]"
    using len by (simp add: list_eq_iff_nth_eq nth_Cons' less_Suc_eq numeral_eq_Suc)
  then have "wire_body (unwire bs) = take 7 bs @ take (unat (bs ! 6)) (drop 7 bs)"
    using hd by (simp add: wire_body_def wl pay) (simp add: unwire_def Let_def)
  also have "\<dots> = butlast bs"
    using len by (simp add: take_add [symmetric] butlast_conv_take)
  finally have body: "wire_body (unwire bs) = butlast bs" .
  show "wire_image (unwire bs) = bs"
    using checksum.check_butlast [OF ok] by (simp add: wire_image_def body)
  show "canonical (unwire bs)"
    using len small by (simp add: canonical_def frame_wf_def unwire_def Let_def)
qed

lemma decode_spec_iff: "decode_spec bs = Inr f \<longleftrightarrow> canonical f \<and> bs = wire_image f"
proof
  assume d: "decode_spec bs = Inr f"
  then have f: "f = unwire bs" by (simp add: decode_spec_def split: if_splits)
  from d have "bs = wire_image (unwire bs) \<and> canonical (unwire bs)"
    using wire_image_unwire [of bs] by (simp add: decode_spec_def split: if_splits)
  with f show "canonical f \<and> bs = wire_image f" by simp
next
  assume a: "canonical f \<and> bs = wire_image f"
  then have wf: "frame_wf f" by (simp add: canonical_def)
  have "decode_spec (wire_image f) = Inr (unwire (wire_image f))"
    using wf by (simp add: decode_spec_def wire_image_nth [simplified] shape wire_image_sealed)
  with a wf show "decode_spec bs = Inr f" by (simp add: unwire_wire_image canon_canonical)
qed

section \<open>The array code computes the specification\<close>

lemma rd_header:
  assumes "7 \<le> length bs"
  shows "rd bs 0 = Some (bs ! 0)" "rd bs (Suc 0) = Some (bs ! Suc 0)" "rd bs 2 = Some (bs ! 2)"
    "rd bs 3 = Some (bs ! 3)" "rd bs 4 = Some (bs ! 4)" "rd bs 5 = Some (bs ! 5)"
    "rd bs 6 = Some (bs ! 6)"
  using assms by (auto simp: rd_def)

lemma frame_length_from_prefix_spec [ub_simps]:
  assumes "n \<le> length bs"
  shows "frame_length_from_prefix (Some bs) n = Some (prefix_spec (take n bs))"
proof (cases "n < 7")
  case True
  then show ?thesis by (simp add: frame_length_from_prefix_def prefix_spec_def)
next
  case False
  with assms have "7 \<le> length bs" by simp
  note rd = rd_header [OF this]
  from False assms show ?thesis
    by (simp add: frame_length_from_prefix_def prefix_spec_def rd Let_def)
qed

lemma decode_frame_spec [ub_simps]:
  assumes n: "n \<le> length bs"
  shows "decode_frame (Some bs) n = Some (decode_outcome (decode_spec (take n bs)))"
proof (cases "n < 8")
  case True
  with n show ?thesis by (simp add: decode_frame_def decode_spec_def decode_outcome_def)
next
  case False
  with n have "7 \<le> length bs" by simp
  note rd = rd_header [OF this]
  have payload: "copy_n bs 7 (unat (bs ! 6)) (replicate 32 0) 0
      = Some (take (unat (bs ! 6)) (drop 7 (take n bs)) @ replicate (32 - unat (bs ! 6)) 0)"
    if "n = 8 + unat (bs ! 6)" "\<not> 32 < unat (bs ! 6)"
    using that n by (subst copy_n_in) (simp_all add: drop_take min_def)
  from False n show ?thesis
    by (simp add: decode_frame_def decode_spec_def decode_outcome_def unwire_def
        rd Let_def verify_checksum8_sealed payload Frame_def)
qed

lemma decode_frame_null [simp]: "decode_frame None n = Some (decode_failed Too_short)"
  by (simp add: decode_frame_def)

lemma frame_length_from_prefix_null [simp]: "frame_length_from_prefix None n = Some 0"
  by (simp add: frame_length_from_prefix_def)

text \<open>The seven header writes of the encoder, on its zero-initialised buffer.\<close>

lemma header_writes:
  "(do {
     bs \<leftarrow> wr (replicate 40 (0 :: u8)) 0 a;
     bs \<leftarrow> wr bs 1 b;
     bs \<leftarrow> wr bs 2 c;
     bs \<leftarrow> wr bs 3 d;
     bs \<leftarrow> wr bs 4 e;
     bs \<leftarrow> wr bs 5 g;
     bs \<leftarrow> wr bs 6 h;
     k bs
   }) = k ([a, b, c, d, e, g, h] @ replicate 33 0)"
  by (simp add: wr_def numeral_eq_Suc)

lemma encode_frame_spec [ub_simps]:
  assumes wf: "frame_wf f"
  shows "encode_frame f = Some
    \<lparr>ef_bytes = wire_image f @ replicate (32 - wire_len f) 0, ef_length = 8 + wire_len f\<rparr>"
proof -
  let ?h = "[0xB7, 1, type_byte (f_type f), f_flags f, f_node_id f, f_sequence f,
             of_nat (wire_len f)] :: u8 list"
  have n: "unat (min (f_payload_length f) (of_nat kMaxPayloadSize)) = wire_len f"
    by (simp add: wire_len_def min_def word_le_nat_alt)
  have copy: "copy_n (f_payload f) 0 (wire_len f) (?h @ replicate 33 0) 7
      = Some (wire_body f @ replicate (33 - wire_len f) 0)"
  proof (subst copy_n_in)
    show "7 + wire_len f \<le> length (?h @ replicate 33 0)"
      by (simp add: le_trans [OF wire_len_le])
    have *: "drop (7 + wire_len f) (?h @ replicate 33 0) = replicate (33 - wire_len f) 0"
      by (simp add: add.commute [of 7] flip: drop_drop)
    show "0 + wire_len f \<le> length (f_payload f)"
      using wf by (simp add: frame_wf_def)
    from * show "Some (take 7 (?h @ replicate 33 0) @ take (wire_len f) (drop 0 (f_payload f)) @
        drop (7 + wire_len f) (?h @ replicate 33 0))
      = Some (wire_body f @ replicate (33 - wire_len f) 0)"
      by (simp add: wire_body_def wire_payload_def)
  qed
  have sum: "checksum8 (Some (wire_body f @ replicate (33 - wire_len f) 0)) (7 + wire_len f)
      = Some (seal (wire_body f))"
    using wf by (subst checksum8_seal) (simp_all add: shape)
  have one_more: "replicate (33 - wire_len f) (0 :: u8) = 0 # replicate (32 - wire_len f) 0"
    using Suc_diff_le [OF wire_len_le [of f]] by simp
  have lt: "wire_len f < 33" using wire_len_le [of f] by linarith
  have last: "wr (wire_body f @ replicate (33 - wire_len f) 0) (7 + wire_len f) (seal (wire_body f))
      = Some (wire_image f @ replicate (32 - wire_len f) 0)"
    using wf lt by (simp add: wr_def wire_image_def shape list_update_append one_more)
  show ?thesis
    using copy sum last unfolding encode_frame_def n
    by (simp add: header_writes [simplified] Let_def)
qed

section \<open>Interface\<close>

text \<open>
  What the users of the codec rely on. A strict codec decodes exactly the images of
  canonical frames; a delimited one can also tell, from any buffer that starts with an
  image, how long that image is.
\<close>

locale frame_codec =
  fixes enc :: "'f \<Rightarrow> 'b list"
    and dec :: "'b list \<Rightarrow> 'e + 'f"
    and wf :: "'f \<Rightarrow> bool"
    and canonical :: "'f \<Rightarrow> bool"
    and canon :: "'f \<Rightarrow> 'f"
  assumes dec_iff: "dec bs = Inr f \<longleftrightarrow> canonical f \<and> bs = enc f"
    and canon: "wf f \<Longrightarrow> canonical (canon f)"
    and enc_canon: "wf f \<Longrightarrow> enc (canon f) = enc f"
    and canon_id: "canonical f \<Longrightarrow> canon f = f"
    and canonical_wf: "canonical f \<Longrightarrow> wf f"
begin

lemma dec_enc: "wf f \<Longrightarrow> dec (enc f) = Inr (canon f)"
  using canon enc_canon by (simp add: dec_iff)

lemma dec_enc_canonical: "canonical f \<Longrightarrow> dec (enc f) = Inr f"
  by (simp add: dec_iff)

lemma enc_inj_iff: "wf f \<Longrightarrow> wf g \<Longrightarrow> enc f = enc g \<longleftrightarrow> canon f = canon g"
  by (metis dec_enc enc_canon sum.inject(2))

lemma dec_inj: "dec bs = Inr f \<Longrightarrow> dec cs = Inr f \<Longrightarrow> bs = cs"
  by (simp add: dec_iff)

lemma dec_reencode: "dec bs = Inr f \<Longrightarrow> dec (enc f) = Inr f"
  by (simp add: dec_iff)

end

locale delimited_codec = frame_codec +
  fixes frame_len :: "'b list \<Rightarrow> nat"
  assumes frame_len_enc: "wf f \<Longrightarrow> frame_len (enc f @ pad) = length (enc f)"
    and enc_nonempty: "enc f \<noteq> []"
begin

lemma trim_enc: "wf f \<Longrightarrow> take (frame_len (enc f @ pad)) (enc f @ pad) = enc f"
  by (simp add: frame_len_enc)

lemma dec_padded: "wf f \<Longrightarrow> dec (take (frame_len (enc f @ pad)) (enc f @ pad)) = Inr (canon f)"
  by (simp only: trim_enc dec_enc)

lemma prefix_free:
  assumes "wf f" and "wf g" and "enc f @ u = enc g @ v"
  shows "enc f = enc g \<and> u = v"
proof -
  have "length (enc f) = frame_len (enc f @ u)" by (simp add: frame_len_enc assms(1))
  also have "\<dots> = frame_len (enc g @ v)" by (simp add: assms(3))
  also have "\<dots> = length (enc g)" by (simp add: frame_len_enc assms(2))
  finally have "length (enc f) = length (enc g)" .
  with assms(3) show ?thesis by simp
qed

lemma concat_unique:
  "\<forall>f\<in>set fs. canonical f \<Longrightarrow> \<forall>g\<in>set gs. canonical g \<Longrightarrow>
   concat (map enc fs) = concat (map enc gs) \<Longrightarrow> fs = gs"
proof (induction fs arbitrary: gs)
  case Nil
  then show ?case using enc_nonempty by (cases gs) auto
next
  case (Cons f fs)
  from Cons.prems(3) enc_nonempty [of f] obtain g hs where gs: "gs = g # hs"
    by (cases gs) simp_all
  with Cons.prems have "enc f @ concat (map enc fs) = enc g @ concat (map enc hs)"
    and fg: "canonical f" "canonical g" by simp_all
  from prefix_free [OF canonical_wf [OF fg(1)] canonical_wf [OF fg(2)] this(1)]
  have same: "enc f = enc g" and rest: "concat (map enc fs) = concat (map enc hs)" by blast+
  have "Inr f = dec (enc f)" using fg(1) by (simp only: dec_enc_canonical)
  also have "\<dots> = Inr g" unfolding same using fg(2) by (simp only: dec_enc_canonical)
  finally have "f = g" by simp
  moreover have "fs = hs"
    using Cons.IH [OF _ _ rest] Cons.prems(1,2) gs by simp
  ultimately show ?case by (simp add: gs)
qed

end

lemma wire_image_nonempty [simp]: "wire_image f \<noteq> []"
  by (simp add: wire_image_def)

lemma prefix_spec_wire_image:
  "frame_wf f \<Longrightarrow> prefix_spec (wire_image f @ pad) = length (wire_image f)"
  by (simp add: prefix_spec_def shape nth_append wire_image_nth [simplified])

interpretation codec: delimited_codec wire_image decode_spec frame_wf canonical canon prefix_spec
proof unfold_locales
  fix f :: frame and bs pad :: "u8 list"
  show "decode_spec bs = Inr f \<longleftrightarrow> canonical f \<and> bs = wire_image f" by (rule decode_spec_iff)
  show "canonical (canon f)" if "frame_wf f" using that by (rule canonical_canon)
  show "wire_image (canon f) = wire_image f" if "frame_wf f" using that by (rule wire_image_canon)
  show "canon f = f" if "canonical f" using that by (rule canon_canonical)
  show "frame_wf f" if "canonical f" using that by (simp add: canonical_def)
  show "prefix_spec (wire_image f @ pad) = length (wire_image f)" if "frame_wf f"
    using that by (rule prefix_spec_wire_image)
  show "wire_image f \<noteq> []" by simp
qed

section \<open>Facts for the users of the codec\<close>

lemma decode_ok_iff: "decode_ok (decode_outcome r) \<longleftrightarrow> (\<exists>f. r = Inr f)" if "r \<noteq> Inl No_error"
  using that by (cases r) (auto simp: decode_ok_def decode_outcome_def decode_failed_def)

lemma decode_outcome_simps [simp]:
  "decode_outcome (Inl e) = decode_failed e"
  "decode_outcome (Inr f) = \<lparr>dr_frame = f, dr_error = No_error\<rparr>"
  by (simp_all add: decode_outcome_def)

lemma decode_failed_simps [simp]:
  "dr_error (decode_failed e) = e" "dr_frame (decode_failed e) = Frame"
  by (simp_all add: decode_failed_def)

lemma decode_ok_outcome [simp]: "decode_ok \<lparr>dr_frame = f, dr_error = No_error\<rparr>"
  by (simp add: decode_ok_def)

lemma encode_frame_take:
  "frame_wf f \<Longrightarrow> encode_frame f = Some e \<Longrightarrow>
   take (ef_length e) (ef_bytes e) = wire_image f \<and> ef_length e = length (wire_image f) \<and>
   length (ef_bytes e) = 40"
  by (auto simp: ub_simps shape)

text \<open>The bytes of a frame on the wire, as the encoder writes them.\<close>

definition encoded_bytes :: "frame \<Rightarrow> u8 list" where
  "encoded_bytes f = (case encode_frame f of
     None \<Rightarrow> []
   | Some e \<Rightarrow> take (ef_length e) (ef_bytes e))"

lemma encoded_bytes_image: "frame_wf f \<Longrightarrow> encoded_bytes f = wire_image f"
  using encode_frame_take [of f] by (simp add: encoded_bytes_def encode_frame_spec)

lemma decode_encoded_spec [ub_simps]:
  "frame_wf f \<Longrightarrow> encode_frame f = Some e \<Longrightarrow>
   decode_encoded e = Some \<lparr>dr_frame = canon f, dr_error = No_error\<rparr>"
  by (auto simp: decode_encoded_def ub_simps shape codec.dec_enc)

lemma prefix_spec_bounds: "prefix_spec bs \<le> length bs" "prefix_spec bs \<le> 40"
  by (simp_all add: prefix_spec_def)

lemma prefix_spec_decoded: "decode_spec bs = Inr f \<Longrightarrow> prefix_spec bs = length bs"
  using codec.frame_len_enc [of f "[]"] by (auto simp: decode_spec_iff canonical_def)

section \<open>The documented validation order\<close>

text \<open>
  The checks of \<open>docs/api_reference.md\<close>, each on its own: \<open>violates e bs\<close> says that \<open>bs\<close>
  fails the check that reports \<open>e\<close>, whatever the other checks say.
\<close>

fun violates :: "decode_error \<Rightarrow> u8 list \<Rightarrow> bool" where
  "violates No_error bs = False"
| "violates Too_short bs = (length bs < 8)"
| "violates Bad_magic bs = (take 1 bs \<noteq> [kFrameMagic])"
| "violates Unsupported_version bs = (take 1 (drop 1 bs) \<noteq> [kProtocolVersion])"
| "violates Payload_too_large bs = (\<exists>b\<in>set (take 1 (drop 6 bs)). unat b > kMaxPayloadSize)"
| "violates Length_mismatch bs = (length bs \<noteq> 8 + (if length bs > 6 then unat (bs ! 6) else 0))"
| "violates Bad_checksum bs = (\<not> sealed bs)"

definition violations :: "u8 list \<Rightarrow> decode_error set" where
  "violations bs = {e. violates e bs}"

lemma take_1_nth: "i < length bs \<Longrightarrow> take 1 (drop i bs) = [bs ! i]"
  by (simp add: take_Suc_conv_app_nth)

lemma Min_violations:
  "violates e bs \<Longrightarrow> (\<And>e'. violates e' bs \<Longrightarrow> e \<le> e') \<Longrightarrow> Min (violations bs) = e"
  by (rule Min_eqI) (simp_all add: violations_def)

lemma decode_spec_first_violation:
  "decode_spec bs = (if violations bs = {} then Inr (unwire bs) else Inl (Min (violations bs)))"
proof (cases "length bs < 8")
  case True
  have "Min (violations bs) = Too_short"
  proof (rule Min_violations)
    show "Too_short \<le> e" if "violates e bs" for e
      using that by (cases e) (simp_all add: decode_error_order)
  qed (simp add: True)
  with True show ?thesis by (auto simp: decode_spec_def violations_def intro: exI [of _ Too_short])
next
  case False
  note long = False
  then have "bs \<noteq> []" by auto
  with long have v: "violates Bad_magic bs \<longleftrightarrow> bs ! 0 \<noteq> kFrameMagic"
    "violates Unsupported_version bs \<longleftrightarrow> bs ! 1 \<noteq> kProtocolVersion"
    "violates Payload_too_large bs \<longleftrightarrow> unat (bs ! 6) > 32"
    "violates Length_mismatch bs \<longleftrightarrow> length bs \<noteq> 8 + unat (bs ! 6)"
    using take_1_nth [of 0 bs] take_1_nth [of 1 bs] take_1_nth [of 6 bs] by (auto simp: not_less)
  show ?thesis
  proof (cases "decode_spec bs")
    case (Inr f)
    then have "\<not> violates e bs" for e
      using long v by (cases e) (auto simp: decode_spec_def split: if_splits)
    with Inr show ?thesis by (auto simp: violations_def decode_spec_def split: if_splits)
  next
    case (Inl e)
    then have e: "violates e bs"
      using long v by (cases e) (auto simp: decode_spec_def split: if_splits)
    from Inl have "\<not> violates e' bs" if "e' < e" for e'
      using long v that by (cases e; cases e'; auto simp: decode_spec_def decode_error_order
        simp del: violates.simps(3-6) split: if_splits)
    then have "Min (violations bs) = e"
      using e by (intro Min_violations) (auto simp: not_less [symmetric])
    with e Inl show ?thesis by (auto simp: violations_def)
  qed
qed

section \<open>Properties\<close>

definition sample_command :: frame where
  "sample_command = Frame\<lparr>f_type := command, f_node_id := 7, f_sequence := 42,
     f_payload_length := 3, f_payload := [0x10, 0x20, 0x30] @ replicate 29 0\<rparr>"

lemma sample_command_wf [simp]: "frame_wf sample_command"
  by (simp add: sample_command_def frame_wf_def)

lemma sample_command_canonical: "canonical sample_command"
  by code_simp

text \<open>
  C5: Round trip. Encoding any frame and decoding the result succeeds, without leaving a
  buffer, and gives the frame back with its payload length clamped to 32 and its unused
  payload storage zero.
\<close>

theorem frame_round_trip:
  assumes "frame_wf f"
  shows "(do { e \<leftarrow> encode_frame f; decode_encoded e })
    = Some \<lparr>dr_frame = canon f, dr_error = No_error\<rparr>"
  using assms decode_encoded_spec [of f] by (auto simp: encode_frame_spec)

lemma frame_round_trip_witness:
  "frame_wf sample_command \<and> (do { e \<leftarrow> encode_frame sample_command; decode_encoded e })
    = Some \<lparr>dr_frame = canon sample_command, dr_error = No_error\<rparr>"
  using frame_round_trip [of sample_command] by simp

text \<open>
  C6: The decoder is strict. It accepts a buffer, with a given frame, exactly when the
  buffer is the encoding of that frame and the frame is one that encoding keeps whole: no
  other bytes are accepted and no two buffers decode to the same frame.
\<close>

theorem decode_accepts_exactly_encodings:
  "decode_frame (Some bs) (length bs) = Some \<lparr>dr_frame = f, dr_error = No_error\<rparr> \<longleftrightarrow>
   canonical f \<and> (\<exists>e. encode_frame f = Some e \<and> bs = take (ef_length e) (ef_bytes e))"
proof -
  have "decode_frame (Some bs) (length bs) = Some \<lparr>dr_frame = f, dr_error = No_error\<rparr>
      \<longleftrightarrow> decode_spec bs = Inr f"
    using decode_spec_not_No_error [of bs]
    by (cases "decode_spec bs") (auto simp: ub_simps decode_failed_def)
  also have "\<dots> \<longleftrightarrow> canonical f \<and> bs = wire_image f" by (rule codec.dec_iff)
  also have "\<dots> \<longleftrightarrow> canonical f \<and>
      (\<exists>e. encode_frame f = Some e \<and> bs = take (ef_length e) (ef_bytes e))"
    by (auto simp: encode_frame_spec shape codec.canonical_wf)
  finally show ?thesis .
qed

text \<open>
  C18: A refused buffer is refused for the first of its faults in the documented order
  (length, magic, version, payload bound, exact length, checksum), and a buffer with no
  fault is accepted.
\<close>

theorem decode_reports_first_failure:
  "map_option dr_error (decode_frame (Some bs) (length bs)) =
   Some (if violations bs = {} then No_error else Min (violations bs))"
  by (simp add: ub_simps decode_spec_first_violation)

text \<open>
  C17: Every single-byte corruption is detected. Changing any one byte of an encoded frame
  to any other value makes the decoder refuse it.
\<close>

theorem single_byte_corruption_refused:
  assumes wf: "frame_wf f" and e: "encode_frame f = Some e"
    and i: "i < ef_length e" and b: "ef_bytes e ! i \<noteq> b"
  shows "\<exists>r. decode_frame (Some ((ef_bytes e)[i := b])) (ef_length e) = Some r \<and> \<not> decode_ok r"
proof -
  let ?w = "wire_image f"
  from encode_frame_take [OF wf e] have w: "take (ef_length e) (ef_bytes e) = ?w"
    and len: "ef_length e = length ?w" and n: "ef_length e \<le> length (ef_bytes e)"
    using wf by (auto simp: shape)
  from w i b have "?w ! i \<noteq> b" by (metis nth_take)
  with i len have "\<not> sealed (?w[i := b])"
    by (intro checksum.single_byte_detected wire_image_sealed) simp_all
  then have "decode_spec (?w[i := b]) \<noteq> Inr g" for g
    by (metis decode_spec_iff wire_image_sealed)
  then have "\<not> decode_ok (decode_outcome (decode_spec (?w[i := b])))"
    by (simp add: decode_ok_iff decode_spec_not_No_error)
  moreover have "take (ef_length e) ((ef_bytes e)[i := b]) = ?w[i := b]"
    using w by (simp add: take_update_swap)
  ultimately show ?thesis using n by (simp add: ub_simps)
qed

lemma single_byte_corruption_refused_witness:
  "\<exists>e r. encode_frame sample_command = Some e \<and>
     decode_frame (Some ((ef_bytes e)[2 := 0])) (ef_length e) = Some r \<and> \<not> decode_ok r"
proof -
  have e: "encode_frame sample_command = Some
     \<lparr>ef_bytes = wire_image sample_command @ replicate (32 - wire_len sample_command) 0,
      ef_length = 8 + wire_len sample_command\<rparr>" (is "_ = Some ?e")
    by (simp add: ub_simps)
  moreover have "ef_bytes ?e ! 2 \<noteq> 0"
    by code_simp
  ultimately show ?thesis
    using single_byte_corruption_refused [OF sample_command_wf e, of 2 0] by auto
qed

text \<open>
  Padded reads are trimmed to the frame. Whatever bytes follow an encoded frame in a
  buffer, the prefix inspector returns the length of the frame, and decoding that many
  bytes gives the frame.
\<close>

theorem padded_read_decodes:
  assumes wf: "frame_wf f" and e: "encode_frame f = Some e"
    and buf: "buf = take (ef_length e) (ef_bytes e) @ pad"
  shows "frame_length_from_prefix (Some buf) (length buf) = Some (ef_length e) \<and>
    decode_frame (Some buf) (ef_length e) = Some \<lparr>dr_frame = canon f, dr_error = No_error\<rparr>"
proof -
  from encode_frame_take [OF wf e] buf
  have b: "buf = wire_image f @ pad" and len: "ef_length e = length (wire_image f)" by auto
  with wf show ?thesis by (simp add: ub_simps codec.frame_len_enc codec.dec_enc)
qed

lemma padded_read_decodes_witness:
  "\<exists>e. encode_frame sample_command = Some e \<and>
     (let buf = take (ef_length e) (ef_bytes e) @ [0xB7, 1, 0] in
      frame_length_from_prefix (Some buf) (length buf) = Some (ef_length e) \<and>
      decode_frame (Some buf) (ef_length e)
        = Some \<lparr>dr_frame = canon sample_command, dr_error = No_error\<rparr>)"
proof -
  obtain e where e: "encode_frame sample_command = Some e"
    by (simp add: encode_frame_spec)
  with padded_read_decodes [OF sample_command_wf e refl] show ?thesis
    unfolding Let_def by blast
qed

text \<open>
  The prefix inspector never lets a caller read too far: within the bytes it may read,
  it is defined, and its result is zero or a length between 8 and 40 that the bytes given
  contain.
\<close>

theorem prefix_length_bounds:
  assumes "n \<le> length bs"
  shows "\<exists>k. frame_length_from_prefix (Some bs) n = Some k \<and> k \<le> n \<and>
    (k = 0 \<or> kFrameOverhead \<le> k \<and> k \<le> kMaxEncodedFrameSize)"
  using assms prefix_spec_bounds [of "take n bs"] by (simp add: ub_simps) (simp add: prefix_spec_def)

lemma prefix_length_bounds_witness:
  "\<exists>k. frame_length_from_prefix (Some [0xB7, 1, 0, 0, 0, 0, 0, 9]) 8 = Some k \<and> k \<le> 8 \<and>
    (k = 0 \<or> kFrameOverhead \<le> k \<and> k \<le> kMaxEncodedFrameSize)"
  by (rule prefix_length_bounds) simp

text \<open>
  The codec is free of out-of-bounds accesses. Decoding any readable buffer of any
  length, and encoding any frame, is defined; an encoded frame has between 8 and 40 bytes
  in a 40-byte buffer.
\<close>

theorem codec_memory_safe:
  assumes "n \<le> length bs" and "frame_wf f"
  shows "(\<exists>r. decode_frame (Some bs) n = Some r \<and> frame_wf (dr_frame r)) \<and>
    (\<exists>e. encode_frame f = Some e \<and> length (ef_bytes e) = kMaxEncodedFrameSize \<and>
       kFrameOverhead \<le> ef_length e \<and> ef_length e \<le> kMaxEncodedFrameSize)"
proof
  have "frame_wf (dr_frame (decode_outcome (decode_spec (take n bs))))"
    using codec.dec_iff [of "take n bs"] codec.canonical_wf
    by (cases "decode_spec (take n bs)") auto
  with assms(1) show "\<exists>r. decode_frame (Some bs) n = Some r \<and> frame_wf (dr_frame r)"
    by (simp add: ub_simps)
  show "\<exists>e. encode_frame f = Some e \<and> length (ef_bytes e) = kMaxEncodedFrameSize \<and>
      kFrameOverhead \<le> ef_length e \<and> ef_length e \<le> kMaxEncodedFrameSize"
    using assms(2) by (simp add: ub_simps shape)
qed

lemma codec_memory_safe_witness:
  "(\<exists>r. decode_frame (Some [1, 2, 3]) 2 = Some r \<and> frame_wf (dr_frame r)) \<and>
    (\<exists>e. encode_frame Frame = Some e \<and> length (ef_bytes e) = kMaxEncodedFrameSize \<and>
       kFrameOverhead \<le> ef_length e \<and> ef_length e \<le> kMaxEncodedFrameSize)"
  by (rule codec_memory_safe) simp_all

text \<open>
  What the checksum cannot see. Exchanging two header or payload bytes of an encoded
  frame, other than the magic, version, length and checksum bytes, always gives another
  accepted frame.
\<close>

theorem byte_swap_undetected:
  assumes wf: "frame_wf f" and e: "encode_frame f = Some e"
    and ij: "i \<in> {2..<ef_length e - 1} - {6}" "j \<in> {2..<ef_length e - 1} - {6}"
    and b: "b = take (ef_length e) (ef_bytes e)"
  shows "map_option decode_ok (decode_frame (Some (b[i := b ! j, j := b ! i])) (ef_length e))
    = Some True"
proof -
  let ?c = "b[i := b ! j, j := b ! i]"
  have img: "b = wire_image f" unfolding b using encode_frame_take [OF wf e] by blast
  with encode_frame_take [OF wf e] have len: "ef_length e = length b" by simp
  have "sealed ?c"
    using ij len by (subst checksum.swap_undetected) (auto simp: img wire_image_sealed)
  moreover have "?c ! 0 = kFrameMagic" "?c ! 1 = kProtocolVersion" "?c ! 6 = of_nat (wire_len f)"
    using ij by (simp_all add: img wire_image_nth [simplified])
  moreover have "length ?c = 8 + wire_len f" using wf by (simp add: img shape)
  ultimately have "decode_spec ?c = Inr (unwire ?c)"
    by (simp add: decode_spec_def del: nth_list_update)
  then show ?thesis using len by (simp add: ub_simps)
qed

lemma byte_swap_undetected_witness:
  "\<exists>e b. encode_frame sample_command = Some e \<and> b = take (ef_length e) (ef_bytes e) \<and>
     map_option decode_ok (decode_frame (Some (b[4 := b ! 5, 5 := b ! 4])) (ef_length e))
       = Some True"
proof -
  have "\<exists>e. encode_frame sample_command = Some e \<and> ef_length e \<ge> 8"
    by (simp add: encode_frame_spec)
  then obtain e where e: "encode_frame sample_command = Some e" "ef_length e \<ge> 8" by blast
  from byte_swap_undetected [OF sample_command_wf e(1) _ _ refl, of 4 5] e show ?thesis by auto
qed

end
