(* ===== verification/Stream_Decoder.thy ===== *)
theory Stream_Decoder
  imports Wire_Format
begin

text \<open>
  The incremental decoder of byte streams (\<open>include/picomesh/stream_decoder.h\<close>,
  \<open>src/stream_decoder.cpp\<close>): its buffer machine, the list machine it refines, and what a
  receiver gets out of a stream with noise, corruption and many frames.
\<close>

section \<open>The code\<close>

datatype stream_status = Need_more | Frame_ready | Frame_error | Discarded

record stream_result =
  sr_status :: stream_status
  sr_frame :: frame
  sr_error :: decode_error

definition StreamResult :: stream_result where
  "StreamResult = \<lparr>sr_status = Need_more, sr_frame = Frame, sr_error = No_error\<rparr>"

record stream_decoder =
  sd_buffer :: "u8 list"
  sd_size :: nat
  sd_expected_length :: nat

definition StreamDecoder :: stream_decoder where
  "StreamDecoder =
     \<lparr>sd_buffer = replicate kMaxEncodedFrameSize 0, sd_size = 0, sd_expected_length = 0\<rparr>"

definition sd_reset :: "stream_decoder \<Rightarrow> stream_decoder" where
  "sd_reset d = d\<lparr>sd_size := 0, sd_expected_length := 0\<rparr>"

definition buffered_size :: "stream_decoder \<Rightarrow> nat" where
  "buffered_size d = sd_size d"

definition sd_push :: "stream_decoder \<Rightarrow> u8 \<Rightarrow> stream_decoder option" where
  \<comment> \<open>\<open>buffer_[size_++] = byte\<close>\<close>
  "sd_push d byte = do {
     b \<leftarrow> wr (sd_buffer d) (sd_size d) byte;
     Some (d\<lparr>sd_buffer := b, sd_size := sd_size d + 1\<rparr>)
   }"

definition sd_fail ::
  "stream_decoder \<Rightarrow> decode_error \<Rightarrow> u8 \<Rightarrow> (stream_result \<times> stream_decoder) option" where
  "sd_fail d err last_byte = do {
     let d = sd_reset d;
     d \<leftarrow> (if last_byte = kFrameMagic
          then do {
            b \<leftarrow> wr (sd_buffer d) 0 last_byte;
            Some (d\<lparr>sd_buffer := b, sd_size := 1\<rparr>)
          }
          else Some d);
     Some (\<lparr>sr_status = Frame_error, sr_frame = Frame, sr_error = err\<rparr>, d)
   }"

text \<open>The last part of \<open>feed\<close>: a complete candidate is decoded, an incomplete one waits.\<close>

definition sd_complete :: "stream_decoder \<Rightarrow> (stream_result \<times> stream_decoder) option" where
  "sd_complete d =
     (if sd_expected_length d \<noteq> 0 \<and> sd_size d = sd_expected_length d
      then do {
        decoded \<leftarrow> decode_frame (Some (sd_buffer d)) (sd_size d);
        let d = sd_reset d;
        if \<not> decode_ok decoded
        then Some (\<lparr>sr_status = Frame_error, sr_frame = Frame, sr_error = dr_error decoded\<rparr>, d)
        else Some (\<lparr>sr_status = Frame_ready, sr_frame = dr_frame decoded,
                    sr_error = No_error\<rparr>, d)
      }
      else Some (StreamResult, d))"

definition feed :: "stream_decoder \<Rightarrow> u8 \<Rightarrow> (stream_result \<times> stream_decoder) option" where
  "feed d byte =
     (if sd_size d = 0
      then
        if byte \<noteq> kFrameMagic
        then Some (\<lparr>sr_status = Discarded, sr_frame = Frame, sr_error = Bad_magic\<rparr>, d)
        else do {
          d \<leftarrow> sd_push d byte;
          Some (StreamResult, d)
        }
      else if sd_size d \<ge> kMaxEncodedFrameSize then sd_fail d Length_mismatch byte
      else do {
        d \<leftarrow> sd_push d byte;
        bad_version \<leftarrow> (if sd_size d = 2
                       then do { v \<leftarrow> rd (sd_buffer d) 1; Some (v \<noteq> kProtocolVersion) }
                       else Some False);
        if bad_version then sd_fail d Unsupported_version byte
        else if sd_size d = kFrameHeaderSize
        then do {
          n \<leftarrow> rd (sd_buffer d) 6;
          let payload_length = unat n;
          if payload_length > kMaxPayloadSize then sd_fail d Payload_too_large byte
          else sd_complete (d\<lparr>sd_expected_length := kFrameOverhead + payload_length\<rparr>)
        }
        else sd_complete d
      })"

section \<open>Specification\<close>

text \<open>
  The decoder as a machine on the bytes of the current candidate: no buffer, no stored
  length. A failed header restarts the candidate with the offending byte when that byte is
  itself a magic byte.
\<close>

definition restart :: "u8 \<Rightarrow> u8 list" where
  "restart b = (if b = kFrameMagic then [b] else [])"

definition failure :: "decode_error \<Rightarrow> stream_result" where
  "failure e = \<lparr>sr_status = Frame_error, sr_frame = Frame, sr_error = e\<rparr>"

definition discarded :: stream_result where
  "discarded = \<lparr>sr_status = Discarded, sr_frame = Frame, sr_error = Bad_magic\<rparr>"

definition verdict :: "decode_error + frame \<Rightarrow> stream_result" where
  "verdict r = (case r of
     Inl e \<Rightarrow> failure e
   | Inr f \<Rightarrow> \<lparr>sr_status = Frame_ready, sr_frame = f, sr_error = No_error\<rparr>)"

definition stream_spec :: "u8 list \<Rightarrow> u8 \<Rightarrow> stream_result \<times> u8 list" where
  "stream_spec p b =
     (if p = [] then
        if b = kFrameMagic then (StreamResult, [b])
        else (discarded, [])
      else let q = p @ [b] in
        if length q = 2 \<and> b \<noteq> kProtocolVersion then (failure Unsupported_version, restart b)
        else if length q = 7 \<and> unat b > 32 then (failure Payload_too_large, restart b)
        else if length q > 7 \<and> length q = 8 + unat (q ! 6) then (verdict (decode_spec q), [])
        else (StreamResult, q))"

lemma stream_spec_cases:
  obtains (start) "p = []" "b = kFrameMagic" "stream_spec p b = (StreamResult, [b])"
  | (noise) "p = []" "b \<noteq> kFrameMagic" "stream_spec p b = (discarded, [])"
  | (version) "p \<noteq> []" "length p = 1" "b \<noteq> kProtocolVersion"
      "stream_spec p b = (failure Unsupported_version, restart b)"
  | (payload) "p \<noteq> []" "length p = 6" "unat b > 32"
      "stream_spec p b = (failure Payload_too_large, restart b)"
  | (full) "p \<noteq> []" "length p > 6" "length p = 7 + unat ((p @ [b]) ! 6)"
      "stream_spec p b = (verdict (decode_spec (p @ [b])), [])"
  | (wait) "p \<noteq> []" "stream_spec p b = (StreamResult, p @ [b])"
proof -
  consider "p = []" "b = kFrameMagic" | "p = []" "b \<noteq> kFrameMagic"
    | "p \<noteq> []" "length p = 1" "b \<noteq> kProtocolVersion"
    | "p \<noteq> []" "length p = 6" "unat b > 32"
    | "p \<noteq> []" "length p > 6" "length p = 7 + unat ((p @ [b]) ! 6)"
    | "p \<noteq> []" "\<not> (length p = 1 \<and> b \<noteq> kProtocolVersion)" "\<not> (length p = 6 \<and> unat b > 32)"
      "\<not> (length p > 6 \<and> length p = 7 + unat ((p @ [b]) ! 6))" by blast
  then show thesis
  proof cases
    case 1 then show ?thesis by (intro start) (simp_all add: stream_spec_def)
  next
    case 2 then show ?thesis by (intro noise) (simp_all add: stream_spec_def)
  next
    case 3 then show ?thesis by (intro version) (simp_all add: stream_spec_def)
  next
    case 4 then show ?thesis by (intro payload) (simp_all add: stream_spec_def)
  next
    case 5 then show ?thesis by (intro full) (simp_all add: stream_spec_def)
  next
    case 6
    have "(length (p @ [b]) = 2 \<and> b \<noteq> kProtocolVersion) = False" using 6(2) by simp
    moreover have "(length (p @ [b]) = 7 \<and> unat b > 32) = False" using 6(3) by simp
    moreover have "(length (p @ [b]) > 7 \<and> length (p @ [b]) = 8 + unat ((p @ [b]) ! 6)) = False"
      using 6(4) by simp
    ultimately have "stream_spec p b = (StreamResult, p @ [b])"
      unfolding stream_spec_def Let_def by (simp only: 6(1) if_False)
    with 6(1) show ?thesis by (rule wait)
  qed
qed

lemma stream_result_status [simp]:
  "sr_status StreamResult = Need_more" "sr_status discarded = Discarded"
  "sr_status (failure e) = Frame_error" "sr_error (failure e) = e"
  by (simp_all add: StreamResult_def discarded_def failure_def)

lemma verdict_simps [simp]:
  "verdict (Inl e) = failure e"
  "sr_status (verdict (Inr f)) = Frame_ready" "sr_frame (verdict (Inr f)) = f"
  by (simp_all add: verdict_def)

lemma verdict_status [simp]: "sr_status (verdict r) \<noteq> Need_more"
  by (cases r) simp_all

text \<open>A list is a candidate when it can still become the image of a frame.\<close>

definition candidate :: "u8 list \<Rightarrow> bool" where
  "candidate p \<longleftrightarrow> p \<noteq> [] \<and> p ! 0 = kFrameMagic \<and> (length p > 1 \<longrightarrow> p ! 1 = kProtocolVersion) \<and>
     (length p > 6 \<longrightarrow> unat (p ! 6) \<le> 32 \<and> length p < 8 + unat (p ! 6))"

definition sd_pending :: "stream_decoder \<Rightarrow> u8 list" where
  "sd_pending d = take (sd_size d) (sd_buffer d)"

definition sd_inv :: "stream_decoder \<Rightarrow> bool" where
  "sd_inv d \<longleftrightarrow> length (sd_buffer d) = kMaxEncodedFrameSize \<and> sd_size d < kMaxEncodedFrameSize \<and>
     (sd_size d = 0 \<or> candidate (sd_pending d)) \<and>
     sd_expected_length d = (if sd_size d > 6 then 8 + unat (sd_buffer d ! 6) else 0)"

lemma candidate_length: "candidate p \<Longrightarrow> length p < 40"
  by (auto simp: candidate_def)

lemma sd_inv_StreamDecoder: "sd_inv StreamDecoder"
  by (simp add: sd_inv_def StreamDecoder_def)

lemma sd_pending_StreamDecoder [simp]: "sd_pending StreamDecoder = []"
  by (simp add: sd_pending_def StreamDecoder_def)

lemma candidate_snoc:
  assumes c: "candidate p" and v: "length p = 1 \<longrightarrow> b = kProtocolVersion"
    and l: "length p = 6 \<longrightarrow> unat b \<le> 32"
    and f: "length p > 6 \<longrightarrow> length p \<noteq> 7 + unat ((p @ [b]) ! 6)"
  shows "candidate (p @ [b])"
proof -
  from c have p0: "p \<noteq> []" "p ! 0 = kFrameMagic" by (simp_all add: candidate_def)
  have "(p @ [b]) ! 1 = kProtocolVersion"
    using c v p0(1) by (cases "length p = 1") (auto simp: candidate_def nth_append Suc_lessI)
  moreover have "unat ((p @ [b]) ! 6) \<le> 32 \<and> length p < 7 + unat ((p @ [b]) ! 6)" if "length p > 5"
  proof (cases "length p = 6")
    case True
    with l show ?thesis by (simp add: nth_append)
  next
    case False
    with that have "length p > 6" by simp
    with c f show ?thesis by (auto simp: candidate_def nth_append)
  qed
  ultimately show ?thesis using p0 by (simp add: candidate_def nth_append)
qed

lemma stream_spec_candidate:
  assumes p: "p = [] \<or> candidate p"
  shows "snd (stream_spec p b) = [] \<or> candidate (snd (stream_spec p b))"
proof -
  have r: "restart b = [] \<or> candidate (restart b)" by (simp add: restart_def candidate_def)
  show ?thesis
  proof (cases "p = []")
    case True
    then show ?thesis by (simp add: stream_spec_def candidate_def)
  next
    case False
    with p have "candidate p" by simp
    from candidate_snoc [OF this, of b] r False show ?thesis
      by (simp add: stream_spec_def Let_def not_less)
  qed
qed

section \<open>The buffer machine refines the list machine\<close>

definition implements :: "(stream_result \<times> stream_decoder) option \<Rightarrow> stream_result \<times> u8 list \<Rightarrow> bool" where
  "implements m r \<longleftrightarrow> (\<exists>d. m = Some (fst r, d) \<and> sd_inv d \<and> sd_pending d = snd r)"

lemma implementsI: "m = Some (x, d) \<Longrightarrow> sd_inv d \<Longrightarrow> sd_pending d = p \<Longrightarrow> implements m (x, p)"
  by (simp add: implements_def)

lemma sd_fail_implements:
  "length (sd_buffer d) = 40 \<Longrightarrow> implements (sd_fail d e b) (failure e, restart b)"
  by (auto simp: implements_def sd_fail_def failure_def restart_def sd_reset_def sd_inv_def
      sd_pending_def candidate_def wr_def take_Suc_conv_app_nth)

lemma verdict_outcome:
  "verdict r = (if \<not> decode_ok (decode_outcome r)
     then \<lparr>sr_status = Frame_error, sr_frame = Frame, sr_error = dr_error (decode_outcome r)\<rparr>
     else \<lparr>sr_status = Frame_ready, sr_frame = dr_frame (decode_outcome r),
           sr_error = No_error\<rparr>)"
  if "r \<noteq> Inl No_error"
  using that by (cases r) (auto simp: verdict_def failure_def decode_ok_def)

lemma sd_reset_inv: "length (sd_buffer d) = 40 \<Longrightarrow> sd_inv (sd_reset d) \<and> sd_pending (sd_reset d) = []"
  by (simp add: sd_reset_def sd_inv_def sd_pending_def)

lemma sd_complete_implements:
  assumes len: "length (sd_buffer d) = 40" and size: "0 < sd_size d" "sd_size d \<le> 40"
    and exp: "sd_expected_length d = (if sd_size d > 6 then 8 + unat (sd_buffer d ! 6) else 0)"
    and cand: "sd_size d > 7 \<and> sd_size d = 8 + unat (sd_buffer d ! 6) \<or> candidate (sd_pending d)"
  shows "implements (sd_complete d)
    (if sd_size d > 7 \<and> sd_size d = 8 + unat (sd_buffer d ! 6)
     then (verdict (decode_spec (sd_pending d)), []) else (StreamResult, sd_pending d))"
proof (cases "sd_size d > 7 \<and> sd_size d = 8 + unat (sd_buffer d ! 6)")
  case True
  then have "sd_expected_length d = sd_size d" "sd_size d \<noteq> 0" by (simp_all add: exp)
  then have "sd_complete d = Some (verdict (decode_spec (sd_pending d)), sd_reset d)"
    using len size by (simp add: sd_complete_def ub_simps Let_def sd_pending_def
        verdict_outcome decode_spec_not_No_error)
  with True show ?thesis using sd_reset_inv [OF len] by (auto intro: implementsI)
next
  case False
  with cand have c: "candidate (sd_pending d)" by blast
  from candidate_length [OF c] len size have lt: "sd_size d < 40" by (simp add: sd_pending_def)
  from c size len have "sd_size d > 6 \<longrightarrow> sd_size d < 8 + unat (sd_buffer d ! 6)"
    by (auto simp: candidate_def sd_pending_def)
  then have "sd_complete d = Some (StreamResult, d)" by (auto simp: sd_complete_def exp)
  moreover have "sd_inv d" using len lt c exp by (simp add: sd_inv_def)
  ultimately show ?thesis using False by (auto intro: implementsI)
qed

lemma feed_implements_idle:
  "sd_inv d \<Longrightarrow> sd_size d = 0 \<Longrightarrow> implements (feed d b) (stream_spec (sd_pending d) b)"
  by (auto simp: feed_def stream_spec_def sd_push_def ub_simps implements_def sd_inv_def
      sd_pending_def candidate_def take_Suc_conv_app_nth discarded_def)

lemma feed_implements_pending:
  assumes inv: "sd_inv d" and size: "sd_size d \<noteq> 0"
  shows "implements (feed d b) (stream_spec (sd_pending d) b)"
proof -
  let ?n = "Suc (sd_size d)"
  define e where "e = d\<lparr>sd_buffer := (sd_buffer d)[sd_size d := b], sd_size := ?n\<rparr>"
  define q where "q = sd_pending d @ [b]"
  from inv size have len: "length (sd_buffer d) = 40" and lt: "sd_size d < 40"
    and cand: "candidate (sd_pending d)"
    and exp: "sd_expected_length d = (if sd_size d > 6 then 8 + unat (sd_buffer d ! 6) else 0)"
    by (auto simp: sd_inv_def)
  have push: "sd_push d b = Some e" using len lt by (simp add: sd_push_def wr_in e_def)
  have e: "length (sd_buffer e) = 40" "sd_size e = ?n" "sd_pending e = q"
    "sd_expected_length e = sd_expected_length d"
    using len lt by (simp_all add: e_def q_def sd_pending_def list_update_take_drop)
  have q: "length q = ?n" "sd_pending d \<noteq> []"
    using len lt cand by (simp_all add: q_def sd_pending_def candidate_def)
  have q6: "sd_buffer e ! 6 = q ! 6" if "6 < ?n"
    using e(3) that e(1,2) lt by (metis nth_take sd_pending_def)
  have q1: "sd_buffer e ! 1 = b" if "?n = 2"
    using that len by (simp add: e_def numeral_eq_Suc)
  have qh: "sd_buffer e ! 6 = b" if "?n = 7"
    using that len by (simp add: e_def)
  have old: "sd_buffer d ! 6 = q ! 6" if "6 < sd_size d"
    using that by (simp add: q_def sd_pending_def nth_append len less_imp_le [OF lt])
  note unf = feed_def stream_spec_def Let_def push q_def [symmetric] q
  consider (version) "?n = 2" "b \<noteq> kProtocolVersion"
    | (payload) "?n = 7" "unat b > 32"
    | (more) "\<not> (?n = 2 \<and> b \<noteq> kProtocolVersion)" "\<not> (?n = 7 \<and> unat b > 32)" by blast
  then show ?thesis
  proof cases
    case version
    then show ?thesis using size e q1 sd_fail_implements [OF e(1), of Unsupported_version b]
      by (simp add: unf rd_in)
  next
    case payload
    then show ?thesis using size e qh sd_fail_implements [OF e(1), of Payload_too_large b]
      by (simp add: unf rd_in)
  next
    case more
    define g where
      "g = e\<lparr>sd_expected_length := (if 6 < ?n then 8 + unat (sd_buffer e ! 6) else 0)\<rparr>"
    have g: "length (sd_buffer g) = 40" "sd_size g = ?n" "sd_pending g = q"
      "sd_expected_length g = (if sd_size g > 6 then 8 + unat (sd_buffer g ! 6) else 0)"
      using e by (simp_all add: g_def sd_pending_def)
    have g6: "sd_buffer g ! 6 = q ! 6" if "6 < ?n"
      using q6 [OF that] by (simp add: g_def)
    have "feed d b = sd_complete g"
    proof (cases "?n = 7")
      case True
      with more show ?thesis using size e qh by (simp add: unf rd_in g_def)
    next
      case False
      have "g = e" using False old q6 exp e(4) by (auto simp: g_def e_def)
      with False more show ?thesis using size lt e q1 by (auto simp: unf rd_in)
    qed
    moreover have "?n > 7 \<and> ?n = 8 + unat (q ! 6) \<or> candidate q"
      using candidate_snoc [OF cand, of b] more q(1) by (auto simp: q_def not_less)
    then have "implements (sd_complete g)
      (if ?n > 7 \<and> ?n = 8 + unat (q ! 6) then (verdict (decode_spec q), []) else (StreamResult, q))"
      using sd_complete_implements [of g] g g6 lt by (auto split: if_splits)
    moreover have "stream_spec (sd_pending d) b =
      (if ?n > 7 \<and> ?n = 8 + unat (q ! 6) then (verdict (decode_spec q), []) else (StreamResult, q))"
      using more q unfolding stream_spec_def Let_def q_def [symmetric] by auto
    ultimately show ?thesis by simp
  qed
qed

lemma feed_implements: "sd_inv d \<Longrightarrow> implements (feed d b) (stream_spec (sd_pending d) b)"
  using feed_implements_idle feed_implements_pending by blast

interpretation stream: refined_component feed sd_inv StreamDecoder stream_spec sd_pending
proof unfold_locales
  fix d e :: stream_decoder and b :: u8 and x :: stream_result
  show "sd_inv StreamDecoder" by (rule sd_inv_StreamDecoder)
  show "\<exists>x e. feed d b = Some (x, e)" if "sd_inv d"
    using feed_implements [OF that, of b] by (auto simp: implements_def)
  show "sd_inv e" if "sd_inv d" "feed d b = Some (x, e)"
    using feed_implements [OF that(1), of b] that(2) by (auto simp: implements_def)
  show "stream_spec (sd_pending d) b = (x, sd_pending e)" if "sd_inv d" "feed d b = Some (x, e)"
    using feed_implements [OF that(1), of b] that(2) by (auto simp: implements_def)
qed

section \<open>One frame on the stream\<close>

definition ready :: "frame \<Rightarrow> stream_result" where
  "ready f = \<lparr>sr_status = Frame_ready, sr_frame = f, sr_error = No_error\<rparr>"

definition ready_frames :: "stream_result list \<Rightarrow> frame list" where
  "ready_frames xs = map sr_frame (filter (\<lambda>r. sr_status r = Frame_ready) xs)"

lemma ready_frames_simps [simp]:
  "ready_frames [] = []"
  "ready_frames (x # xs) =
     (if sr_status x = Frame_ready then sr_frame x # ready_frames xs else ready_frames xs)"
  "ready_frames (xs @ ys) = ready_frames xs @ ready_frames ys"
  by (simp_all add: ready_frames_def)

lemma ready_frames_waiting [simp]: "ready_frames (replicate n StreamResult) = []"
  by (simp add: ready_frames_def StreamResult_def)

text \<open>
  Between frames the decoder holds nothing, or a magic byte that did not start a frame.
\<close>

definition settled :: "u8 list \<Rightarrow> bool" where
  "settled p \<longleftrightarrow> p = [] \<or> p = [kFrameMagic]"

lemma settled_restart [simp]: "settled (restart b)" "settled []"
  by (simp_all add: settled_def restart_def)

lemma stream_spec_settled:
  assumes "settled p" and "\<not> (p = [kFrameMagic] \<and> b = kProtocolVersion)"
  shows "snd (stream_spec p b) = restart b" and "sr_status (fst (stream_spec p b)) \<noteq> Frame_ready"
  using assms by (auto simp: settled_def stream_spec_def restart_def Let_def)

lemma stream_spec_image:
  assumes wf: "frame_wf f" and k: "0 < k" "k < length (wire_image f)"
  shows "stream_spec (take k (wire_image f)) (wire_image f ! k) =
    (if Suc k = length (wire_image f) then (ready (canon f), [])
     else (StreamResult, take (Suc k) (wire_image f)))"
proof -
  let ?w = "wire_image f"
  have q: "take k ?w @ [?w ! k] = take (Suc k) ?w" "take k ?w \<noteq> []"
    using k by (auto simp: take_Suc_conv_app_nth)
  have n: "length ?w = 8 + wire_len f" using wf by (rule length_wire_image)
  have q6: "take (Suc k) ?w ! 6 = of_nat (wire_len f)" if "6 \<le> k"
    using that wire_image_nth(7) [of f] by simp
  have full: "7 < Suc k \<and> Suc k = 8 + unat (take (Suc k) ?w ! 6) \<longleftrightarrow> Suc k = length ?w"
    using q6 n by (cases "6 \<le> k") auto
  have l: "length (take (Suc k) ?w) = Suc k" using k by simp
  have "?w ! k = kProtocolVersion" if "k = 1" using that wire_image_nth(2) [of f] by simp
  moreover have "unat (?w ! k) \<le> 32" if "k = 6" using that wire_image_nth(7) [of f] by simp
  moreover have "decode_spec ?w = Inr (canon f)" using wf by (rule codec.dec_enc)
  moreover have "take (Suc k) ?w = ?w" if "Suc k = length ?w" using that by simp
  ultimately show ?thesis
    using k q(2) unfolding stream_spec_def Let_def q(1) ready_def l full
    by (auto simp: verdict_def)
qed

lemma spec_run_image_rest:
  assumes wf: "frame_wf f"
  shows "0 < k \<Longrightarrow> k < length (wire_image f) \<Longrightarrow>
    spec_run stream_spec (take k (wire_image f)) (drop k (wire_image f)) =
      (replicate (length (wire_image f) - Suc k) StreamResult @ [ready (canon f)], [])"
proof (induction "length (wire_image f) - Suc k" arbitrary: k)
  case 0
  then have k: "Suc k = length (wire_image f)" by simp
  then have "drop k (wire_image f) = [wire_image f ! k]"
    using Cons_nth_drop_Suc [of k "wire_image f"] 0 by simp
  with 0 k show ?case by (simp add: stream_spec_image [OF wf])
next
  case (Suc m)
  then have k: "Suc k < length (wire_image f)" and m: "m = length (wire_image f) - Suc (Suc k)"
    by simp_all
  from Suc.hyps(1) [OF m] k have IH: "spec_run stream_spec (take (Suc k) (wire_image f))
      (drop (Suc k) (wire_image f)) = (replicate m StreamResult @ [ready (canon f)], [])"
    by (simp add: m)
  have "drop k (wire_image f) = wire_image f ! k # drop (Suc k) (wire_image f)"
    using k by (simp add: Cons_nth_drop_Suc)
  with IH Suc.prems k Suc.hyps(2) [symmetric] show ?case
    by (simp add: stream_spec_image [OF wf])
qed

lemma spec_run_image:
  assumes "settled p" and wf: "frame_wf f"
  shows "\<exists>xs. spec_run stream_spec p (wire_image f) = (xs, []) \<and> ready_frames xs = [canon f]"
proof -
  have w: "wire_image f = kFrameMagic # drop 1 (wire_image f)"
    using wire_image_nth(1) [of f] Cons_nth_drop_Suc [of 0 "wire_image f"] by simp
  have first: "snd (stream_spec p kFrameMagic) = take 1 (wire_image f)"
    "sr_status (fst (stream_spec p kFrameMagic)) \<noteq> Frame_ready"
    using stream_spec_settled [OF assms(1), of kFrameMagic] w
    by (simp_all add: restart_def) (metis take0 take_Suc_Cons)
  show ?thesis
    by (subst w) (use first spec_run_image_rest [OF wf, of 1] wf in
      \<open>simp add: shape split_beta Let_def ready_def\<close>)
qed

section \<open>Noise, and many frames\<close>

text \<open>Noise that never shows a magic byte followed by the version byte.\<close>

fun quiet :: "u8 list \<Rightarrow> bool" where
  "quiet (a # b # bs) = (\<not> (a = kFrameMagic \<and> b = kProtocolVersion) \<and> quiet (b # bs))"
| "quiet _ = True"

lemma quiet_Cons: "quiet (a # bs) \<Longrightarrow> quiet bs"
  by (cases bs) simp_all

lemma quiet_restart: "quiet (b # bs) \<Longrightarrow> quiet (restart b @ bs)"
  by (auto simp: restart_def dest: quiet_Cons)

lemma spec_run_quiet:
  "settled p \<Longrightarrow> quiet (p @ ns) \<Longrightarrow>
   \<exists>xs q. spec_run stream_spec p ns = (xs, q) \<and> settled q \<and> ready_frames xs = []"
proof (induction ns arbitrary: p)
  case Nil
  then show ?case by simp
next
  case (Cons b ns)
  have no: "\<not> (p = [kFrameMagic] \<and> b = kProtocolVersion)" and q: "quiet (b # ns)"
    using Cons.prems by (auto simp: settled_def)
  note st = stream_spec_settled [OF Cons.prems(1) no]
  from Cons.IH [OF settled_restart(1) quiet_restart [OF q]] st
  show ?case by (auto simp: split_beta Let_def)
qed

text \<open>A transmission: stretches of noise, each followed by the image of a frame.\<close>

definition transmission :: "(u8 list \<times> frame) list \<Rightarrow> u8 list" where
  "transmission segs = concat (map (\<lambda>(noise, f). noise @ encoded_bytes f) segs)"

lemma transmission_simps [simp]:
  "transmission [] = []"
  "transmission ((noise, f) # segs) = noise @ encoded_bytes f @ transmission segs"
  by (simp_all add: transmission_def)

lemma spec_run_transmission:
  "\<forall>(noise, f)\<in>set segs. quiet noise \<and> frame_wf f \<Longrightarrow> quiet trail \<Longrightarrow>
   \<exists>xs q. spec_run stream_spec [] (transmission segs @ trail) = (xs, q) \<and> settled q \<and>
     ready_frames xs = map (canon \<circ> snd) segs"
proof (induction segs)
  case Nil
  then show ?case using spec_run_quiet [of "[]" trail] by simp
next
  case (Cons s segs)
  obtain noise f where s: "s = (noise, f)" by fastforce
  with Cons.prems have wf: "frame_wf f" and "quiet noise" by auto
  then obtain xs p where a: "spec_run stream_spec [] noise = (xs, p)" "settled p"
    "ready_frames xs = []" using spec_run_quiet [of "[]" noise] by auto
  obtain ys where b: "spec_run stream_spec p (wire_image f) = (ys, [])"
    "ready_frames ys = [canon f]" using spec_run_image [OF a(2) wf] by blast
  obtain zs q where c: "spec_run stream_spec [] (transmission segs @ trail) = (zs, q)"
    "settled q" "ready_frames zs = map (canon \<circ> snd) segs"
    using Cons.IH Cons.prems by auto
  from a b c have "spec_run stream_spec [] (transmission (s # segs) @ trail)
      = (xs @ ys @ zs, q)"
    by (simp add: s spec_run_append encoded_bytes_image [OF wf])
  with a b c show ?case by (simp add: s)
qed

section \<open>Where a frame comes from\<close>

lemma stream_spec_suffix: "\<exists>pre. p @ [b] = pre @ snd (stream_spec p b)"
  by (cases rule: stream_spec_cases [of p b]) (auto simp: restart_def)

lemma spec_run_suffix: "\<exists>pre. bs = pre @ snd (spec_run stream_spec [] bs)"
proof (induction bs rule: rev_induct)
  case Nil
  then show ?case by simp
next
  case (snoc b bs)
  then obtain pre where pre: "bs = pre @ snd (spec_run stream_spec [] bs)" by blast
  obtain pre' where pre': "snd (spec_run stream_spec [] bs) @ [b]
      = pre' @ snd (stream_spec (snd (spec_run stream_spec [] bs)) b)"
    using stream_spec_suffix by blast
  have last: "snd (spec_run stream_spec [] (bs @ [b]))
      = snd (stream_spec (snd (spec_run stream_spec [] bs)) b)"
    by (simp add: spec_run_append split_beta Let_def)
  have "bs @ [b] = pre @ snd (spec_run stream_spec [] bs) @ [b]"
    by (subst pre) (simp only: append_assoc)
  also have "\<dots> = (pre @ pre') @ snd (spec_run stream_spec [] (bs @ [b]))"
    by (simp only: pre' last append_assoc)
  finally show ?case by blast
qed

lemma stream_spec_ready:
  "sr_status (fst (stream_spec p b)) = Frame_ready \<Longrightarrow>
   decode_spec (p @ [b]) = Inr (sr_frame (fst (stream_spec p b)))"
  by (cases rule: stream_spec_cases [of p b]; cases "decode_spec (p @ [b])") simp_all

lemma spec_run_ready_source:
  assumes k: "k < length bs"
    and rdy: "sr_status (fst (spec_run stream_spec [] bs) ! k) = Frame_ready"
  shows "\<exists>pre f. take (Suc k) bs = pre @ wire_image f \<and> canonical f \<and>
    sr_frame (fst (spec_run stream_spec [] bs) ! k) = f"
proof -
  let ?p = "snd (spec_run stream_spec [] (take k bs))"
  let ?r = "fst (stream_spec ?p (bs ! k))"
  have r: "fst (spec_run stream_spec [] bs) ! k = ?r" using k by (rule spec_run_nth)
  from rdy have "decode_spec (?p @ [bs ! k]) = Inr (sr_frame ?r)"
    unfolding r by (rule stream_spec_ready)
  then have f: "canonical (sr_frame ?r)" "?p @ [bs ! k] = wire_image (sr_frame ?r)"
    by (simp_all add: decode_spec_iff)
  obtain pre where pre: "take k bs = pre @ ?p" using spec_run_suffix by blast
  have "take (Suc k) bs = take k bs @ [bs ! k]" using k by (rule take_Suc_conv_app_nth)
  also have "\<dots> = pre @ ?p @ [bs ! k]" by (subst pre) (simp only: append_assoc)
  finally have "take (Suc k) bs = pre @ wire_image (sr_frame ?r)" by (simp only: f(2))
  with f(1) r show ?thesis by auto
qed

section \<open>Progress and recovery\<close>

lemma stream_spec_waiting:
  "sr_status (fst (stream_spec p b)) = Need_more \<Longrightarrow> snd (stream_spec p b) = p @ [b]"
  by (cases rule: stream_spec_cases [of p b]) simp_all

lemma spec_run_waiting:
  "\<forall>x\<in>set (fst (spec_run stream_spec p bs)). sr_status x = Need_more \<Longrightarrow>
   snd (spec_run stream_spec p bs) = p @ bs"
proof (induction bs arbitrary: p)
  case Nil
  then show ?case by simp
next
  case (Cons b bs)
  then have "snd (stream_spec p b) = p @ [b]"
    by (intro stream_spec_waiting) (simp add: split_beta Let_def)
  with Cons show ?case by (simp add: split_beta Let_def)
qed

lemma spec_run_no_magic:
  "p = [] \<or> candidate p \<Longrightarrow> kFrameMagic \<notin> set bs \<Longrightarrow> p \<noteq> [] \<longrightarrow> 40 \<le> length p + length bs \<Longrightarrow>
   snd (spec_run stream_spec p bs) = []"
proof (induction bs arbitrary: p)
  case Nil
  then show ?case using candidate_length [of p] by auto
next
  case (Cons b bs)
  let ?q = "snd (stream_spec p b)"
  have "?q = [] \<or> candidate ?q" using Cons.prems(1) by (rule stream_spec_candidate)
  moreover have "?q = [] \<or> p \<noteq> [] \<and> ?q = p @ [b]"
    using Cons.prems(2) by (cases rule: stream_spec_cases [of p b]) (auto simp: restart_def)
  ultimately have "snd (spec_run stream_spec ?q bs) = []"
    using Cons.prems(2,3) by (intro Cons.IH) auto
  then show ?case by (simp add: split_beta Let_def)
qed

lemma sd_inv_pending: "sd_inv d \<Longrightarrow> sd_pending d = [] \<or> candidate (sd_pending d)"
  by (auto simp: sd_inv_def sd_pending_def)

lemma length_sd_pending: "sd_inv d \<Longrightarrow> length (sd_pending d) = buffered_size d"
  by (auto simp: sd_inv_def sd_pending_def buffered_size_def)

lemma stream_spec_result:
  assumes "p = [] \<or> candidate p"
  shows "fst (stream_spec p b) \<in>
    {StreamResult, discarded, failure Unsupported_version, failure Payload_too_large,
     failure Bad_checksum} \<union> ready ` {f. canonical f}"
proof (cases rule: stream_spec_cases [of p b])
  case full
  show ?thesis
  proof (cases "decode_spec (p @ [b])")
    case (Inr f)
    then have "canonical f" by (simp add: decode_spec_iff)
    with Inr full show ?thesis by (simp add: verdict_def ready_def)
  next
    case (Inl e)
    have "candidate p" using assms full(1) by blast
    then have "(p @ [b]) ! 0 = kFrameMagic" "(p @ [b]) ! 1 = kProtocolVersion"
      "unat ((p @ [b]) ! 6) \<le> 32"
      using full(1,2) by (simp_all add: candidate_def nth_append)
    then have "decode_spec (p @ [b])
        = (if sealed (p @ [b]) then Inr (unwire (p @ [b])) else Inl Bad_checksum)"
      using full(2,3) unfolding decode_spec_def by simp
    with Inl have "e = Bad_checksum" by (simp split: if_splits)
    with Inl full show ?thesis by simp
  qed
qed simp_all

section \<open>Properties\<close>

lemma run_feed_spec:
  "\<exists>d. run feed StreamDecoder bs = Some (fst (spec_run stream_spec [] bs), d) \<and>
     sd_pending d = snd (spec_run stream_spec [] bs) \<and> sd_inv d"
  using stream.run_spec [OF sd_inv_StreamDecoder, of bs] by simp

lemma run_feed_outputs: "run feed StreamDecoder bs = Some (xs, d) \<Longrightarrow>
    xs = fst (spec_run stream_spec [] bs) \<and> sd_pending d = snd (spec_run stream_spec [] bs)"
  using stream.run_refines [OF sd_inv_StreamDecoder, of bs xs d] by simp

text \<open>
  C19: The stream decoder is safe on every input. Whatever bytes arrive, no access leaves
  the 40-byte buffer, one result comes back per byte, and between calls at most 39 bytes
  are held.
\<close>

theorem stream_decoder_memory_safe:
  "\<exists>xs d. run feed StreamDecoder bs = Some (xs, d) \<and> length xs = length bs \<and>
     length (sd_buffer d) = kMaxEncodedFrameSize \<and> buffered_size d < kMaxEncodedFrameSize"
  using run_feed_spec [of bs] by (auto simp: sd_inv_def buffered_size_def)

text \<open>
  C12: Frames survive noise. For any sequence of frames, each preceded by any noise in which
  no magic byte is followed by the version byte, and with such noise after the last, the
  decoder reports exactly those frames, in order and in canonical form.
\<close>

theorem stream_delivers_frames:
  assumes "\<forall>(noise, f)\<in>set segs. quiet noise \<and> frame_wf f" and "quiet trail"
  shows "\<exists>xs d. run feed StreamDecoder (transmission segs @ trail) = Some (xs, d) \<and>
    ready_frames xs = map (canon \<circ> snd) segs"
  using spec_run_transmission [OF assms] run_feed_spec [of "transmission segs @ trail"] by auto

lemma stream_delivers_frames_witness:
  "\<exists>xs d. run feed StreamDecoder
      (transmission [([0xB7, 0xB7, 2], Frame), ([], sample_command)] @ [0xB7]) = Some (xs, d) \<and>
    ready_frames xs = [canon Frame, canon sample_command]"
  using stream_delivers_frames [of "[([0xB7, 0xB7, 2], Frame), ([], sample_command)]" "[0xB7]"]
  by simp

text \<open>
  C20: No frame is invented. Whenever the decoder reports a frame, the bytes fed so far end
  with the encoding of exactly that frame, checksum included.
\<close>

theorem stream_frames_were_sent:
  assumes r: "run feed StreamDecoder bs = Some (xs, d)" and k: "k < length bs"
    and rdy: "sr_status (xs ! k) = Frame_ready"
  shows "\<exists>pre. take (Suc k) bs = pre @ encoded_bytes (sr_frame (xs ! k)) \<and>
    canonical (sr_frame (xs ! k))"
  using spec_run_ready_source [OF k] rdy run_feed_outputs [OF r]
  by (auto simp: encoded_bytes_image codec.canonical_wf)

lemma stream_frames_were_sent_witness:
  "\<exists>xs d pre. run feed StreamDecoder (0 # encoded_bytes Frame) = Some (xs, d) \<and>
     take 9 (0 # encoded_bytes Frame) = pre @ encoded_bytes (sr_frame (xs ! 8)) \<and>
     canonical (sr_frame (xs ! 8))"
proof -
  obtain xs d where r: "run feed StreamDecoder (0 # encoded_bytes Frame) = Some (xs, d)"
    using run_feed_spec by blast
  have "sr_status (fst (the (run feed StreamDecoder (0 # encoded_bytes Frame))) ! 8) = Frame_ready"
    by code_simp
  with r have rdy: "sr_status (xs ! 8) = Frame_ready" by simp
  have "length (encoded_bytes Frame) = 8" by code_simp
  then have k: "8 < length (0 # encoded_bytes Frame)" by simp
  from stream_frames_were_sent [OF r k rdy] r show ?thesis by auto
qed

text \<open>
  Every candidate is settled within 40 bytes: among the results of any 40 consecutive
  bytes, wherever in a stream they come, at least one is not \<open>need_more\<close>.
\<close>

theorem stream_decides_within_40_bytes:
  assumes "run feed StreamDecoder history = Some (ys, d)" and "run feed d bs = Some (xs, e)"
    and "length bs \<ge> kMaxEncodedFrameSize"
  shows "\<exists>x. x \<in> set xs \<and> sr_status x \<noteq> Need_more"
proof (rule ccontr)
  have d: "sd_inv d" using stream.run_inv [OF sd_inv_StreamDecoder assms(1)] .
  have sr: "spec_run stream_spec (sd_pending d) bs = (xs, sd_pending e)"
    using stream.run_refines [OF d assms(2)] .
  assume "\<nexists>x. x \<in> set xs \<and> sr_status x \<noteq> Need_more"
  with sr have "sd_pending e = sd_pending d @ bs"
    using spec_run_waiting [of "sd_pending d" bs] by auto
  then have "length (sd_pending e) \<ge> 40" using assms(3) by simp
  moreover have "sd_inv e" using stream.run_inv [OF d assms(2)] .
  ultimately show False
    using length_sd_pending [of e] by (simp add: sd_inv_def buffered_size_def)
qed

lemma stream_decides_within_40_bytes_witness:
  "\<exists>xs e x. run feed StreamDecoder (replicate 40 0xB7) = Some (xs, e) \<and> x \<in> set xs \<and>
     sr_status x \<noteq> Need_more"
proof -
  obtain xs e where r: "run feed StreamDecoder (replicate 40 0xB7) = Some (xs, e)"
    using run_feed_spec by blast
  have s: "run feed StreamDecoder [] = Some ([], StreamDecoder)" by simp
  from stream_decides_within_40_bytes [OF s r] r show ?thesis by auto
qed

text \<open>
  The decoder recovers from anything. After any history, however corrupted, 40 bytes
  without a magic byte (fewer, if a candidate was already under way) bring it back to the
  idle state, and the next frame sent is delivered.
\<close>

theorem stream_recovers_after_silence:
  assumes h: "run feed StreamDecoder history = Some (ys, d)"
    and silence: "length silence \<ge> kMaxEncodedFrameSize" "kFrameMagic \<notin> set silence"
    and wf: "frame_wf f"
  shows "\<exists>xs e zs g. run feed d silence = Some (xs, e) \<and> buffered_size e = 0 \<and>
    run feed e (encoded_bytes f) = Some (zs, g) \<and> ready_frames zs = [canon f]"
proof -
  have d: "sd_inv d" using stream.run_inv [OF sd_inv_StreamDecoder h] .
  obtain e where e: "run feed d silence = Some (fst (spec_run stream_spec (sd_pending d) silence), e)"
    "sd_pending e = snd (spec_run stream_spec (sd_pending d) silence)" "sd_inv e"
    using stream.run_spec [OF d] by blast
  have idle: "sd_pending e = []"
    unfolding e(2) using silence by (intro spec_run_no_magic sd_inv_pending d) simp_all
  obtain zs where "spec_run stream_spec (sd_pending e) (wire_image f) = (zs, [])"
    "ready_frames zs = [canon f]" using spec_run_image [OF _ wf, of "sd_pending e"] idle by auto
  with stream.run_spec [OF e(3), of "wire_image f"] e(1) idle length_sd_pending [OF e(3)]
  show ?thesis by (auto simp: encoded_bytes_image [OF wf])
qed

lemma stream_recovers_after_silence_witness:
  "\<exists>ys d xs e zs g. run feed StreamDecoder [0xB7, 1, 2] = Some (ys, d) \<and>
    run feed d (replicate 40 0) = Some (xs, e) \<and> buffered_size e = 0 \<and>
    run feed e (encoded_bytes sample_command) = Some (zs, g) \<and>
    ready_frames zs = [canon sample_command]"
proof -
  obtain ys d where h: "run feed StreamDecoder [0xB7, 1, 2] = Some (ys, d)"
    using run_feed_spec by blast
  from stream_recovers_after_silence [OF h _ _ sample_command_wf, of "replicate 40 0"] h
  show ?thesis by auto
qed

text \<open>
  The results are well formed. Every result of the decoder is one of: \<open>need_more\<close> or
  \<open>discarded\<close> with their fixed contents, an error that is \<open>unsupported_version\<close>,
  \<open>payload_too_large\<close> or \<open>bad_checksum\<close>, or a ready canonical frame without error. In
  particular the length-mismatch guard of the code is never taken.
\<close>

theorem stream_results_well_formed:
  assumes "run feed StreamDecoder bs = Some (xs, d)" and "x \<in> set xs"
  shows "x = StreamResult \<or> x = discarded \<or>
    x \<in> {failure Unsupported_version, failure Payload_too_large, failure Bad_checksum} \<or>
    (\<exists>f. x = ready f \<and> canonical f)"
proof -
  have "x \<in> {StreamResult, discarded, failure Unsupported_version, failure Payload_too_large,
     failure Bad_checksum} \<union> ready ` {f. canonical f}"
  proof (rule stream.run_outputs [OF _ sd_inv_StreamDecoder assms])
    fix e b y t
    assume "sd_inv e" and "feed e b = Some (y, t)"
    then have "y = fst (stream_spec (sd_pending e) b)"
      using stream.step_refines by (metis fst_conv)
    with stream_spec_result [OF sd_inv_pending [OF \<open>sd_inv e\<close>]]
    show "y \<in> {StreamResult, discarded, failure Unsupported_version, failure Payload_too_large,
      failure Bad_checksum} \<union> ready ` {f. canonical f}" by simp
  qed
  then show ?thesis by auto
qed

lemma stream_results_well_formed_witness:
  "\<exists>xs d. run feed StreamDecoder [0xB7, 9] = Some (xs, d) \<and>
    (xs ! 1 = StreamResult \<or> xs ! 1 = discarded \<or>
     xs ! 1 \<in> {failure Unsupported_version, failure Payload_too_large, failure Bad_checksum} \<or>
     (\<exists>f. xs ! 1 = ready f \<and> canonical f))"
proof -
  obtain xs d where r: "run feed StreamDecoder [0xB7, 9] = Some (xs, d)"
    using run_feed_spec by blast
  with run_length [OF r] have "xs ! 1 \<in> set xs" by simp
  from stream_results_well_formed [OF r this] r show ?thesis by blast
qed

end
