(* ===== verification/Node_Table.thy ===== *)
theory Node_Table
  imports Picomesh_Prelude
begin

text \<open>
  The contract shared by the fixed tables that are indexed by node ID (the registry of
  \<open>node_registry.h\<close> and the tracker of \<open>sequence_tracker.h\<close>): a call addresses one node or
  all of them, touches only the slots it addresses, answers from the slot it addresses, and
  ignores node IDs outside the table. From it, once for both tables: what is stored and
  answered for a node does not depend on the traffic of the others.
\<close>

definition kMaxNodes :: nat where [simp]: "kMaxNodes = 32"

locale node_table = safe_component step inv start
  for step :: "('s, 'c, 'o) component" and inv and start +
  fixes target :: "'c \<Rightarrow> u8 option"
    and slot :: "'s \<Rightarrow> nat \<Rightarrow> 'v"
  assumes other_slots: "inv s \<Longrightarrow> step s c = Some (x, t) \<Longrightarrow> i < kMaxNodes \<Longrightarrow>
      target c = Some n \<Longrightarrow> unat n \<noteq> i \<Longrightarrow> slot t i = slot s i"
    and own_slot: "inv s \<Longrightarrow> inv s' \<Longrightarrow> step s c = Some (x, t) \<Longrightarrow> step s' c = Some (x', t') \<Longrightarrow>
      i < kMaxNodes \<Longrightarrow> slot s i = slot s' i \<Longrightarrow> slot t i = slot t' i"
    and own_answer: "inv s \<Longrightarrow> inv s' \<Longrightarrow> step s c = Some (x, t) \<Longrightarrow> step s' c = Some (x', t') \<Longrightarrow>
      i < kMaxNodes \<Longrightarrow> target c = Some n \<Longrightarrow> unat n = i \<Longrightarrow> slot s i = slot s' i \<Longrightarrow> x = x'"
    and out_of_range: "inv s \<Longrightarrow> step s c = Some (x, t) \<Longrightarrow> target c = Some n \<Longrightarrow>
      \<not> unat n < kMaxNodes \<Longrightarrow> t = s"
begin

text \<open>The calls that concern slot \<open>i\<close>: those for this node and those for all nodes.\<close>

abbreviation concerns :: "nat \<Rightarrow> 'c \<Rightarrow> bool" where
  "concerns i c \<equiv> (case target c of None \<Rightarrow> True | Some n \<Rightarrow> unat n = i)"

lemma run_slot_local:
  "inv s \<Longrightarrow> inv s' \<Longrightarrow> i < kMaxNodes \<Longrightarrow> slot s i = slot s' i \<Longrightarrow>
   run step s cs = Some (xs, t) \<Longrightarrow> run step s' (filter (concerns i) cs) = Some (ys, t') \<Longrightarrow>
   slot t i = slot t' i"
proof (induction cs arbitrary: s s' xs ys)
  case Nil
  then show ?case by simp
next
  case (Cons c cs)
  from Cons.prems(5) obtain x u xs' where c: "step s c = Some (x, u)"
    and rest: "run step u cs = Some (xs', t)" by (auto split: Option.bind_splits)
  have u: "inv u" using Cons.prems(1) c by (rule step_inv)
  show ?case
  proof (cases "concerns i c")
    case True
    with Cons.prems(6) obtain y u' ys' where c': "step s' c = Some (y, u')"
      and rest': "run step u' (filter (concerns i) cs) = Some (ys', t')"
      by (auto split: Option.bind_splits)
    have "slot u i = slot u' i" using Cons.prems(1,2) c c' Cons.prems(3,4) by (rule own_slot)
    with u step_inv [OF Cons.prems(2) c'] Cons.prems(3) rest rest' show ?thesis
      using Cons.IH by blast
  next
    case False
    then obtain n where "target c = Some n" "unat n \<noteq> i" by (auto split: option.splits)
    with other_slots [OF Cons.prems(1) c Cons.prems(3)] have "slot u i = slot s' i"
      using Cons.prems(4) by simp
    with Cons.IH [OF u Cons.prems(2,3) _ rest] Cons.prems(6) False show ?thesis by simp
  qed
qed

lemma answer_local:
  assumes r: "run step start cs = Some (xs, s)" "run step start (filter (concerns i) cs) = Some (ys, s')"
    and i: "i < kMaxNodes" "target c = Some n" "unat n = i"
    and c: "step s c = Some (x, t)" "step s' c = Some (x', t')"
  shows "x = x'"
proof -
  have inv: "inv s" "inv s'" using r run_inv [OF inv_start] by blast+
  have "slot s i = slot s' i" using inv_start inv_start i(1) refl r by (rule run_slot_local)
  with own_answer [OF inv c i] show ?thesis by blast
qed

lemma out_of_range_run:
  assumes "inv s" "\<forall>c\<in>set cs. \<exists>n. target c = Some n \<and> \<not> unat n < kMaxNodes"
  shows "run step s cs = Some (xs, t) \<Longrightarrow> t = s"
  using assms
proof (induction cs arbitrary: xs)
  case Nil
  then show ?case by simp
next
  case (Cons c cs)
  then obtain x u ys where c: "step s c = Some (x, u)" "run step u cs = Some (ys, t)"
    by (auto split: Option.bind_splits)
  moreover have "u = s" using Cons.prems(2,3) c(1) out_of_range by fastforce
  ultimately show ?case using Cons.IH Cons.prems by auto
qed

end

end
