(* ===== verification/Sequence_Tracker.thy ===== *)
theory Sequence_Tracker
  imports Node_Table
begin

text \<open>
  The modulo-256 sequence classifier (\<open>include/picomesh/sequence_tracker.h\<close>,
  \<open>src/sequence_tracker.cpp\<close>): its arrays, the partial map of last accepted sequences they
  implement, and what its half-range rule says of messages numbered without wrap-around.
\<close>

section \<open>The code\<close>

datatype sequence_state = First | Newer | Duplicate | Stale | Invalid_node

record sequence_tracker =
  tr_last_sequence :: "u8 list"
  tr_seen :: "bool list"

definition SequenceTracker :: sequence_tracker where
  "SequenceTracker =
     \<lparr>tr_last_sequence = replicate kMaxNodes 0, tr_seen = replicate kMaxNodes False\<rparr>"

definition tr_observe ::
  "sequence_tracker \<Rightarrow> u8 \<Rightarrow> u8 \<Rightarrow> (sequence_state \<times> sequence_tracker) option" where
  "tr_observe t node_id sequence =
     (if unat node_id \<ge> kMaxNodes then Some (Invalid_node, t)
      else do {
        seen \<leftarrow> rd (tr_seen t) (unat node_id);
        if \<not> seen then do {
          sn \<leftarrow> wr (tr_seen t) (unat node_id) True;
          ls \<leftarrow> wr (tr_last_sequence t) (unat node_id) sequence;
          Some (First, t\<lparr>tr_seen := sn, tr_last_sequence := ls\<rparr>)
        }
        else do {
          prev \<leftarrow> rd (tr_last_sequence t) (unat node_id);
          let delta = sequence - prev;
          if delta = 0 then Some (Duplicate, t)
          else if delta < 128 then do {
            ls \<leftarrow> wr (tr_last_sequence t) (unat node_id) sequence;
            Some (Newer, t\<lparr>tr_last_sequence := ls\<rparr>)
          }
          else Some (Stale, t)
        }
      })"

definition tr_reset :: "sequence_tracker \<Rightarrow> u8 \<Rightarrow> sequence_tracker option" where
  "tr_reset t node_id =
     (if unat node_id < kMaxNodes
      then do {
        sn \<leftarrow> wr (tr_seen t) (unat node_id) False;
        ls \<leftarrow> wr (tr_last_sequence t) (unat node_id) 0;
        Some (t\<lparr>tr_seen := sn, tr_last_sequence := ls\<rparr>)
      }
      else Some t)"

definition tr_reset_all :: "sequence_tracker \<Rightarrow> sequence_tracker" where
  "tr_reset_all t = t\<lparr>tr_seen := replicate (length (tr_seen t)) False,
     tr_last_sequence := replicate (length (tr_last_sequence t)) 0\<rparr>"

datatype tracker_call = Track u8 u8 | Reset u8 | Reset_all

fun tr_step ::
  "sequence_tracker \<Rightarrow> tracker_call \<Rightarrow> (sequence_state option \<times> sequence_tracker) option" where
  "tr_step t (Track node_id sequence) = do {
     (st, t) \<leftarrow> tr_observe t node_id sequence;
     Some (Some st, t)
   }"
| "tr_step t (Reset node_id) = do {
     t \<leftarrow> tr_reset t node_id;
     Some (None, t)
   }"
| "tr_step t Reset_all = Some (None, tr_reset_all t)"

section \<open>Specification\<close>

text \<open>The half-range rule on the sequences as numbers.\<close>

definition forward_distance :: "u8 \<Rightarrow> u8 \<Rightarrow> nat" where
  "forward_distance l sequence = (unat sequence + 256 - unat l) mod 256"

definition classify :: "u8 option \<Rightarrow> u8 \<Rightarrow> sequence_state" where
  "classify prev sequence = (case prev of
     None \<Rightarrow> First
   | Some l \<Rightarrow>
       if forward_distance l sequence = 0 then Duplicate
       else if forward_distance l sequence < 128 then Newer
       else Stale)"

definition accepted :: "sequence_state \<Rightarrow> bool" where
  "accepted st \<longleftrightarrow> st = First \<or> st = Newer"

type_synonym tracker_map = "u8 \<Rightarrow> u8 option"

fun tracker_spec :: "tracker_map \<Rightarrow> tracker_call \<Rightarrow> sequence_state option \<times> tracker_map" where
  "tracker_spec m (Track n sq) =
     (if unat n < kMaxNodes
      then (Some (classify (m n) sq), if accepted (classify (m n) sq) then m(n \<mapsto> sq) else m)
      else (Some Invalid_node, m))"
| "tracker_spec m (Reset n) = (None, m(n := None))"
| "tracker_spec m Reset_all = (None, \<lambda>_. None)"

definition tr_slot :: "sequence_tracker \<Rightarrow> nat \<Rightarrow> u8 option" where
  "tr_slot t i = (if tr_seen t ! i then Some (tr_last_sequence t ! i) else None)"

definition tr_map :: "sequence_tracker \<Rightarrow> tracker_map" where
  "tr_map t n = (if unat n < kMaxNodes then tr_slot t (unat n) else None)"

definition tr_inv :: "sequence_tracker \<Rightarrow> bool" where
  "tr_inv t \<longleftrightarrow> length (tr_last_sequence t) = kMaxNodes \<and> length (tr_seen t) = kMaxNodes"

lemma tr_inv_SequenceTracker: "tr_inv SequenceTracker"
  by (simp add: tr_inv_def SequenceTracker_def)

lemma tr_map_SequenceTracker: "tr_map SequenceTracker = (\<lambda>_. None)"
  by (auto simp: tr_map_def tr_slot_def SequenceTracker_def)

section \<open>The arrays implement the map\<close>

lemma forward_distance_word: "unat (sequence - l) = forward_distance l sequence"
proof -
  have "unat l \<le> unat sequence + 256" using unat_u8_le [of l] by linarith
  then have "of_nat (unat sequence + 256 - unat l) = (sequence - l :: u8)"
    by (simp add: of_nat_diff)
  then have "unat (sequence - l) = unat (of_nat (unat sequence + 256 - unat l) :: u8)" by simp
  then show ?thesis by (simp add: forward_distance_def unat_of_nat take_bit_eq_mod)
qed

lemma classify_word:
  "classify (Some l) sq = (if sq - l = 0 then Duplicate else if sq - l < 128 then Newer else Stale)"
  by (simp add: classify_def word_less_nat_alt unat_eq_0 flip: forward_distance_word)

lemma accepted_simps [simp]:
  "accepted First" "accepted Newer" "\<not> accepted Duplicate" "\<not> accepted Stale" "\<not> accepted Invalid_node"
  by (simp_all add: accepted_def)

lemma tr_observe_in:
  assumes t: "tr_inv t" and n: "unat n < 32"
  shows "\<exists>t'. tr_observe t n sq = Some (classify (tr_slot t (unat n)) sq, t') \<and> tr_inv t' \<and>
    (\<forall>i < 32. tr_slot t' i =
      (if i = unat n \<and> accepted (classify (tr_slot t (unat n)) sq) then Some sq else tr_slot t i))"
proof (cases "tr_seen t ! unat n")
  case False
  with t n show ?thesis
    by (auto simp: tr_observe_def tr_inv_def tr_slot_def ub_simps nth_list_update classify_def)
next
  case True
  with t n show ?thesis
    by (auto simp: tr_observe_def tr_inv_def tr_slot_def ub_simps nth_list_update classify_word)
qed

lemma tr_reset_in:
  "tr_inv t \<Longrightarrow> unat n < 32 \<Longrightarrow> \<exists>t'. tr_reset t n = Some t' \<and> tr_inv t' \<and>
    (\<forall>i < 32. tr_slot t' i = (if i = unat n then None else tr_slot t i))"
  by (auto simp: tr_reset_def tr_inv_def tr_slot_def ub_simps nth_list_update)

lemma tr_out:
  "\<not> unat n < 32 \<Longrightarrow> tr_observe t n sq = Some (Invalid_node, t)"
  "\<not> unat n < 32 \<Longrightarrow> tr_reset t n = Some t"
  by (simp_all add: tr_observe_def tr_reset_def)

text \<open>One call in terms of the slots.\<close>

lemma tr_step_cases:
  assumes t: "tr_inv t" and s: "tr_step t c = Some (x, u)"
  shows "(\<exists>n sq. c = Track n sq \<and> unat n < 32 \<and> x = Some (classify (tr_slot t (unat n)) sq) \<and>
      (\<forall>i < 32. tr_slot u i =
        (if i = unat n \<and> accepted (classify (tr_slot t (unat n)) sq) then Some sq else tr_slot t i))) \<or>
    (\<exists>n sq. c = Track n sq \<and> \<not> unat n < 32 \<and> x = Some Invalid_node \<and> u = t) \<or>
    (\<exists>n. c = Reset n \<and> unat n < 32 \<and> x = None \<and>
      (\<forall>i < 32. tr_slot u i = (if i = unat n then None else tr_slot t i))) \<or>
    (\<exists>n. c = Reset n \<and> \<not> unat n < 32 \<and> x = None \<and> u = t) \<or>
    (c = Reset_all \<and> x = None \<and> (\<forall>i < 32. tr_slot u i = None))"
proof (cases c)
  case (Track n sq)
  with tr_observe_in [OF t, of n sq] s show ?thesis
    by (cases "unat n < 32") (auto simp: tr_out)
next
  case (Reset n)
  with tr_reset_in [OF t, of n] s show ?thesis
    by (cases "unat n < 32") (auto simp: tr_out)
next
  case Reset_all
  with t s show ?thesis by (auto simp: tr_reset_all_def tr_slot_def tr_inv_def)
qed

lemma tr_step_defined: "tr_inv t \<Longrightarrow> \<exists>x u. tr_step t c = Some (x, u) \<and> tr_inv u"
proof (cases c)
  case (Track n sq)
  assume t: "tr_inv t"
  with Track tr_observe_in [OF t, of n sq] show ?thesis
    by (cases "unat n < 32") (auto simp: tr_out)
next
  case (Reset n)
  assume t: "tr_inv t"
  with Reset tr_reset_in [OF t, of n] show ?thesis
    by (cases "unat n < 32") (auto simp: tr_out)
qed (simp add: tr_inv_def tr_reset_all_def)

fun tracker_target :: "tracker_call \<Rightarrow> u8 option" where
  "tracker_target (Track n sq) = Some n"
| "tracker_target (Reset n) = Some n"
| "tracker_target Reset_all = None"

interpretation tracker: refined_component tr_step tr_inv SequenceTracker tracker_spec tr_map
proof unfold_locales
  fix t u c x
  show "tr_inv SequenceTracker" by (rule tr_inv_SequenceTracker)
  assume t: "tr_inv t"
  show "\<exists>x u. tr_step t c = Some (x, u)" using tr_step_defined [OF t] by blast
  assume s: "tr_step t c = Some (x, u)"
  then show "tr_inv u" using tr_step_defined [OF t, of c] by auto
  from tr_step_cases [OF t s] show "tracker_spec (tr_map t) c = (x, tr_map u)"
    by (elim disjE) (auto simp: tr_map_def [abs_def] fun_eq_iff)
qed

interpretation tracker_table: node_table tr_step tr_inv SequenceTracker tracker_target tr_slot
proof unfold_locales
  fix t t' u u' :: sequence_tracker and c x x' and i :: nat and n :: u8
  assume t: "tr_inv t" and s: "tr_step t c = Some (x, u)"
  note cs = tr_step_cases [OF t s]
  show "tr_slot u i = tr_slot t i"
    if "i < kMaxNodes" "tracker_target c = Some n" "unat n \<noteq> i" using cs that by auto
  show "u = t" if "tracker_target c = Some n" "\<not> unat n < kMaxNodes" using cs that by auto
  assume t': "tr_inv t'" and s': "tr_step t' c = Some (x', u')" and i: "i < kMaxNodes"
    and same: "tr_slot t i = tr_slot t' i"
  note cs' = tr_step_cases [OF t' s']
  show "tr_slot u i = tr_slot u' i" using cs cs' same i by (elim disjE) auto
  show "x = x'" if "tracker_target c = Some n" "unat n = i"
    using cs cs' that same by (elim disjE) auto
qed

section \<open>Messages numbered without wrap-around\<close>

text \<open>
  The sender counts its messages \<open>0, 1, 2, \<dots>\<close> and the frame carries the count modulo 256.
  \<open>in_window m bs\<close>: in the arrival order \<open>bs\<close>, no message is ahead of the newest one so far
  (\<open>m\<close> at the start) by 128 or more, or behind it by more than 128.
\<close>

fun in_window :: "nat \<Rightarrow> nat list \<Rightarrow> bool" where
  "in_window m [] = True"
| "in_window m (b # bs) = (b < m + 128 \<and> m \<le> b + 128 \<and> in_window (max m b) bs)"

fun true_order :: "nat \<Rightarrow> nat list \<Rightarrow> sequence_state list" where
  "true_order m [] = []"
| "true_order m (b # bs) =
     (if b > m then Newer else if b = m then Duplicate else Stale) # true_order (max m b) bs"

lemma classify_of_nat:
  assumes "b < m + 128" and "m \<le> b + 128"
  shows "classify (Some (of_nat m)) (of_nat b) =
    (if b > m then Newer else if b = m then Duplicate else Stale)"
proof (cases "m \<le> b")
  case True
  with assms have "unat (of_nat b - of_nat m :: u8) = b - m"
    by (simp add: unat_of_nat_u8 flip: of_nat_diff)
  with True assms show ?thesis by (auto simp: classify_def simp flip: forward_distance_word)
next
  case False
  have "(of_nat b - of_nat m :: u8) = of_nat (b + 256 - m)"
    using assms by (simp add: of_nat_diff)
  also have "unat \<dots> = b + 256 - m" using False by (intro unat_of_nat_u8) simp
  finally have "unat (of_nat b - of_nat m :: u8) = b + 256 - m" .
  with False assms show ?thesis by (auto simp: classify_def simp flip: forward_distance_word)
qed

lemma spec_run_true_order:
  "unat n < 32 \<Longrightarrow> m n = Some (of_nat b) \<Longrightarrow> in_window b bs \<Longrightarrow>
   fst (spec_run tracker_spec m (map (\<lambda>c. Track n (of_nat c)) bs)) = map Some (true_order b bs)"
proof (induction bs arbitrary: m b)
  case Nil
  then show ?case by simp
next
  case (Cons c bs)
  then have cl: "classify (m n) (of_nat c) = (if c > b then Newer else if c = b then Duplicate else Stale)"
    by (simp add: classify_of_nat)
  let ?m = "snd (tracker_spec m (Track n (of_nat c)))"
  have "?m n = Some (of_nat (max b c))"
    using Cons.prems(1,2) cl by (auto simp: max_def)
  with Cons.IH [of ?m "max b c"] Cons.prems(1,3) cl show ?case
    by (simp add: split_beta Let_def)
qed

section \<open>Properties\<close>

lemma run_tracker:
  "\<exists>t. run tr_step SequenceTracker cs = Some (fst (spec_run tracker_spec (\<lambda>_. None) cs), t) \<and>
     tr_map t = snd (spec_run tracker_spec (\<lambda>_. None) cs) \<and> tr_inv t"
  using tracker.run_spec [OF tr_inv_SequenceTracker, of cs] by (simp add: tr_map_SequenceTracker)

text \<open>
  C23: The tracker is a map from node IDs to last accepted sequences, classified by modulo-256
  forward distance: 0 duplicate, 1 to 127 newer, 128 to 255 stale. Any sequence of
  observations and resets, for any node IDs, stays inside the arrays and returns what this
  specification returns.
\<close>

theorem tracker_implements_map:
  "\<exists>t. run tr_step SequenceTracker cs = Some (fst (spec_run tracker_spec (\<lambda>_. None) cs), t) \<and>
     (\<forall>n sq. map_option fst (tr_observe t n sq) = Some (if unat n < kMaxNodes
        then classify (snd (spec_run tracker_spec (\<lambda>_. None) cs) n) sq else Invalid_node))"
proof -
  obtain t where t: "run tr_step SequenceTracker cs = Some (fst (spec_run tracker_spec (\<lambda>_. None) cs), t)"
    "tr_map t = snd (spec_run tracker_spec (\<lambda>_. None) cs)" "tr_inv t" using run_tracker by blast
  have "map_option fst (tr_observe t n sq) = Some (if unat n < kMaxNodes
        then classify (tr_map t n) sq else Invalid_node)" for n sq
    using tr_observe_in [OF t(3), of n sq] tr_out(1) [of n t sq]
    by (cases "unat n < 32") (auto simp: tr_map_def)
  then show ?thesis unfolding t(2) using t(1) by blast
qed

text \<open>
  C24: Duplicates and stale packets are recognised across wrap-around. If a node's messages,
  numbered \<open>0, 1, 2, \<dots>\<close> by their sender, arrive in any order and any number of times within
  a window of 128, the tracker answers, from the 8-bit sequences alone, exactly which
  arrivals are newer than everything before, repeats of the newest, or stale.
\<close>

theorem tracker_follows_true_order:
  assumes n: "unat n < kMaxNodes" and w: "in_window b bs"
    and r: "run tr_step SequenceTracker
      (history @ Reset n # map (\<lambda>c. Track n (of_nat c)) (b # bs)) = Some (xs, t)"
  shows "drop (length history + 1) xs = map Some (First # true_order b bs)"
proof -
  let ?m = "(snd (spec_run tracker_spec (\<lambda>_. None) history))(n := None)"
  have "xs = fst (spec_run tracker_spec (\<lambda>_. None)
      (history @ Reset n # map (\<lambda>c. Track n (of_nat c)) (b # bs)))"
    using tracker.run_refines [OF tr_inv_SequenceTracker r] by (simp add: tr_map_SequenceTracker)
  also have "\<dots> = fst (spec_run tracker_spec (\<lambda>_. None) history) @ None # Some First #
      fst (spec_run tracker_spec (?m(n \<mapsto> of_nat b)) (map (\<lambda>c. Track n (of_nat c)) bs))"
    using n by (simp add: spec_run_append split_beta Let_def classify_def)
  also have "fst (spec_run tracker_spec (?m(n \<mapsto> of_nat b)) (map (\<lambda>c. Track n (of_nat c)) bs))
      = map Some (true_order b bs)"
    using n w by (intro spec_run_true_order) simp_all
  finally show ?thesis by simp
qed

lemma tracker_follows_true_order_witness:
  "\<exists>xs t. run tr_step SequenceTracker
      ([Track 1 9] @ Reset 1 # map (\<lambda>c. Track 1 (of_nat c)) (254 # [255, 257, 256, 257])) = Some (xs, t) \<and>
    drop (length [Track 1 9] + 1) xs = map Some [First, Newer, Newer, Stale, Duplicate]"
proof -
  obtain xs t where r: "run tr_step SequenceTracker ([Track 1 9] @ Reset 1 #
      map (\<lambda>c. Track 1 (of_nat c)) (254 # [255, 257, 256, 257])) = Some (xs, t)"
    using run_tracker by blast
  have "drop (length [Track 1 9] + 1) xs = map Some (First # true_order 254 [255, 257, 256, 257])"
    by (rule tracker_follows_true_order [OF _ _ r]) simp_all
  with r show ?thesis by (simp del: run.simps)
qed

text \<open>
  Nodes do not interfere. The classification of a message depends only on the earlier
  calls for its own node and on \<open>reset_all\<close>, whatever the traffic of the other nodes.
\<close>

theorem tracker_nodes_independent:
  assumes n: "unat n < kMaxNodes" and r: "run tr_step SequenceTracker cs = Some (xs, t)"
    and r': "run tr_step SequenceTracker
      (filter (\<lambda>c. tracker_target c \<in> {None, Some n}) cs) = Some (ys, t')"
  shows "map_option fst (tr_observe t n sq) = map_option fst (tr_observe t' n sq)"
proof -
  have "filter (\<lambda>c. tracker_target c \<in> {None, Some n}) cs
      = filter (\<lambda>c. case tracker_target c of None \<Rightarrow> True | Some k \<Rightarrow> unat k = unat n) cs"
    by (rule filter_cong) (auto split: option.splits)
  with r' have f: "run tr_step SequenceTracker (filter (\<lambda>c. case tracker_target c of None \<Rightarrow> True
      | Some k \<Rightarrow> unat k = unat n) cs) = Some (ys, t')" by simp
  have "tr_inv t" "tr_inv t'" using r r' tracker.run_inv [OF tr_inv_SequenceTracker] by blast+
  then obtain x u x' u' where st: "tr_step t (Track n sq) = Some (x, u)"
    "tr_step t' (Track n sq) = Some (x', u')" using tr_step_defined by blast
  from n have "x = x'" by (intro tracker_table.answer_local [OF r f _ _ refl st]) simp_all
  with st show ?thesis by (auto split: Option.bind_splits)
qed

lemma tracker_nodes_independent_witness:
  "\<exists>xs t ys t'. run tr_step SequenceTracker [Track 1 3, Track 2 9, Reset 2] = Some (xs, t) \<and>
    run tr_step SequenceTracker (filter (\<lambda>c. tracker_target c \<in> {None, Some 1})
      [Track 1 3, Track 2 9, Reset 2]) = Some (ys, t') \<and>
    map_option fst (tr_observe t 1 200) = map_option fst (tr_observe t' 1 200)"
proof -
  obtain xs t ys t' where r: "run tr_step SequenceTracker [Track 1 3, Track 2 9, Reset 2] = Some (xs, t)"
    "run tr_step SequenceTracker (filter (\<lambda>c. tracker_target c \<in> {None, Some 1})
      [Track 1 3, Track 2 9, Reset 2]) = Some (ys, t')" using run_tracker by meson
  have "map_option fst (tr_observe t 1 200) = map_option fst (tr_observe t' 1 200)"
    by (rule tracker_nodes_independent [OF _ r]) simp
  with r show ?thesis by blast
qed

end
