(* ===== verification/Transport.thy ===== *)
theory Transport
  imports Wire_Format
begin

text \<open>
  The transport boundary (\<open>include/picomesh/transport.h\<close>) as an interface, what its users do
  with it (encode and send a frame, receive into a frame-sized buffer and decode), and the two
  controller-side transports of the Pico port (\<open>ports/pico-sdk/picomesh_pico_transport.cpp\<close>).

  The drivers are outside the repository: the SDK functions are a parameter that acts on a
  world \<open>'w\<close>, and what the code needs of them is a named hypothesis.
\<close>

section \<open>The interface\<close>

type_synonym 'w sender = "'w \<Rightarrow> byte_ptr \<Rightarrow> nat \<Rightarrow> (bool \<times> 'w) option"
type_synonym 'w receiver = "'w \<Rightarrow> byte_ptr \<Rightarrow> nat \<Rightarrow> (nat \<times> byte_ptr \<times> 'w) option"

text \<open>
  What \<open>transport.h\<close> asks of an implementation: null pointers are refused, sending reads
  only the given bytes, and receiving writes at most the capacity and returns how much of
  it is meaningful.
\<close>

locale transport =
  fixes send :: "'w sender"
    and receive :: "'w receiver"
  assumes send_null: "send w None n = Some (False, w)"
    and send_defined: "n \<le> length bs \<Longrightarrow> \<exists>ok w'. send w (Some bs) n = Some (ok, w')"
    and receive_null: "receive w None n = Some (0, None, w)"
    and receive_bounded: "n \<le> length bs \<Longrightarrow> \<exists>m bs' w'. receive w (Some bs) n = Some (m, Some bs', w') \<and>
      m \<le> n \<and> length bs' = length bs \<and> drop n bs' = drop n bs"

text \<open>The users: \<open>transport.send(encoded.bytes.data(), encoded.length)\<close> and the receiving idiom.\<close>

definition send_frame :: "'w sender \<Rightarrow> 'w \<Rightarrow> frame \<Rightarrow> (bool \<times> 'w) option" where
  "send_frame send w f = do {
     encoded \<leftarrow> encode_frame f;
     send w (Some (ef_bytes encoded)) (ef_length encoded)
   }"

definition receive_frame :: "'w receiver \<Rightarrow> 'w \<Rightarrow> (decode_result \<times> nat \<times> 'w) option" where
  "receive_frame receive w = do {
     (len, bytes, w) \<leftarrow> receive w (Some (replicate kMaxEncodedFrameSize 0)) kMaxEncodedFrameSize;
     decoded \<leftarrow> decode_frame bytes len;
     Some (decoded, len, w)
   }"

context transport
begin

lemma send_frame_defined:
  assumes "frame_wf f"
  shows "\<exists>ok w'. send_frame send w f = Some (ok, w')"
proof -
  obtain enc where enc: "encode_frame f = Some enc" using encode_frame_spec [OF assms] by blast
  have "ef_length enc \<le> length (ef_bytes enc)"
    using encode_frame_take [OF assms enc] length_wire_image [OF assms] wire_len_le [of f] by linarith
  then show ?thesis using send_defined [of _ "ef_bytes enc" w] enc by (auto simp: send_frame_def)
qed

lemma receive_frame_defined: "\<exists>r n w'. receive_frame receive w = Some (r, n, w') \<and> n \<le> 40"
proof -
  obtain m bs' w' where "receive w (Some (replicate 40 0)) 40 = Some (m, Some bs', w')"
    "m \<le> 40" "length bs' = 40"
    using receive_bounded [of 40 "replicate 40 0" w] by auto
  then show ?thesis by (simp add: receive_frame_def decode_frame_spec)
qed

lemma receive_frame_wf:
  assumes "receive_frame receive w = Some (r, n, w')"
  shows "frame_wf (dr_frame r)"
proof -
  obtain m bs' w1 where "receive w (Some (replicate 40 0)) 40 = Some (m, Some bs', w1)"
    "m \<le> 40" "length bs' = 40"
    using receive_bounded [of 40 "replicate 40 0" w] by auto
  then have "r = decode_outcome (decode_spec (take m bs'))"
    using assms by (auto simp: receive_frame_def decode_frame_spec)
  moreover have "frame_wf (dr_frame (decode_outcome (decode_spec bs)))" for bs
  proof (cases "decode_spec bs")
    case (Inl e)
    then show ?thesis by (simp add: decode_failed_def)
  next
    case (Inr f)
    then have "canonical f" by (simp add: decode_spec_iff)
    with Inr show ?thesis by (simp add: canonical_def)
  qed
  ultimately show ?thesis by simp
qed

end

text \<open>Bytes handed to a driver by pointer and length.\<close>

definition pass_bytes :: "u8 list \<Rightarrow> nat \<Rightarrow> u8 list option" where
  "pass_bytes bs n = (if n \<le> length bs then Some (take n bs) else None)"

text \<open>A receiver that cuts a padded read to the frame: \<open>frame_length != 0 ? frame_length : count\<close>.\<close>

definition trimmed_length :: "byte_ptr \<Rightarrow> nat \<Rightarrow> nat option" where
  "trimmed_length destination n = do {
     frame_length \<leftarrow> frame_length_from_prefix destination n;
     Some (if frame_length \<noteq> 0 then frame_length else n)
   }"

lemma trimmed_length_spec:
  "n \<le> length bs \<Longrightarrow> \<exists>m. trimmed_length (Some bs) n = Some m \<and> m \<le> n \<and>
     m = (if prefix_spec (take n bs) \<noteq> 0 then prefix_spec (take n bs) else n)"
  using le_trans [OF prefix_spec_bounds(1), of "take n bs" n]
  by (auto simp: trimmed_length_def frame_length_from_prefix_spec)

lemma trimmed_frame:
  assumes "frame_wf f" and "take n bs = wire_image f @ pad" and "n \<le> length bs"
  shows "trimmed_length (Some bs) n = Some (length (wire_image f)) \<and>
    decode_frame (Some bs) (length (wire_image f)) = Some \<lparr>dr_frame = canon f, dr_error = No_error\<rparr>"
proof -
  have p: "prefix_spec (take n bs) = length (wire_image f)"
    using codec.frame_len_enc [OF assms(1), of pad] assms(2) by simp
  have "take (length (wire_image f)) (take n bs) = wire_image f" using assms(2) by simp
  moreover have le: "length (wire_image f) \<le> n"
    using arg_cong [OF assms(2), of length] assms(3) by simp
  ultimately have "take (length (wire_image f)) bs = wire_image f" by (simp add: min_def)
  with le assms(1,3) p trimmed_length_spec [OF assms(3)] show ?thesis
    by (simp add: decode_frame_spec codec.dec_enc)
qed

section \<open>\<open>I2cControllerTransport\<close>\<close>

text \<open>
  \<open>i2c_write_blocking\<close> and \<open>i2c_read_blocking\<close> on an instance and address: the return value,
  for a read the bytes it stored, and the new world.
\<close>

record ('i, 'w) i2c_sdk =
  i2c_write_blocking :: "'i \<Rightarrow> u8 \<Rightarrow> u8 list \<Rightarrow> 'w \<Rightarrow> int \<times> 'w"
  i2c_read_blocking :: "'i \<Rightarrow> u8 \<Rightarrow> nat \<Rightarrow> 'w \<Rightarrow> int \<times> u8 list \<times> 'w"

text \<open>The SDK's documentation: the number of bytes read, at most the given length, or an error.\<close>

definition documented_i2c :: "('i, 'w) i2c_sdk \<Rightarrow> bool" where
  "documented_i2c sdk \<longleftrightarrow> (\<forall>i a n w r bs w'. i2c_read_blocking sdk i a n w = (r, bs, w') \<longrightarrow>
     length bs \<le> n \<and> r \<le> int n \<and> (0 \<le> r \<longrightarrow> length bs = nat r))"

record 'i i2c_controller =
  ic_instance :: "'i option"
  ic_address :: u8

definition I2cControllerTransport :: "'i option \<Rightarrow> u8 \<Rightarrow> 'i i2c_controller" where
  "I2cControllerTransport inst address = \<lparr>ic_instance = inst, ic_address = address\<rparr>"

definition set_address :: "u8 \<Rightarrow> 'i i2c_controller \<Rightarrow> 'i i2c_controller" where
  "set_address address c = c\<lparr>ic_address := address\<rparr>"

definition i2c_send :: "('i, 'w) i2c_sdk \<Rightarrow> 'i i2c_controller \<Rightarrow> 'w sender" where
  "i2c_send sdk c w data len = (case (ic_instance c, data) of
     (Some i, Some bs) \<Rightarrow>
       if len = 0 then Some (False, w)
       else do {
         out \<leftarrow> pass_bytes bs len;
         let (written, w) = i2c_write_blocking sdk i (ic_address c) out w;
         Some (written = sint (of_nat len :: u32), w)
       }
   | _ \<Rightarrow> Some (False, w))"

definition i2c_receive :: "('i, 'w) i2c_sdk \<Rightarrow> 'i i2c_controller \<Rightarrow> 'w receiver" where
  "i2c_receive sdk c w destination capacity = (case (ic_instance c, destination) of
     (Some i, Some dst) \<Rightarrow>
       if capacity = 0 then Some (0, destination, w)
       else do {
         let (got, bs, w) = i2c_read_blocking sdk i (ic_address c) capacity w;
         dst \<leftarrow> copy_n bs 0 (length bs) dst 0;
         if got \<le> 0 then Some (0, Some dst, w)
         else do {
           n \<leftarrow> trimmed_length (Some dst) (nat got);
           Some (n, Some dst, w)
         }
       }
   | _ \<Rightarrow> Some (0, destination, w))"

lemma i2c_transport:
  assumes "documented_i2c sdk"
  shows "transport (i2c_send sdk c) (i2c_receive sdk c)"
proof
  show "i2c_send sdk c w None n = Some (False, w)" for w n
    by (simp add: i2c_send_def split: option.splits)
  show "i2c_receive sdk c w None n = Some (0, None, w)" for w n
    by (simp add: i2c_receive_def split: option.splits)
  show "\<exists>ok w'. i2c_send sdk c w (Some bs) n = Some (ok, w')" if "n \<le> length bs" for w n bs
    using that by (auto simp: i2c_send_def pass_bytes_def split_beta split: option.splits)
  show "\<exists>m bs' w'. i2c_receive sdk c w (Some bs) n = Some (m, Some bs', w') \<and>
      m \<le> n \<and> length bs' = length bs \<and> drop n bs' = drop n bs" if n: "n \<le> length bs" for w n bs
  proof (cases "ic_instance c = None \<or> n = 0")
    case True
    then show ?thesis by (auto simp: i2c_receive_def split: option.splits)
  next
    case False
    then obtain i where i: "ic_instance c = Some i" by auto
    obtain got out w' where r: "i2c_read_blocking sdk i (ic_address c) n w = (got, out, w')"
      by (metis prod.exhaust)
    then have doc: "length out \<le> n" "got \<le> int n" "0 \<le> got \<longrightarrow> length out = nat got"
      using assms unfolding documented_i2c_def by blast+
    let ?dst = "out @ drop (length out) bs"
    have "copy_n out 0 (length out) bs 0 = Some ?dst" using doc n by (simp add: copy_n_in)
    moreover have "length ?dst = length bs" "drop n ?dst = drop n bs" using doc n by simp_all
    moreover obtain m where "trimmed_length (Some ?dst) (nat got) = Some m" "m \<le> nat got" if "0 < got"
      using trimmed_length_spec [of "nat got" ?dst] doc n by force
    ultimately show ?thesis using False i r doc by (auto simp: i2c_receive_def)
  qed
qed

section \<open>\<open>UartTransport\<close>\<close>

record ('u, 'w) uart_sdk =
  uart_write_blocking :: "'u \<Rightarrow> u8 list \<Rightarrow> 'w \<Rightarrow> 'w"
  uart_is_readable :: "'u \<Rightarrow> 'w \<Rightarrow> bool \<times> 'w"
  uart_getc :: "'u \<Rightarrow> 'w \<Rightarrow> u8 \<times> 'w"

definition uart_send :: "('u, 'w) uart_sdk \<Rightarrow> 'u option \<Rightarrow> 'w sender" where
  "uart_send sdk inst w data len = (case (inst, data) of
     (Some u, Some bs) \<Rightarrow>
       if len = 0 then Some (False, w)
       else do {
         out \<leftarrow> pass_bytes bs len;
         Some (True, uart_write_blocking sdk u out w)
       }
   | _ \<Rightarrow> Some (False, w))"

text \<open>\<open>while (count < capacity && uart_is_readable(...))\<close>, with \<open>capacity - count\<close> as the fourth argument.\<close>

fun uart_loop ::
  "('u, 'w) uart_sdk \<Rightarrow> 'u \<Rightarrow> nat \<Rightarrow> nat \<Rightarrow> u8 list \<Rightarrow> 'w \<Rightarrow> (nat \<times> u8 list \<times> 'w) option" where
  "uart_loop sdk u n 0 dst w = Some (n, dst, w)"
| "uart_loop sdk u n (Suc k) dst w =
     (let (readable, w) = uart_is_readable sdk u w in
      if readable then do {
        let (b, w) = uart_getc sdk u w;
        dst \<leftarrow> wr dst n b;
        uart_loop sdk u (Suc n) k dst w
      }
      else Some (n, dst, w))"

definition uart_receive :: "('u, 'w) uart_sdk \<Rightarrow> 'u option \<Rightarrow> 'w receiver" where
  "uart_receive sdk inst w destination capacity = (case (inst, destination) of
     (Some u, Some dst) \<Rightarrow>
       if capacity = 0 then Some (0, destination, w)
       else do {
         (n, dst, w) \<leftarrow> uart_loop sdk u 0 capacity dst w;
         Some (n, Some dst, w)
       }
   | _ \<Rightarrow> Some (0, destination, w))"

lemma uart_loop_ok:
  "n + k \<le> length dst \<Longrightarrow> \<exists>m dst' w'. uart_loop sdk u n k dst w = Some (m, dst', w') \<and>
     n \<le> m \<and> m \<le> n + k \<and> length dst' = length dst \<and> drop (n + k) dst' = drop (n + k) dst \<and>
     take n dst' = take n dst"
proof (induction k arbitrary: n dst w)
  case 0
  then show ?case by simp
next
  case (Suc k)
  obtain r w1 where r: "uart_is_readable sdk u w = (r, w1)" by (metis prod.exhaust)
  obtain b w2 where b: "uart_getc sdk u w1 = (b, w2)" by (metis prod.exhaust)
  show ?case
  proof (cases r)
    case False
    with r show ?thesis by simp
  next
    case True
    have "Suc n + k \<le> length (dst[n := b])" using Suc.prems by simp
    from Suc.IH [OF this, of w2] obtain m dst' w' where
      "uart_loop sdk u (Suc n) k (dst[n := b]) w2 = Some (m, dst', w')" "Suc n \<le> m" "m \<le> Suc n + k"
      "length dst' = length dst" "drop (Suc n + k) dst' = drop (Suc n + k) (dst[n := b])"
      "take (Suc n) dst' = take (Suc n) (dst[n := b])" by auto
    moreover from this(6) have "take n dst' = take n dst"
      by (metis le_add2 min.absorb1 plus_1_eq_Suc take_take take_update_cancel order_refl)
    ultimately show ?thesis using True r b Suc.prems by (simp add: ub_simps)
  qed
qed

interpretation uart: transport "uart_send sdk u" "uart_receive sdk u" for sdk u
proof
  show "uart_send sdk u w None n = Some (False, w)" for w n
    by (simp add: uart_send_def split: option.splits)
  show "uart_receive sdk u w None n = Some (0, None, w)" for w n
    by (simp add: uart_receive_def split: option.splits)
  show "\<exists>ok w'. uart_send sdk u w (Some bs) n = Some (ok, w')" if "n \<le> length bs" for w n bs
    using that by (auto simp: uart_send_def pass_bytes_def split: option.splits)
  show "\<exists>m bs' w'. uart_receive sdk u w (Some bs) n = Some (m, Some bs', w') \<and>
      m \<le> n \<and> length bs' = length bs \<and> drop n bs' = drop n bs" if n: "n \<le> length bs" for w n bs
  proof (cases u)
    case None
    then show ?thesis by (simp add: uart_receive_def)
  next
    case (Some i)
    with n uart_loop_ok [of 0 n bs sdk i w] show ?thesis by (auto simp: uart_receive_def)
  qed
qed

end
