(* ===== verification/Wire_Transport.thy ===== *)
theory Wire_Transport
  imports Transport
begin

text \<open>
  The Arduino transport (\<open>src/arduino/wire_transport.h\<close> and \<open>.cpp\<close>): the controller side over
  \<open>TwoWire\<close> and the peripheral endpoint with its receive and request callbacks.

  \<open>TwoWire\<close> is part of the Arduino core, outside the repository: its methods are a parameter
  (\<open>two_wire\<close>), and \<open>fifo_wire\<close> states what its documentation says of the receive buffer.
\<close>

record 'w two_wire =
  tw_beginTransmission :: "u8 \<Rightarrow> 'w \<Rightarrow> 'w"
  tw_write :: "u8 list \<Rightarrow> 'w \<Rightarrow> nat \<times> 'w"
  tw_endTransmission :: "'w \<Rightarrow> u8 \<times> 'w"
  tw_requestFrom :: "u8 \<Rightarrow> u8 \<Rightarrow> 'w \<Rightarrow> nat \<times> 'w"
  tw_available :: "'w \<Rightarrow> int"
  tw_read :: "'w \<Rightarrow> int \<times> 'w"

text \<open>
  \<open>available()\<close> is the number of bytes that can be read, \<open>read()\<close> takes the next one, and
  \<open>requestFrom()\<close> returns how many bytes the peripheral sent, at most as many as requested.
\<close>

definition fifo_wire :: "'w two_wire \<Rightarrow> ('w \<Rightarrow> u8 list) \<Rightarrow> bool" where
  "fifo_wire tw buf \<longleftrightarrow> (\<forall>w. tw_available tw w = int (length (buf w))) \<and>
     (\<forall>w b r. buf w = b # r \<longrightarrow> fst (tw_read tw w) = int (unat b) \<and> buf (snd (tw_read tw w)) = r) \<and>
     (\<forall>a n w m w'. tw_requestFrom tw a n w = (m, w') \<longrightarrow> length (buf w') = m \<and> m \<le> unat n)"

section \<open>Loops over the receive buffer\<close>

text \<open>\<open>static_cast<std::uint8_t>(wire_->read())\<close>\<close>

definition wire_read_byte :: "'w two_wire \<Rightarrow> 'w \<Rightarrow> u8 \<times> 'w" where
  "wire_read_byte tw w = apfst of_int (tw_read tw w)"

text \<open>\<open>while (wire_->available()) (void)wire_->read();\<close> may run forever on a broken driver.\<close>

partial_function (option) wire_drain :: "'w two_wire \<Rightarrow> 'w \<Rightarrow> 'w option" where
  "wire_drain tw w = (if tw_available tw w \<noteq> 0 then wire_drain tw (snd (tw_read tw w)) else Some w)"

text \<open>
  The bounded loops: at most \<open>k\<close> more bytes are read into the array, from index \<open>n\<close> on, as far
  as the array's part up to \<open>limit\<close> goes; bytes beyond it are read and dropped.
\<close>

fun wire_fill ::
  "'w two_wire \<Rightarrow> nat \<Rightarrow> nat \<Rightarrow> nat \<Rightarrow> u8 list \<Rightarrow> 'w \<Rightarrow> (nat \<times> u8 list \<times> 'w) option" where
  "wire_fill tw limit n 0 dst w = Some (n, dst, w)"
| "wire_fill tw limit n (Suc k) dst w =
     (if tw_available tw w \<noteq> 0 then do {
        let (b, w) = wire_read_byte tw w;
        if n < limit then do {
          dst \<leftarrow> wr dst n b;
          wire_fill tw limit (Suc n) k dst w
        }
        else wire_fill tw limit n k dst w
      }
      else Some (n, dst, w))"

lemma wire_fill_fifo:
  assumes tw: "fifo_wire tw buf"
  shows "limit \<le> length dst \<Longrightarrow> n \<le> limit \<Longrightarrow>
    \<exists>w'. wire_fill tw limit n k dst w =
      Some (n + length (take (limit - n) (take k (buf w))),
        take n dst @ take (limit - n) (take k (buf w)) @
          drop (n + length (take (limit - n) (take k (buf w)))) dst, w') \<and>
      buf w' = drop k (buf w)"
proof (induction k arbitrary: n dst w)
  case 0
  then show ?case by simp
next
  case (Suc k)
  show ?case
  proof (cases "buf w")
    case Nil
    then have "tw_available tw w = 0" using tw by (simp add: fifo_wire_def)
    then show ?thesis using Nil by simp
  next
    case (Cons b r)
    let ?w = "snd (tw_read tw w)"
    have rd: "tw_available tw w \<noteq> 0" "wire_read_byte tw w = (b, ?w)" "buf ?w = r"
      using tw Cons by (auto simp: fifo_wire_def wire_read_byte_def apfst_def map_prod_def split_beta)
    show ?thesis
    proof (cases "n < limit")
      case True
      have "limit \<le> length (dst[n := b])" "Suc n \<le> limit" using Suc.prems True by simp_all
      from Suc.IH [OF this, of ?w] obtain w' where
        "wire_fill tw limit (Suc n) k (dst[n := b]) ?w =
          Some (Suc n + length (take (limit - Suc n) (take k r)),
            take (Suc n) (dst[n := b]) @ take (limit - Suc n) (take k r) @
              drop (Suc n + length (take (limit - Suc n) (take k r))) (dst[n := b]), w')"
        "buf w' = drop k r" unfolding rd(3) by blast
      moreover have "limit - n = Suc (limit - Suc n)" using True by simp
      ultimately show ?thesis
        using True Suc.prems rd Cons by (simp add: ub_simps list_update_take_drop)
    next
      case False
      with Suc.IH [OF Suc.prems, of ?w] rd Cons Suc.prems show ?thesis by simp
    qed
  qed
qed

lemma wire_drain_fifo: "fifo_wire tw buf \<Longrightarrow> \<exists>w'. wire_drain tw w = Some w' \<and> buf w' = []"
proof (induction "length (buf w)" arbitrary: w)
  case 0
  then have "tw_available tw w = 0" by (simp add: fifo_wire_def)
  then have "wire_drain tw w = Some w" by (simp add: wire_drain.simps)
  with 0 show ?case by simp
next
  case (Suc m)
  then obtain b r where "buf w = b # r" by (cases "buf w") simp_all
  then have "tw_available tw w \<noteq> 0" "buf (snd (tw_read tw w)) = r" "m = length r"
    using Suc.prems Suc.hyps(2) by (simp_all add: fifo_wire_def)
  moreover from this Suc.hyps(1) [of "snd (tw_read tw w)"] Suc.prems
  obtain w' where "wire_drain tw (snd (tw_read tw w)) = Some w'" "buf w' = []" by auto
  ultimately show ?case by (simp add: wire_drain.simps [of tw w])
qed

section \<open>\<open>WireControllerTransport\<close>\<close>

definition wire_send :: "'w two_wire \<Rightarrow> u8 \<Rightarrow> 'w sender" where
  "wire_send tw address w data len = (case data of
     None \<Rightarrow> Some (False, w)
   | Some bs \<Rightarrow>
       if len = 0 \<or> len > 255 then Some (False, w)
       else do {
         let w = tw_beginTransmission tw address w;
         out \<leftarrow> pass_bytes bs len;
         let (written, w) = tw_write tw out w;
         if written = len
         then let (status, w) = tw_endTransmission tw w in Some (status = 0, w)
         else Some (False, w)
       })"

definition wire_receive :: "'w two_wire \<Rightarrow> u8 \<Rightarrow> 'w receiver" where
  "wire_receive tw address w destination capacity = (case destination of
     None \<Rightarrow> Some (0, None, w)
   | Some dst \<Rightarrow>
       if capacity = 0 then Some (0, destination, w)
       else do {
         let requested = of_nat (min capacity kMaxEncodedFrameSize);
         let (available, w) = tw_requestFrom tw address requested w;
         (n, dst, w) \<leftarrow> wire_fill tw capacity 0 (min capacity available) dst w;
         w \<leftarrow> wire_drain tw w;
         len \<leftarrow> trimmed_length (Some dst) n;
         Some (len, Some dst, w)
       })"

text \<open>Sending a frame hands its encoding to the driver.\<close>

lemma wire_send_frame:
  assumes "frame_wf f"
  shows "send_frame (wire_send tw a) w f = Some
    (let (written, w) = tw_write tw (encoded_bytes f) (tw_beginTransmission tw a w)
     in if written = length (encoded_bytes f) then apfst (\<lambda>status. status = 0) (tw_endTransmission tw w)
        else (False, w))"
proof -
  obtain enc where enc: "encode_frame f = Some enc" using encode_frame_spec [OF assms] by blast
  have "take (ef_length enc) (ef_bytes enc) = encoded_bytes f" by (simp add: encoded_bytes_def enc)
  moreover have "length (encoded_bytes f) = 8 + wire_len f" using assms by (simp add: encoded_bytes_image shape)
  moreover have "wire_len f \<le> 247" "ef_length enc = 8 + wire_len f" "ef_length enc \<le> length (ef_bytes enc)"
    using encode_frame_take [OF assms enc] length_wire_image [OF assms] wire_len_le [of f] by linarith+
  ultimately show ?thesis
    using enc by (simp add: send_frame_def wire_send_def pass_bytes_def split_beta Let_def apfst_def map_prod_def)
qed

text \<open>The bytes that a request leaves in the receive buffer end up in the destination.\<close>

lemma wire_receive_fifo:
  assumes tw: "fifo_wire tw buf" and req: "tw_requestFrom tw a (of_nat (min n 40)) w = (m, w1)"
    and n: "0 < n" "n \<le> length bs"
  shows "\<exists>w' len. wire_receive tw a w (Some bs) n = Some (len, Some (buf w1 @ drop m bs), w') \<and>
    buf w' = [] \<and> m \<le> n \<and> length (buf w1) = m \<and> trimmed_length (Some (buf w1 @ drop m bs)) m = Some len"
proof -
  have m: "length (buf w1) = m" "m \<le> unat (of_nat (min n 40) :: u8)"
    using tw req unfolding fifo_wire_def by blast+
  have "unat (of_nat (min n 40) :: u8) = min n 40" by (rule unat_of_nat_u8) simp
  then have mn: "m \<le> n" using m(2) by simp
  from wire_fill_fifo [OF tw n(2), of 0 "min n m" w1] obtain w2 where
    w2: "wire_fill tw n 0 (min n m) bs w1 = Some (m, buf w1 @ drop m bs, w2)"
    using m(1) mn by (auto simp: min_absorb2)
  obtain w3 where w3: "wire_drain tw w2 = Some w3" "buf w3 = []"
    using wire_drain_fifo [OF tw] by blast
  obtain len where "trimmed_length (Some (buf w1 @ drop m bs)) m = Some len"
    using trimmed_length_spec [of m "buf w1 @ drop m bs"] m(1) by auto
  with w2 w3 req n m(1) mn show ?thesis by (simp add: wire_receive_def)
qed

lemma wire_transport:
  assumes "fifo_wire tw buf"
  shows "transport (wire_send tw a) (wire_receive tw a)"
proof
  show "wire_send tw a w None n = Some (False, w)" for w n by (simp add: wire_send_def)
  show "wire_receive tw a w None n = Some (0, None, w)" for w n by (simp add: wire_receive_def)
  show "\<exists>ok w'. wire_send tw a w (Some bs) n = Some (ok, w')" if "n \<le> length bs" for w n bs
    using that by (auto simp: wire_send_def pass_bytes_def split_beta Let_def)
  show "\<exists>m bs' w'. wire_receive tw a w (Some bs) n = Some (m, Some bs', w') \<and>
      m \<le> n \<and> length bs' = length bs \<and> drop n bs' = drop n bs" if n: "n \<le> length bs" for w n bs
  proof (cases "n = 0")
    case True
    then show ?thesis by (simp add: wire_receive_def)
  next
    case False
    obtain m w1 where req: "tw_requestFrom tw a (of_nat (min n 40)) w = (m, w1)" by (metis prod.exhaust)
    obtain w' len where r: "wire_receive tw a w (Some bs) n = Some (len, Some (buf w1 @ drop m bs), w')"
      "m \<le> n" "length (buf w1) = m" "trimmed_length (Some (buf w1 @ drop m bs)) m = Some len"
      using wire_receive_fifo [OF assms req _ n] False by auto
    moreover have "len \<le> m" using trimmed_length_spec [of m "buf w1 @ drop m bs"] r by auto
    ultimately show ?thesis using n by auto
  qed
qed

text \<open>A padded reply is cut to its frame.\<close>

lemma wire_receive_frame_padded:
  assumes "fifo_wire tw buf" and "frame_wf f"
    and "tw_requestFrom tw a (of_nat kMaxEncodedFrameSize) w = (m, w1)" and "buf w1 = encoded_bytes f @ pad"
  shows "\<exists>w'. receive_frame (wire_receive tw a) w =
      Some (\<lparr>dr_frame = canon f, dr_error = No_error\<rparr>, length (encoded_bytes f), w') \<and> buf w' = []"
proof -
  obtain w' len where r: "wire_receive tw a w (Some (replicate 40 0)) 40 =
      Some (len, Some (buf w1 @ drop m (replicate 40 0)), w')" "buf w' = []" "m \<le> 40" "length (buf w1) = m"
    "trimmed_length (Some (buf w1 @ drop m (replicate 40 0))) m = Some len"
    using wire_receive_fifo [OF assms(1), of a 40 w m w1 "replicate 40 0"] assms(3) by auto
  have "trimmed_length (Some (buf w1 @ drop m (replicate 40 0))) m = Some (length (wire_image f)) \<and>
      decode_frame (Some (buf w1 @ drop m (replicate 40 0))) (length (wire_image f)) =
        Some \<lparr>dr_frame = canon f, dr_error = No_error\<rparr>"
    by (rule trimmed_frame [OF assms(2)]) (use r(4) assms(2,4) in \<open>simp_all add: encoded_bytes_image\<close>)
  with r show ?thesis by (auto simp: receive_frame_def encoded_bytes_image [OF assms(2)])
qed

text \<open>
  Reading the receive buffer is all that a receive does after its request: what \<open>read\<close> keeps
  is as the request left it. A frame that is accepted is the head of the buffer.
\<close>

lemma wire_fill_keeps:
  assumes "\<And>w. view (snd (tw_read tw w)) = view w"
  shows "wire_fill tw limit n k dst w = Some (m, dst', w') \<Longrightarrow> view w' = view w"
proof (induction k arbitrary: n dst w)
  case 0
  then show ?case by simp
next
  case (Suc k)
  from Suc.prems Suc.IH assms show ?case
    by (auto simp: wire_read_byte_def apfst_def map_prod_def split_beta Let_def
        split: if_splits Option.bind_splits)
qed

lemma wire_drain_keeps:
  assumes "fifo_wire tw buf" and "\<And>w. view (snd (tw_read tw w)) = view w"
  shows "wire_drain tw w = Some w' \<Longrightarrow> view w' = view w"
proof (induction "length (buf w)" arbitrary: w)
  case 0
  then have "tw_available tw w = 0" using assms(1) by (simp add: fifo_wire_def)
  then have "wire_drain tw w = Some w" by (simp add: wire_drain.simps [of _ w])
  with 0 show ?case by simp
next
  case (Suc m)
  obtain b r where rx: "buf w = b # r" using Suc.hyps(2) by (cases "buf w") simp_all
  then have "wire_drain tw w = wire_drain tw (snd (tw_read tw w))" "m = length (buf (snd (tw_read tw w)))"
    using Suc.hyps(2) assms(1) by (simp_all add: wire_drain.simps [of _ w] fifo_wire_def)
  with Suc.hyps(1) Suc.prems assms(2) show ?case by metis
qed

lemma wire_receive_frame_keeps:
  assumes "fifo_wire tw buf" and "\<And>w. view (snd (tw_read tw w)) = view w"
    and "receive_frame (wire_receive tw a) w = Some (r, n, w')"
  shows "view w' = view (snd (tw_requestFrom tw a 40 w))"
proof -
  obtain m w1 where req: "tw_requestFrom tw a 40 w = (m, w1)" by (metis prod.exhaust)
  then obtain k dst w2 where w2: "wire_fill tw 40 0 (min 40 m) (replicate 40 0) w1 = Some (k, dst, w2)"
    and w3: "wire_drain tw w2 = Some w'"
    using assms(3) by (auto simp: receive_frame_def wire_receive_def split: Option.bind_splits)
  from wire_fill_keeps [where view = view, OF assms(2) w2] wire_drain_keeps [where view = view, OF assms(1,2) w3] req show ?thesis by simp
qed

lemma wire_receive_frame_accepted:
  assumes "fifo_wire tw buf" and "tw_requestFrom tw a 40 w = (m, w1)"
    and "receive_frame (wire_receive tw a) w = Some (r, n, w')" and "decode_ok r"
  shows "\<exists>rest. buf w1 @ replicate (40 - m) 0 = wire_image (dr_frame r) @ rest \<and> canonical (dr_frame r)"
proof -
  let ?bytes = "buf w1 @ replicate (40 - m) 0"
  obtain w2 len where "wire_receive tw a w (Some (replicate 40 0)) 40 = Some (len, Some ?bytes, w2)" "m \<le> 40"
    "length (buf w1) = m" "trimmed_length (Some ?bytes) m = Some len"
    using wire_receive_fifo [OF assms(1), of a 40 w m w1 "replicate 40 0"] assms(2) by auto
  then have d: "decode_frame (Some ?bytes) len = Some r" "len \<le> length ?bytes"
    using assms(3) trimmed_length_spec [of m ?bytes] by (auto simp: receive_frame_def split: Option.bind_splits)
  then have "r = decode_outcome (decode_spec (take len ?bytes))" by (simp add: decode_frame_spec)
  then obtain f where f: "decode_spec (take len ?bytes) = Inr f" "dr_frame r = f"
    using assms(4) decode_ok_iff [OF decode_spec_not_No_error] by auto
  then have "take len ?bytes = wire_image f \<and> canonical f" by (simp add: decode_spec_iff)
  with f(2) show ?thesis by (metis append_take_drop_id)
qed

text \<open>A concrete driver: its state is the receive buffer, \<open>reply\<close> is what a peripheral sends.\<close>

definition list_driver :: "u8 list \<Rightarrow> u8 list two_wire" where
  "list_driver reply =
     \<lparr>tw_beginTransmission = (\<lambda>a w. w), tw_write = (\<lambda>bs w. (length bs, w)),
      tw_endTransmission = (\<lambda>w. (0, w)),
      tw_requestFrom = (\<lambda>a n w. (min (unat n) (length reply), take (unat n) reply)),
      tw_available = (\<lambda>w. int (length w)),
      tw_read = (\<lambda>w. case w of [] \<Rightarrow> (-1, []) | b # r \<Rightarrow> (int (unat b), r))\<rparr>"

lemma fifo_list_driver: "fifo_wire (list_driver reply) (\<lambda>w. w)"
  by (auto simp: fifo_wire_def list_driver_def)

end
