(* ===== verification/Transport_Properties.thy ===== *)
theory Transport_Properties
  imports Wire_Transport
begin

text \<open>
  The theorems about the controller-side transports: every one of them keeps to the caller's
  buffer, padded fixed-size reads give back the frame, and a UART delivers its bytes in order.
\<close>

section \<open>Concrete drivers for the examples\<close>

text \<open>An I2C bus on which every read returns the same bytes, cut to the requested length.\<close>

definition reply_i2c :: "u8 list \<Rightarrow> (unit, unit) i2c_sdk" where
  "reply_i2c reply =
     \<lparr>i2c_write_blocking = (\<lambda>i a bs w. (int (length bs), w)),
      i2c_read_blocking = (\<lambda>i a n w. (int (length (take n reply)), take n reply, w))\<rparr>"

lemma documented_reply_i2c: "documented_i2c (reply_i2c reply)"
  by (auto simp: documented_i2c_def reply_i2c_def)

text \<open>A UART whose state is the bytes it still has to deliver.\<close>

definition list_uart :: "(unit, u8 list) uart_sdk" where
  "list_uart =
     \<lparr>uart_write_blocking = (\<lambda>u bs w. w), uart_is_readable = (\<lambda>u w. (w \<noteq> [], w)),
      uart_getc = (\<lambda>u w. (hd w, tl w))\<rparr>"

text \<open>The documented behaviour of a UART with a receive FIFO \<open>buf\<close>.\<close>

definition fifo_uart :: "('u, 'w) uart_sdk \<Rightarrow> 'u \<Rightarrow> ('w \<Rightarrow> u8 list) \<Rightarrow> bool" where
  "fifo_uart sdk u buf \<longleftrightarrow>
     (\<forall>w. fst (uart_is_readable sdk u w) = (buf w \<noteq> []) \<and> buf (snd (uart_is_readable sdk u w)) = buf w) \<and>
     (\<forall>w b r. buf w = b # r \<longrightarrow> fst (uart_getc sdk u w) = b \<and> buf (snd (uart_getc sdk u w)) = r)"

lemma fifo_list_uart: "fifo_uart list_uart () (\<lambda>w. w)"
  by (simp add: fifo_uart_def list_uart_def)

section \<open>The contract of \<open>transport.h\<close>\<close>

text \<open>
  C27: Every transport keeps to the buffer it is given. With drivers that behave as
  documented, receiving a frame through the Pico I2C controller, the Pico UART or the Arduino
  controller and decoding it never leaves the 40-byte buffer and returns, with at most 40 bytes
  reported; sending a frame never reads outside its encoding. For the UART nothing is
  needed of the driver.
\<close>

theorem transports_keep_to_buffers:
  assumes "documented_i2c sdk" and "fifo_wire tw buf" and "frame_wf f"
  shows "(\<exists>r n w'. receive_frame (i2c_receive sdk c) w = Some (r, n, w') \<and> n \<le> kMaxEncodedFrameSize) \<and>
    (\<exists>r n w'. receive_frame (uart_receive usdk u) wu = Some (r, n, w') \<and> n \<le> kMaxEncodedFrameSize) \<and>
    (\<exists>r n w'. receive_frame (wire_receive tw a) ww = Some (r, n, w') \<and> n \<le> kMaxEncodedFrameSize) \<and>
    (\<exists>ok w'. send_frame (i2c_send sdk c) w f = Some (ok, w')) \<and>
    (\<exists>ok w'. send_frame (uart_send usdk u) wu f = Some (ok, w')) \<and>
    (\<exists>ok w'. send_frame (wire_send tw a) ww f = Some (ok, w'))"
  using transport.receive_frame_defined [OF i2c_transport [OF assms(1)], of c w]
    uart.receive_frame_defined [of usdk u wu]
    transport.receive_frame_defined [OF wire_transport [OF assms(2)], of a ww]
    transport.send_frame_defined [OF i2c_transport [OF assms(1)] assms(3), of c w]
    uart.send_frame_defined [OF assms(3), of usdk u wu]
    transport.send_frame_defined [OF wire_transport [OF assms(2)] assms(3), of a ww]
  by simp

theorem transports_keep_to_buffers_witness:
  "\<exists>r n w'. receive_frame (i2c_receive (reply_i2c (replicate 100 0xB7)) \<lparr>ic_instance = Some (), ic_address = 0x42\<rparr>) () =
     Some (r, n, w') \<and> n \<le> 40"
proof -
  have "frame_wf sample_command" by simp
  from transports_keep_to_buffers [OF documented_reply_i2c fifo_list_driver this, of "replicate 100 0xB7"
      "\<lparr>ic_instance = Some (), ic_address = 0x42\<rparr>" "()" list_uart None "[]" "[]" 0]
  show ?thesis by simp
qed

section \<open>Padded reads\<close>

text \<open>
  The Pico controller reads a padded frame. When the 40-byte read returns the encoding of a
  frame followed by arbitrary bytes, the transport reports exactly the frame's length and the
  strict decoder accepts it; when the read fails, it reports no byte and the decoder answers
  \<open>too_short\<close>.
\<close>

theorem i2c_reads_padded_frame:
  assumes "ic_instance c = Some i" and "frame_wf f"
    and "length (encoded_bytes f @ pad) = kMaxEncodedFrameSize"
    and "i2c_read_blocking sdk i (ic_address c) kMaxEncodedFrameSize w = (40, encoded_bytes f @ pad, w')"
    and "i2c_read_blocking sdk i (ic_address c) kMaxEncodedFrameSize v = (err, [], v')" and "err < 0"
  shows "receive_frame (i2c_receive sdk c) w =
      Some (\<lparr>dr_frame = canon f, dr_error = No_error\<rparr>, length (encoded_bytes f), w') \<and>
    receive_frame (i2c_receive sdk c) v = Some (decode_failed Too_short, 0, v')"
proof -
  let ?bs = "wire_image f @ pad"
  have bs: "length ?bs = 40" "take 40 ?bs = ?bs" using assms(2,3) by (simp_all add: encoded_bytes_image)
  have copy: "copy_n ?bs 0 40 (replicate 40 0) 0 = Some ?bs"
    using copy_n_in [of 0 40 ?bs 0 "replicate 40 (0 :: u8)"] bs by simp
  have "trimmed_length (Some ?bs) 40 = Some (length (wire_image f)) \<and>
      decode_frame (Some ?bs) (length (wire_image f)) = Some \<lparr>dr_frame = canon f, dr_error = No_error\<rparr>"
    by (rule trimmed_frame [OF assms(2)]) (use bs in simp_all)
  then have "receive_frame (i2c_receive sdk c) w =
      Some (\<lparr>dr_frame = canon f, dr_error = No_error\<rparr>, length (encoded_bytes f), w')"
    using assms(1,2,4) copy bs(1) by (simp add: receive_frame_def i2c_receive_def encoded_bytes_image del: length_append)
  moreover have "receive_frame (i2c_receive sdk c) v = Some (decode_failed Too_short, 0, v')"
    using assms(1,5,6) by (simp add: receive_frame_def i2c_receive_def decode_frame_def)
  ultimately show ?thesis by simp
qed

definition failing_i2c :: "u8 list \<Rightarrow> (unit, bool) i2c_sdk" where
  "failing_i2c reply =
     \<lparr>i2c_write_blocking = (\<lambda>i a bs w. (-1, w)),
      i2c_read_blocking = (\<lambda>i a n w. if w then (int n, take n reply, w) else (-1, [], w))\<rparr>"

theorem i2c_reads_padded_frame_witness:
  "receive_frame (i2c_receive (failing_i2c (encoded_bytes sample_command @ replicate 29 0xFF))
      \<lparr>ic_instance = Some (), ic_address = 0x42\<rparr>) True =
    Some (\<lparr>dr_frame = canon sample_command, dr_error = No_error\<rparr>, 11, True)"
proof -
  let ?pad = "replicate 29 0xFF :: u8 list" and ?c = "\<lparr>ic_instance = Some (), ic_address = 0x42\<rparr>"
  let ?sdk = "failing_i2c (encoded_bytes sample_command @ ?pad)"
  have l: "length (encoded_bytes sample_command) = 11" by code_simp
  then have len: "length (encoded_bytes sample_command @ ?pad) = kMaxEncodedFrameSize" by simp
  have "ic_instance ?c = Some ()" "frame_wf sample_command" by simp_all
  note i2c_reads_padded_frame [OF this len, of ?sdk True True False "-1" False]
  then show ?thesis using len by (simp add: failing_i2c_def l)
qed

text \<open>
  The Arduino controller reads a padded frame. When the driver's receive buffer holds the
  encoding of a frame followed by arbitrary bytes after the request, the transport reports
  exactly the frame's length, the strict decoder accepts it and the receive buffer is left
  empty.
\<close>

theorem wire_reads_padded_frame:
  assumes "fifo_wire tw buf" and "frame_wf f"
    and "tw_requestFrom tw a (of_nat kMaxEncodedFrameSize) w = (m, w1)" and "buf w1 = encoded_bytes f @ pad"
  shows "\<exists>w'. receive_frame (wire_receive tw a) w =
      Some (\<lparr>dr_frame = canon f, dr_error = No_error\<rparr>, length (encoded_bytes f), w') \<and> buf w' = []"
  using assms by (rule wire_receive_frame_padded)

theorem wire_reads_padded_frame_witness:
  "\<exists>w'. receive_frame (wire_receive (list_driver (encoded_bytes sample_command @ [0, 1, 2])) 0x42) [] =
      Some (\<lparr>dr_frame = canon sample_command, dr_error = No_error\<rparr>, 11, w')"
proof -
  let ?reply = "encoded_bytes sample_command @ [0, 1, 2]"
  have l: "length (encoded_bytes sample_command) = 11" by code_simp
  have "tw_requestFrom (list_driver ?reply) 0x42 (of_nat kMaxEncodedFrameSize) [] = (14, ?reply)"
    using l by (simp add: list_driver_def)
  from wire_reads_padded_frame [OF fifo_list_driver sample_command_wf this] l show ?thesis by auto
qed

section \<open>Streams\<close>

lemma uart_loop_fifo:
  assumes sdk: "fifo_uart sdk u buf"
  shows "n + k \<le> length dst \<Longrightarrow> \<exists>w'. uart_loop sdk u n k dst w =
      Some (n + min k (length (buf w)), take n dst @ take k (buf w) @ drop (n + min k (length (buf w))) dst, w') \<and>
    buf w' = drop k (buf w)"
proof (induction k arbitrary: n dst w)
  case 0
  then show ?case by simp
next
  case (Suc k)
  obtain ok w1 where ok: "uart_is_readable sdk u w = (ok, w1)" by (metis prod.exhaust)
  have w1: "ok = (buf w \<noteq> [])" "buf w1 = buf w" using sdk ok unfolding fifo_uart_def by (metis fst_conv snd_conv)+
  show ?case
  proof (cases "buf w")
    case Nil
    with ok w1 show ?thesis by auto
  next
    case (Cons b r)
    obtain b' w2 where b': "uart_getc sdk u w1 = (b', w2)" by (metis prod.exhaust)
    have w2: "b' = b" "buf w2 = r" using sdk b' w1(2) Cons unfolding fifo_uart_def by (metis fst_conv snd_conv)+
    have "Suc n + k \<le> length (dst[n := b])" using Suc.prems by simp
    from Suc.IH [OF this, of w2] ok w1 b' w2 Cons Suc.prems show ?thesis
      by (auto simp: ub_simps list_update_take_drop)
  qed
qed

text \<open>
  C28: The UART transport delivers the stream. With a FIFO that behaves as documented, a call
  stores the next bytes in order, as many as there are up to the capacity, reports their
  number and leaves the rest of the stream and of the buffer as they were.
\<close>

theorem uart_delivers_stream:
  assumes "fifo_uart sdk u buf" and "n \<le> length dst"
  shows "\<exists>w'. uart_receive sdk (Some u) w (Some dst) n =
      Some (min n (length (buf w)),
        Some (take n (buf w) @ drop (min n (length (buf w))) dst), w') \<and>
    buf w' = drop n (buf w)"
proof (cases "n = 0")
  case True
  then show ?thesis by (simp add: uart_receive_def)
next
  case False
  with uart_loop_fifo [OF assms(1), of 0 n dst w] assms(2) show ?thesis
    by (auto simp: uart_receive_def)
qed

theorem uart_delivers_stream_witness:
  "\<exists>w'. uart_receive list_uart (Some ()) [1, 2, 3] (Some [9, 9, 9, 9]) 2 = Some (2, Some [1, 2, 9, 9], w')"
  using uart_delivers_stream [OF fifo_list_uart, of 2 "[9, 9, 9, 9]" "[1, 2, 3]"]
  by (auto simp: numeral_2_eq_2)

section \<open>Loops over the drivers\<close>

text \<open>
  C29: The loops over a driver end. With a receive buffer that behaves as documented the draining
  loop \<open>while (wire_->available())\<close> returns, with the buffer empty; the filling loop returns
  after at most as many turns as bytes were asked for, having moved the first of them into the
  array up to its limit; and a whole \<open>receive\<close> into any buffer returns and leaves nothing behind
  in the driver that a later \<open>receive\<close> could take for its own.
\<close>

theorem wire_loops_terminate:
  assumes "fifo_wire tw buf" and "limit \<le> length dst" and "0 < capacity" and "capacity \<le> length bytes"
  shows "(\<exists>w'. wire_drain tw w = Some w' \<and> buf w' = []) \<and>
    (\<exists>dst' w'. wire_fill tw limit 0 k dst w = Some (length (take limit (take k (buf w))), dst', w') \<and>
       take (length (take limit (take k (buf w)))) dst' = take limit (take k (buf w)) \<and> buf w' = drop k (buf w)) \<and>
    (\<exists>n bytes' w'. wire_receive tw address w (Some bytes) capacity = Some (n, Some bytes', w') \<and> buf w' = [])"
proof (intro conjI)
  show "\<exists>w'. wire_drain tw w = Some w' \<and> buf w' = []" by (rule wire_drain_fifo [OF assms(1)])
  define got where "got = take limit (take k (buf w))"
  have "\<exists>w'. wire_fill tw limit 0 k dst w = Some (length got, got @ drop (length got) dst, w') \<and> buf w' = drop k (buf w)"
    using wire_fill_fifo [OF assms(1,2), of 0 k w] by (simp add: got_def)
  then show "\<exists>dst' w'. wire_fill tw limit 0 k dst w = Some (length (take limit (take k (buf w))), dst', w') \<and>
      take (length (take limit (take k (buf w)))) dst' = take limit (take k (buf w)) \<and> buf w' = drop k (buf w)"
    unfolding got_def [symmetric] by (metis append_eq_conv_conj)
  obtain m w1 where "tw_requestFrom tw address (of_nat (min capacity 40)) w = (m, w1)" by (metis prod.exhaust)
  from wire_receive_fifo [OF assms(1) this assms(3,4)]
  show "\<exists>n bytes' w'. wire_receive tw address w (Some bytes) capacity = Some (n, Some bytes', w') \<and> buf w' = []" by blast
qed

theorem wire_loops_terminate_witness:
  "\<exists>w'. wire_drain (list_driver []) [1, 2, 3] = Some w' \<and> w' = []"
proof -
  have "(2 :: nat) \<le> length [0, 0 :: u8]" "(0 :: nat) < 2" by simp_all
  from wire_loops_terminate [OF fifo_list_driver this(1) this(2) this(1), of "[]" "[1, 2, 3]"] show ?thesis by blast
qed

end
