(* ===== verification/Reliability.thy ===== *)
theory Reliability
  imports Wire_Format
begin

text \<open>
  Acknowledgements and the retry queue (\<open>include/picomesh/reliability.h\<close>,
  \<open>src/reliability.cpp\<close>): the slot array with its scanning loops, and the map from
  (node ID, sequence) to pending transmissions that it implements.
\<close>

section \<open>Acknowledgement frames\<close>

definition kFlagAckRequired :: u8 where [simp]: "kFlagAckRequired = 0x01"
definition kMaxPendingTransmissions :: nat where [simp]: "kMaxPendingTransmissions = 8"

text \<open>
  \<open>enum class AckStatus : std::uint8_t\<close>: as for \<open>message_type\<close>, every byte is a value and the
  constructor is the cast.
\<close>

datatype ack_status = AckStatus (ack_byte: u8)

definition ack_accepted :: ack_status where "ack_accepted = AckStatus 0"
definition ack_rejected :: ack_status where "ack_rejected = AckStatus 1"
definition ack_busy :: ack_status where "ack_busy = AckStatus 2"
definition ack_unsupported :: ack_status where "ack_unsupported = AckStatus 3"
definition ack_malformed :: ack_status where "ack_malformed = AckStatus 4"

lemmas ack_status_defs =
  ack_accepted_def ack_rejected_def ack_busy_def ack_unsupported_def ack_malformed_def

definition make_ack_frame :: "u8 \<Rightarrow> u8 \<Rightarrow> u8 \<Rightarrow> ack_status \<Rightarrow> frame option" where
  "make_ack_frame node_id response_sequence acknowledged_sequence status = do {
     let frame = Frame\<lparr>f_type := acknowledgement, f_node_id := node_id,
                       f_sequence := response_sequence, f_payload_length := 2\<rparr>;
     payload \<leftarrow> wr (f_payload frame) 0 acknowledged_sequence;
     payload \<leftarrow> wr payload 1 (ack_byte status);
     Some (frame\<lparr>f_payload := payload\<rparr>)
   }"

text \<open>
  The out-parameters are the result: \<open>Some None\<close> is \<open>return false\<close>, \<open>Some (Some (q, s))\<close> is
  \<open>return true\<close> with the acknowledged sequence and the status.
\<close>

definition parse_ack_frame :: "frame \<Rightarrow> (u8 \<times> ack_status) option option" where
  "parse_ack_frame frame =
     (if f_type frame \<noteq> acknowledgement \<or> f_payload_length frame \<noteq> 2 then Some None
      else do {
        raw_status \<leftarrow> rd (f_payload frame) 1;
        if raw_status > ack_byte ack_malformed then Some None
        else do {
          acknowledged_sequence \<leftarrow> rd (f_payload frame) 0;
          Some (Some (acknowledged_sequence, AckStatus raw_status))
        }
      })"

section \<open>The retry queue\<close>

text \<open>\<open>static_cast<std::int32_t>(now_ms - deadline_ms) >= 0\<close>\<close>

definition deadline_reached :: "u32 \<Rightarrow> u32 \<Rightarrow> bool" where
  "deadline_reached now_ms deadline_ms \<longleftrightarrow> 0 \<le> sint (now_ms - deadline_ms)"

record retry_policy =
  rp_timeout_ms :: u32
  rp_max_attempts :: u8

definition RetryPolicy :: retry_policy where
  "RetryPolicy = \<lparr>rp_timeout_ms = 250, rp_max_attempts = 3\<rparr>"

datatype queue_result = Queued | Full | Invalid
datatype tx_action = Tx_none | Tx_send | Tx_exhausted
datatype ack_resolution = Not_found | Resolved_accepted | Resolved_rejected

record tx_decision =
  td_action :: tx_action
  td_frame :: frame
  td_attempts :: u8

definition TxDecision :: tx_decision where
  "TxDecision = \<lparr>td_action = Tx_none, td_frame = Frame, td_attempts = 0\<rparr>"

record tx_slot =
  sl_frame :: frame
  sl_deadline_ms :: u32
  sl_attempts :: u8
  sl_active :: bool

definition Slot :: tx_slot where
  "Slot = \<lparr>sl_frame = Frame, sl_deadline_ms = 0, sl_attempts = 0, sl_active = False\<rparr>"

record reliable_queue =
  rq_slots :: "tx_slot list"
  rq_policy :: retry_policy

definition ReliableQueue :: "retry_policy \<Rightarrow> reliable_queue" where
  "ReliableQueue policy =
     \<lparr>rq_slots = replicate kMaxPendingTransmissions Slot,
      rq_policy = (if rp_max_attempts policy = 0 then policy\<lparr>rp_max_attempts := 1\<rparr> else policy)\<rparr>"

text \<open>The condition \<open>slot.active && slot.frame.node_id == ... && slot.frame.sequence == ...\<close>.\<close>

definition slot_matches :: "u8 \<Rightarrow> u8 \<Rightarrow> tx_slot \<Rightarrow> bool" where
  "slot_matches node_id sequence s \<longleftrightarrow>
     sl_active s \<and> f_node_id (sl_frame s) = node_id \<and> f_sequence (sl_frame s) = sequence"

definition enqueue :: "reliable_queue \<Rightarrow> frame \<Rightarrow> u32 \<Rightarrow> queue_result \<times> reliable_queue" where
  "enqueue q input now_ms =
     (if unat (f_payload_length input) > kMaxPayloadSize then (Invalid, q)
      else if list_ex (slot_matches (f_node_id input) (f_sequence input)) (rq_slots q)
      then (Invalid, q)
      else (case update_first (\<lambda>s. \<not> sl_active s)
          (\<lambda>s. s\<lparr>sl_frame := input\<lparr>f_flags := f_flags input OR kFlagAckRequired\<rparr>,
                 sl_deadline_ms := now_ms, sl_attempts := 0, sl_active := True\<rparr>) (rq_slots q) of
          Some (_, slots) \<Rightarrow> (Queued, q\<lparr>rq_slots := slots\<rparr>)
        | None \<Rightarrow> (Full, q)))"

text \<open>
  What \<open>next_due\<close> does with the first due slot: exhausted slots are released, the others
  count an attempt and get a new deadline.
\<close>

definition due_slot :: "u32 \<Rightarrow> tx_slot \<Rightarrow> bool" where
  "due_slot now_ms s \<longleftrightarrow> sl_active s \<and> deadline_reached now_ms (sl_deadline_ms s)"

definition due_update :: "retry_policy \<Rightarrow> u32 \<Rightarrow> tx_slot \<Rightarrow> tx_slot" where
  "due_update policy now_ms s =
     (if sl_attempts s \<ge> rp_max_attempts policy then s\<lparr>sl_active := False\<rparr>
      else s\<lparr>sl_attempts := sl_attempts s + 1, sl_deadline_ms := now_ms + rp_timeout_ms policy\<rparr>)"

definition due_decision :: "retry_policy \<Rightarrow> tx_slot \<Rightarrow> tx_decision" where
  "due_decision policy s =
     (if sl_attempts s \<ge> rp_max_attempts policy
      then \<lparr>td_action = Tx_exhausted, td_frame = sl_frame s, td_attempts = sl_attempts s\<rparr>
      else \<lparr>td_action = Tx_send, td_frame = sl_frame s, td_attempts = sl_attempts s + 1\<rparr>)"

definition next_due :: "reliable_queue \<Rightarrow> u32 \<Rightarrow> tx_decision \<times> reliable_queue" where
  "next_due q now_ms =
     (case update_first (due_slot now_ms) (due_update (rq_policy q) now_ms) (rq_slots q) of
        Some (s, slots) \<Rightarrow> (due_decision (rq_policy q) s, q\<lparr>rq_slots := slots\<rparr>)
      | None \<Rightarrow> (TxDecision, q))"

definition acknowledge ::
  "reliable_queue \<Rightarrow> u8 \<Rightarrow> u8 \<Rightarrow> ack_status \<Rightarrow> ack_resolution \<times> reliable_queue" where
  "acknowledge q node_id sequence status =
     (case update_first (slot_matches node_id sequence) (\<lambda>s. s\<lparr>sl_active := False\<rparr>) (rq_slots q) of
        Some (_, slots) \<Rightarrow>
          (if status = ack_accepted then Resolved_accepted else Resolved_rejected,
           q\<lparr>rq_slots := slots\<rparr>)
      | None \<Rightarrow> (Not_found, q))"

definition cancel :: "reliable_queue \<Rightarrow> u8 \<Rightarrow> u8 \<Rightarrow> bool \<times> reliable_queue" where
  "cancel q node_id sequence =
     (case update_first (slot_matches node_id sequence) (\<lambda>s. s\<lparr>sl_active := False\<rparr>) (rq_slots q) of
        Some (_, slots) \<Rightarrow> (True, q\<lparr>rq_slots := slots\<rparr>)
      | None \<Rightarrow> (False, q))"

fun pending_loop :: "tx_slot list \<Rightarrow> nat \<Rightarrow> nat" where
  "pending_loop [] n = n"
| "pending_loop (s # slots) n = pending_loop slots (if sl_active s then n + 1 else n)"

definition pending_count :: "reliable_queue \<Rightarrow> nat" where
  "pending_count q = pending_loop (rq_slots q) 0"

definition clear :: "reliable_queue \<Rightarrow> reliable_queue" where
  "clear q = q\<lparr>rq_slots := map (\<lambda>_. Slot) (rq_slots q)\<rparr>"

text \<open>The calls of the queue and their answers.\<close>

datatype queue_call =
    Enqueue frame u32 | Next_due u32 | Acknowledge u8 u8 ack_status | Cancel u8 u8 | Clear

datatype queue_answer =
    Enqueue_result queue_result | Decision tx_decision | Resolution ack_resolution
  | Cancel_result bool | Cleared

fun queue_op :: "reliable_queue \<Rightarrow> queue_call \<Rightarrow> queue_answer \<times> reliable_queue" where
  "queue_op q (Enqueue f now) = apfst Enqueue_result (enqueue q f now)"
| "queue_op q (Next_due now) = apfst Decision (next_due q now)"
| "queue_op q (Acknowledge n sq st) = apfst Resolution (acknowledge q n sq st)"
| "queue_op q (Cancel n sq) = apfst Cancel_result (cancel q n sq)"
| "queue_op q Clear = (Cleared, clear q)"

definition queue_step :: "reliable_queue \<Rightarrow> queue_call \<Rightarrow> (queue_answer \<times> reliable_queue) option" where
  "queue_step q c = Some (queue_op q c)"

end
