(* ===== verification/Retry_Queue.thy ===== *)
theory Retry_Queue
  imports Reliability "HOL-Library.Sublist"
begin

text \<open>
  What the retry queue of \<open>Reliability\<close> promises: the slot array is a partial map from
  (node ID, sequence) to pending transmissions, moved by the rules of \<open>queue_rel\<close>; from
  these rules follow the bound on transmissions, the spacing of retries and the progress of
  the scheduler.
\<close>

section \<open>The map of pending transmissions\<close>

type_synonym tx_key = "u8 \<times> u8"

definition frame_key :: "frame \<Rightarrow> tx_key" where
  "frame_key f = (f_node_id f, f_sequence f)"

abbreviation slot_key :: "tx_slot \<Rightarrow> tx_key" where
  "slot_key s \<equiv> frame_key (sl_frame s)"

definition active_keys :: "tx_slot list \<Rightarrow> tx_key list" where
  "active_keys xs = map slot_key (filter sl_active xs)"

definition lookup_slot :: "tx_slot list \<Rightarrow> tx_key \<Rightarrow> tx_slot option" where
  "lookup_slot xs k = find (\<lambda>s. sl_active s \<and> slot_key s = k) xs"

type_synonym pending_map = "tx_key \<Rightarrow> tx_slot option"

definition q_map :: "reliable_queue \<Rightarrow> pending_map" where
  "q_map q = lookup_slot (rq_slots q)"

definition slot_ok :: "retry_policy \<Rightarrow> tx_slot \<Rightarrow> bool" where
  "slot_ok p s \<longleftrightarrow> sl_active s \<longrightarrow> sl_attempts s \<le> rp_max_attempts p \<and>
     f_flags (sl_frame s) AND kFlagAckRequired \<noteq> 0 \<and>
     unat (f_payload_length (sl_frame s)) \<le> kMaxPayloadSize"

definition rq_inv :: "reliable_queue \<Rightarrow> bool" where
  "rq_inv q \<longleftrightarrow> length (rq_slots q) = kMaxPendingTransmissions \<and>
     distinct (active_keys (rq_slots q)) \<and> rp_max_attempts (rq_policy q) \<noteq> 0 \<and>
     (\<forall>s\<in>set (rq_slots q). slot_ok (rq_policy q) s)"

lemma active_keys_simps [simp]:
  "active_keys [] = []"
  "active_keys (s # xs) = (if sl_active s then slot_key s # active_keys xs else active_keys xs)"
  "active_keys (xs @ ys) = active_keys xs @ active_keys ys"
  by (simp_all add: active_keys_def)

lemma lookup_slot_simps [simp]:
  "lookup_slot [] k = None"
  "lookup_slot (s # xs) k = (if sl_active s \<and> slot_key s = k then Some s else lookup_slot xs k)"
  by (simp_all add: lookup_slot_def)

lemma lookup_slot_append:
  "lookup_slot (xs @ ys) k = (case lookup_slot xs k of None \<Rightarrow> lookup_slot ys k | Some s \<Rightarrow> Some s)"
  by (induction xs) simp_all

lemma lookup_slot_None_iff: "lookup_slot xs k = None \<longleftrightarrow> k \<notin> set (active_keys xs)"
  by (induction xs) auto

lemma lookup_slot_SomeD:
  "lookup_slot xs k = Some s \<Longrightarrow> s \<in> set xs \<and> sl_active s \<and> slot_key s = k"
  by (induction xs) (auto split: if_splits)

lemma active_keys_iff: "k \<in> set (active_keys xs) \<longleftrightarrow> (\<exists>s\<in>set xs. sl_active s \<and> slot_key s = k)"
  by (induction xs) auto

lemma active_keys_member: "s \<in> set xs \<Longrightarrow> sl_active s \<Longrightarrow> slot_key s \<in> set (active_keys xs)"
  by (simp add: active_keys_def)

lemma lookup_slot_member:
  "distinct (active_keys xs) \<Longrightarrow> s \<in> set xs \<Longrightarrow> sl_active s \<Longrightarrow> lookup_slot xs (slot_key s) = Some s"
  by (induction xs) (auto dest: active_keys_member split: if_splits)

lemma dom_lookup_slot: "dom (lookup_slot xs) = set (active_keys xs)"
  using lookup_slot_None_iff by (auto simp: dom_def)

text \<open>Replacing one slot, as every operation of the queue does.\<close>

lemma lookup_slot_release:
  assumes "distinct (active_keys (us @ y # vs))" and "sl_active y" and "\<not> sl_active z"
  shows "lookup_slot (us @ z # vs) = (lookup_slot (us @ y # vs))(slot_key y := None)"
proof
  fix k
  have "slot_key y \<notin> set (active_keys us)" "slot_key y \<notin> set (active_keys vs)"
    using assms by auto
  then have "lookup_slot us (slot_key y) = None" "lookup_slot vs (slot_key y) = None"
    by (simp_all add: lookup_slot_None_iff)
  with assms show "lookup_slot (us @ z # vs) k = ((lookup_slot (us @ y # vs))(slot_key y := None)) k"
    by (auto simp: lookup_slot_append split: option.splits)
qed

lemma lookup_slot_change:
  assumes "distinct (active_keys (us @ y # vs))" and "sl_active y" and "sl_active z"
    and "slot_key z = slot_key y"
  shows "lookup_slot (us @ z # vs) = (lookup_slot (us @ y # vs))(slot_key y \<mapsto> z)"
proof
  fix k
  have "slot_key y \<notin> set (active_keys us)" using assms by auto
  then have "lookup_slot us (slot_key y) = None" by (simp add: lookup_slot_None_iff)
  with assms show "lookup_slot (us @ z # vs) k = ((lookup_slot (us @ y # vs))(slot_key y \<mapsto> z)) k"
    by (auto simp: lookup_slot_append split: option.splits)
qed

lemma lookup_slot_fill:
  assumes "\<not> sl_active y" and "sl_active z" and "slot_key z \<notin> set (active_keys (us @ vs))"
  shows "lookup_slot (us @ z # vs) = (lookup_slot (us @ y # vs))(slot_key z \<mapsto> z)"
proof
  fix k
  have "lookup_slot us (slot_key z) = None" using assms by (simp add: lookup_slot_None_iff)
  with assms show "lookup_slot (us @ z # vs) k = ((lookup_slot (us @ y # vs))(slot_key z \<mapsto> z)) k"
    by (auto simp: lookup_slot_append split: option.splits)
qed

section \<open>Specification\<close>

definition due :: "u32 \<Rightarrow> tx_slot \<Rightarrow> bool" where
  "due now s \<longleftrightarrow> deadline_reached now (sl_deadline_ms s)"

text \<open>A new entry, and an entry after one more transmission.\<close>

definition new_entry :: "frame \<Rightarrow> u32 \<Rightarrow> tx_slot" where
  "new_entry f now = \<lparr>sl_frame = f\<lparr>f_flags := f_flags f OR kFlagAckRequired\<rparr>,
     sl_deadline_ms = now, sl_attempts = 0, sl_active = True\<rparr>"

definition resent :: "retry_policy \<Rightarrow> u32 \<Rightarrow> tx_slot \<Rightarrow> tx_slot" where
  "resent p now s =
     s\<lparr>sl_attempts := sl_attempts s + 1, sl_deadline_ms := now + rp_timeout_ms p\<rparr>"

text \<open>
  One call as a relation on maps. Only the choice among several due entries is left open.
\<close>

inductive queue_rel ::
  "retry_policy \<Rightarrow> pending_map \<Rightarrow> queue_call \<Rightarrow> queue_answer \<Rightarrow> pending_map \<Rightarrow> bool" for p where
  enqueue_invalid: "unat (f_payload_length f) > 32 \<or> m (frame_key f) \<noteq> None \<Longrightarrow>
     queue_rel p m (Enqueue f now) (Enqueue_result Invalid) m"
| enqueue_full: "unat (f_payload_length f) \<le> 32 \<Longrightarrow> m (frame_key f) = None \<Longrightarrow> card (dom m) = 8 \<Longrightarrow>
     queue_rel p m (Enqueue f now) (Enqueue_result Full) m"
| enqueue_queued: "unat (f_payload_length f) \<le> 32 \<Longrightarrow> m (frame_key f) = None \<Longrightarrow> card (dom m) < 8 \<Longrightarrow>
     queue_rel p m (Enqueue f now) (Enqueue_result Queued) (m(frame_key f \<mapsto> new_entry f now))"
| due_none: "\<forall>k s. m k = Some s \<longrightarrow> \<not> due now s \<Longrightarrow>
     queue_rel p m (Next_due now) (Decision TxDecision) m"
| due_send: "m k = Some s \<Longrightarrow> due now s \<Longrightarrow> sl_attempts s < rp_max_attempts p \<Longrightarrow>
     queue_rel p m (Next_due now)
       (Decision \<lparr>td_action = Tx_send, td_frame = sl_frame s, td_attempts = sl_attempts s + 1\<rparr>)
       (m(k \<mapsto> resent p now s))"
| due_exhausted: "m k = Some s \<Longrightarrow> due now s \<Longrightarrow> sl_attempts s = rp_max_attempts p \<Longrightarrow>
     queue_rel p m (Next_due now)
       (Decision \<lparr>td_action = Tx_exhausted, td_frame = sl_frame s, td_attempts = sl_attempts s\<rparr>)
       (m(k := None))"
| ack_hit: "m (n, sq) \<noteq> None \<Longrightarrow> queue_rel p m (Acknowledge n sq st)
     (Resolution (if st = ack_accepted then Resolved_accepted else Resolved_rejected))
     (m((n, sq) := None))"
| ack_miss: "m (n, sq) = None \<Longrightarrow> queue_rel p m (Acknowledge n sq st) (Resolution Not_found) m"
| cancel_hit: "m (n, sq) \<noteq> None \<Longrightarrow>
     queue_rel p m (Cancel n sq) (Cancel_result True) (m((n, sq) := None))"
| cancel_miss: "m (n, sq) = None \<Longrightarrow> queue_rel p m (Cancel n sq) (Cancel_result False) m"
| clear_all: "queue_rel p m Clear Cleared (\<lambda>_. None)"

inductive_cases queue_rel_EnqueueE: "queue_rel p m (Enqueue f now) a m'"
inductive_cases queue_rel_Next_dueE: "queue_rel p m (Next_due now) a m'"
inductive_cases queue_rel_AcknowledgeE: "queue_rel p m (Acknowledge n sq st) a m'"
inductive_cases queue_rel_CancelE: "queue_rel p m (Cancel n sq) a m'"
inductive_cases queue_rel_ClearE: "queue_rel p m Clear a m'"

lemmas queue_rel_cases = queue_rel_EnqueueE queue_rel_Next_dueE queue_rel_AcknowledgeE
  queue_rel_CancelE queue_rel_ClearE

section \<open>The slot array implements the map\<close>

lemma slot_matches_key: "slot_matches n sq s \<longleftrightarrow> sl_active s \<and> slot_key s = (n, sq)"
  by (auto simp: slot_matches_def frame_key_def)

lemma rq_inv_ReliableQueue: "rq_inv (ReliableQueue p)"
  by (simp add: rq_inv_def ReliableQueue_def active_keys_def slot_ok_def Slot_def)

lemma q_map_ReliableQueue: "q_map (ReliableQueue p) = (\<lambda>_. None)"
proof
  fix k show "q_map (ReliableQueue p) k = None"
    by (simp add: q_map_def ReliableQueue_def lookup_slot_None_iff active_keys_def Slot_def)
qed

text \<open>The common shape of the scans: a slot is found and replaced, or there is none.\<close>

lemma release_slot:
  assumes inv: "rq_inv q" and u: "update_first P f (rq_slots q) = Some (s, slots)"
    and P: "\<And>s. P s \<Longrightarrow> sl_active s" and f: "\<not> sl_active (f s)"
  shows "P s \<and> q_map q (slot_key s) = Some s \<and> rq_inv (q\<lparr>rq_slots := slots\<rparr>) \<and>
    q_map (q\<lparr>rq_slots := slots\<rparr>) = (q_map q)(slot_key s := None)"
proof -
  from update_first_SomeD [OF u] obtain us vs where xs: "rq_slots q = us @ s # vs"
    and ys: "slots = us @ f s # vs" and s: "P s" by blast
  from inv have d: "distinct (active_keys (us @ s # vs))" by (simp only: rq_inv_def xs)
  have "q_map q (slot_key s) = Some s"
    unfolding q_map_def xs using d P [OF s] by (intro lookup_slot_member) simp_all
  moreover have "rq_inv (q\<lparr>rq_slots := slots\<rparr>)"
    using inv f P [OF s] by (auto simp: rq_inv_def xs ys slot_ok_def)
  ultimately show ?thesis
    using s lookup_slot_release [OF d P [OF s] f] by (simp add: q_map_def xs ys)
qed

lemma change_slot:
  assumes inv: "rq_inv q" and u: "update_first P f (rq_slots q) = Some (s, slots)"
    and P: "P s \<Longrightarrow> sl_active s" and f: "sl_active (f s)" "slot_key (f s) = slot_key s"
    and ok: "slot_ok (rq_policy q) (f s)"
  shows "P s \<and> q_map q (slot_key s) = Some s \<and> rq_inv (q\<lparr>rq_slots := slots\<rparr>) \<and>
    q_map (q\<lparr>rq_slots := slots\<rparr>) = (q_map q)(slot_key s \<mapsto> f s)"
proof -
  from update_first_SomeD [OF u] obtain us vs where xs: "rq_slots q = us @ s # vs"
    and ys: "slots = us @ f s # vs" and s: "P s" by blast
  from inv have d: "distinct (active_keys (us @ s # vs))" by (simp only: rq_inv_def xs)
  have "q_map q (slot_key s) = Some s"
    unfolding q_map_def xs using d P [OF s] by (intro lookup_slot_member) simp_all
  moreover have "rq_inv (q\<lparr>rq_slots := slots\<rparr>)"
    using inv f ok P [OF s] by (auto simp: rq_inv_def xs ys)
  ultimately show ?thesis
    using s lookup_slot_change [OF d P [OF s] f] by (simp add: q_map_def xs ys)
qed

lemma fill_slot:
  assumes inv: "rq_inv q" and u: "update_first (\<lambda>s. \<not> sl_active s) f (rq_slots q) = Some (s, slots)"
    and f: "sl_active (f s)" "q_map q (slot_key (f s)) = None" and ok: "slot_ok (rq_policy q) (f s)"
  shows "rq_inv (q\<lparr>rq_slots := slots\<rparr>) \<and>
    q_map (q\<lparr>rq_slots := slots\<rparr>) = (q_map q)(slot_key (f s) \<mapsto> f s) \<and> card (dom (q_map q)) < 8"
proof -
  from update_first_SomeD [OF u] obtain us vs where xs: "rq_slots q = us @ s # vs"
    and ys: "slots = us @ f s # vs" and s: "\<not> sl_active s" by blast
  have k: "slot_key (f s) \<notin> set (active_keys (us @ vs))"
    using f(2) s by (auto simp: q_map_def xs lookup_slot_None_iff)
  have "length (active_keys (us @ s # vs)) \<le> length (us @ vs)"
    using s by (simp add: active_keys_def add_mono)
  then have "card (dom (q_map q)) < 8"
    using inv card_length [of "active_keys (us @ s # vs)"]
    by (simp add: q_map_def dom_lookup_slot rq_inv_def xs)
  moreover have "rq_inv (q\<lparr>rq_slots := slots\<rparr>)"
    using inv f(1) ok k s by (auto simp: rq_inv_def xs ys)
  moreover have "q_map (q\<lparr>rq_slots := slots\<rparr>) = (q_map q)(slot_key (f s) \<mapsto> f s)"
    using lookup_slot_fill [OF s f(1) k] by (simp add: q_map_def xs ys)
  ultimately show ?thesis by simp
qed

lemma card_q_map: "rq_inv q \<Longrightarrow> card (dom (q_map q)) = length (active_keys (rq_slots q))"
  by (simp add: q_map_def dom_lookup_slot rq_inv_def distinct_card)

lemma pending_loop_length: "pending_loop xs n = n + length (active_keys xs)"
  by (induction xs arbitrary: n) simp_all

lemma pending_count_card: "rq_inv q \<Longrightarrow> pending_count q = card (dom (q_map q))"
  by (simp add: pending_count_def pending_loop_length card_q_map)

lemma ack_flag_set: "(x OR 1) AND 1 = (1 :: u8)"
  by (rule bit_word_eqI) (auto simp: bit_simps)

lemma enqueue_rel:
  assumes inv: "rq_inv q"
  shows "queue_rel (rq_policy q) (q_map q) (Enqueue f now) (Enqueue_result (fst (enqueue q f now)))
      (q_map (snd (enqueue q f now))) \<and> rq_inv (snd (enqueue q f now))"
proof -
  have ex: "list_ex (slot_matches (f_node_id f) (f_sequence f)) (rq_slots q)
      \<longleftrightarrow> q_map q (frame_key f) \<noteq> None"
    by (auto simp: list_ex_iff slot_matches_key q_map_def lookup_slot_None_iff active_keys_iff frame_key_def)
  show ?thesis
  proof (cases "unat (f_payload_length f) > 32 \<or> q_map q (frame_key f) \<noteq> None")
    case True
    then have "enqueue q f now = (Invalid, q)" by (auto simp: enqueue_def ex)
    with True inv show ?thesis by (auto intro: queue_rel.enqueue_invalid)
  next
    case False
    let ?g = "\<lambda>s. s\<lparr>sl_frame := f\<lparr>f_flags := f_flags f OR kFlagAckRequired\<rparr>,
                 sl_deadline_ms := now, sl_attempts := 0, sl_active := True\<rparr>"
    have g: "?g s = new_entry f now" for s by (cases s) (simp add: new_entry_def)
    have key: "slot_key (new_entry f now) = frame_key f" by (simp add: new_entry_def frame_key_def)
    have ok: "slot_ok (rq_policy q) (new_entry f now)"
      using False by (simp add: slot_ok_def new_entry_def ack_flag_set word_le_nat_alt)
    have e: "enqueue q f now = (case update_first (\<lambda>s. \<not> sl_active s) ?g (rq_slots q) of
        Some (_, slots) \<Rightarrow> (Queued, q\<lparr>rq_slots := slots\<rparr>) | None \<Rightarrow> (Full, q))"
      using False by (simp add: enqueue_def ex)
    show ?thesis
    proof (cases "update_first (\<lambda>s. \<not> sl_active s) ?g (rq_slots q)")
      case None
      then have "\<forall>s\<in>set (rq_slots q). sl_active s" by (simp add: update_first_None_iff)
      then have "active_keys (rq_slots q) = map slot_key (rq_slots q)" by (simp add: active_keys_def)
      then have "card (dom (q_map q)) = 8" using inv by (simp add: card_q_map) (simp add: rq_inv_def)
      with False inv None e show ?thesis by (auto intro: queue_rel.enqueue_full)
    next
      case (Some r)
      then obtain s slots where r: "update_first (\<lambda>s. \<not> sl_active s) ?g (rq_slots q) = Some (s, slots)"
        by (cases r) auto
      have "sl_active (?g s)" "q_map q (slot_key (?g s)) = None" "slot_ok (rq_policy q) (?g s)"
        using False key ok unfolding g by (auto simp: new_entry_def)
      from fill_slot [OF inv r this] False e r show ?thesis
        unfolding g by (auto simp: key intro: queue_rel.enqueue_queued)
    qed
  qed
qed

lemma next_due_rel:
  assumes inv: "rq_inv q"
  shows "queue_rel (rq_policy q) (q_map q) (Next_due now) (Decision (fst (next_due q now)))
      (q_map (snd (next_due q now))) \<and> rq_inv (snd (next_due q now))"
proof (cases "update_first (due_slot now) (due_update (rq_policy q) now) (rq_slots q)")
  case None
  then have "\<forall>s\<in>set (rq_slots q). \<not> due_slot now s" by (simp add: update_first_None_iff)
  then have "\<forall>k s. q_map q k = Some s \<longrightarrow> \<not> due now s"
    by (auto simp: q_map_def due_slot_def due_def dest!: lookup_slot_SomeD)
  with None inv show ?thesis by (auto simp: next_due_def intro: queue_rel.due_none)
next
  case (Some r)
  then obtain s slots where r: "update_first (due_slot now) (due_update (rq_policy q) now) (rq_slots q)
      = Some (s, slots)" by (cases r) auto
  then have nd: "next_due q now = (due_decision (rq_policy q) s, q\<lparr>rq_slots := slots\<rparr>)"
    by (simp add: next_due_def)
  have in_q: "due_slot now s" "s \<in> set (rq_slots q)" using update_first_SomeD [OF r] by auto
  with inv have att: "sl_attempts s \<le> rp_max_attempts (rq_policy q)"
    and act: "sl_active s" and du: "due now s" and ok: "slot_ok (rq_policy q) s"
    by (auto simp: rq_inv_def slot_ok_def due_slot_def due_def)
  show ?thesis
  proof (cases "sl_attempts s \<ge> rp_max_attempts (rq_policy q)")
    case True
    obtain us vs where xs: "rq_slots q = us @ s # vs" "slots = us @ s\<lparr>sl_active := False\<rparr> # vs"
      using update_first_SomeD [OF r] True by (auto simp: due_update_def)
    from inv have d: "distinct (active_keys (us @ s # vs))" by (simp only: rq_inv_def xs)
    have "q_map q (slot_key s) = Some s"
      unfolding q_map_def xs using d act by (intro lookup_slot_member) simp_all
    moreover have "rq_inv (q\<lparr>rq_slots := slots\<rparr>)"
      using inv act by (auto simp: rq_inv_def xs slot_ok_def)
    moreover have "q_map (q\<lparr>rq_slots := slots\<rparr>) = (q_map q)(slot_key s := None)"
      using lookup_slot_release [OF d act, of "s\<lparr>sl_active := False\<rparr>"] by (simp add: q_map_def xs)
    moreover have "sl_attempts s = rp_max_attempts (rq_policy q)" using True att by simp
    ultimately show ?thesis
      using du nd queue_rel.due_exhausted [of "q_map q" "slot_key s" s now "rq_policy q"]
      by (simp add: due_decision_def)
  next
    case False
    then have lt: "sl_attempts s < rp_max_attempts (rq_policy q)" by simp
    have upd: "due_update (rq_policy q) now s = resent (rq_policy q) now s"
      using False by (simp add: due_update_def resent_def)
    have "sl_attempts s + 1 \<le> rp_max_attempts (rq_policy q)" using lt by (simp add: inc_le)
    then have "slot_ok (rq_policy q) (due_update (rq_policy q) now s)"
      using ok act unfolding upd by (simp add: slot_ok_def resent_def)
    then have "due_slot now s \<and> q_map q (slot_key s) = Some s \<and> rq_inv (q\<lparr>rq_slots := slots\<rparr>) \<and>
        q_map (q\<lparr>rq_slots := slots\<rparr>) = (q_map q)(slot_key s \<mapsto> due_update (rq_policy q) now s)"
      using act by (intro change_slot [OF inv r]) (simp_all add: upd resent_def)
    with False lt du nd upd show ?thesis
      using queue_rel.due_send [of "q_map q" "slot_key s" s now "rq_policy q"]
      by (simp add: due_decision_def)
  qed
qed

lemma release_key:
  assumes inv: "rq_inv q" and u: "update_first (slot_matches n sq) (\<lambda>s. s\<lparr>sl_active := False\<rparr>) (rq_slots q)
      = Some (s, slots)"
  shows "q_map q (n, sq) \<noteq> None \<and> rq_inv (q\<lparr>rq_slots := slots\<rparr>) \<and>
    q_map (q\<lparr>rq_slots := slots\<rparr>) = (q_map q)((n, sq) := None)"
  using release_slot [OF inv u] by (auto simp: slot_matches_key)

lemma no_key:
  "update_first (slot_matches n sq) g (rq_slots q) = None \<longleftrightarrow> q_map q (n, sq) = None"
  by (auto simp: update_first_None_iff q_map_def lookup_slot_None_iff slot_matches_key active_keys_iff)

lemma queue_op_rel:
  assumes inv: "rq_inv q"
  shows "queue_rel (rq_policy q) (q_map q) c (fst (queue_op q c)) (q_map (snd (queue_op q c))) \<and>
    rq_inv (snd (queue_op q c))"
proof (cases c)
  case (Enqueue f now)
  with enqueue_rel [OF inv] show ?thesis by simp
next
  case (Next_due now)
  with next_due_rel [OF inv] show ?thesis by simp
next
  case (Acknowledge n sq st)
  with inv release_key [OF inv, of n sq] no_key [of n sq] queue_rel.ack_miss
    queue_rel.ack_hit [of "q_map q" n sq "rq_policy q" st]
  show ?thesis by (auto simp: acknowledge_def split: option.splits)
next
  case (Cancel n sq)
  with inv release_key [OF inv, of n sq] no_key [of n sq] show ?thesis
    by (auto simp: cancel_def intro: queue_rel.cancel_miss queue_rel.cancel_hit split: option.splits)
next
  case Clear
  have "q_map (clear q) = (\<lambda>_. None)"
    by (rule ext) (simp add: q_map_def clear_def lookup_slot_None_iff active_keys_def filter_map o_def Slot_def)
  with Clear inv queue_rel.clear_all show ?thesis
    by (auto simp: clear_def rq_inv_def slot_ok_def Slot_def active_keys_def filter_map o_def)
qed

lemma queue_op_policy: "rq_policy (snd (queue_op q c)) = rq_policy q"
  by (cases c) (simp_all add: enqueue_def next_due_def acknowledge_def cancel_def clear_def
      split: option.splits prod.splits)

section \<open>Runs of the queue\<close>

definition effective_policy :: "retry_policy \<Rightarrow> retry_policy" where
  "effective_policy p = (if rp_max_attempts p = 0 then p\<lparr>rp_max_attempts := 1\<rparr> else p)"

lemma rq_policy_ReliableQueue: "rq_policy (ReliableQueue p) = effective_policy p"
  by (simp add: ReliableQueue_def effective_policy_def)

definition rq_inv_for :: "retry_policy \<Rightarrow> reliable_queue \<Rightarrow> bool" where
  "rq_inv_for p q \<longleftrightarrow> rq_inv q \<and> rq_policy q = effective_policy p"

lemma queue_stepD:
  assumes "rq_inv_for p q" and "queue_step q c = Some (a, q')"
  shows "queue_rel (effective_policy p) (q_map q) c a (q_map q')" and "rq_inv_for p q'"
  using assms queue_op_rel [of q c] queue_op_policy [of q c]
  by (simp_all add: queue_step_def rq_inv_for_def)

text \<open>
  The interface of a component that works through a schedule for every key: as long as the
  entry of a key is not renewed, a step either announces the next item of the schedule of
  that entry, or leaves the entry alone, or drops it.
\<close>

locale scheduler = safe_component step inv start
  for step :: "('s, 'i, 'o) component" and inv and start +
  fixes entry :: "'s \<Rightarrow> 'k \<Rightarrow> 'e option"
    and announced :: "'k \<Rightarrow> 'o \<Rightarrow> 'd option"
    and renews :: "'k \<Rightarrow> 'i \<Rightarrow> bool"
    and schedule :: "'e \<Rightarrow> 'd list"
  assumes silent_step: "inv s \<Longrightarrow> step s i = Some (x, t) \<Longrightarrow> \<not> renews k i \<Longrightarrow>
      announced k x = None \<Longrightarrow> entry t k = None \<or> entry t k = entry s k"
    and announcing_step: "inv s \<Longrightarrow> step s i = Some (x, t) \<Longrightarrow> announced k x = Some d \<Longrightarrow>
      \<exists>e ds. entry s k = Some e \<and> schedule e = d # ds \<and>
        (\<forall>e'. entry t k = Some e' \<longrightarrow> schedule e' = ds)"
begin

lemma announcements_Cons:
  "List.map_filter (announced k) (x # xs) =
     (case announced k x of None \<Rightarrow> [] | Some d \<Rightarrow> [d]) @ List.map_filter (announced k) xs"
  by (simp add: map_filter_simps split: option.splits)

lemma absent_stays_silent:
  "inv s \<Longrightarrow> entry s k = None \<Longrightarrow> \<forall>i\<in>set is. \<not> renews k i \<Longrightarrow> run step s is = Some (xs, t) \<Longrightarrow>
   List.map_filter (announced k) xs = [] \<and> entry t k = None"
proof (induction "is" arbitrary: s xs)
  case Nil
  then show ?case by (simp add: map_filter_simps)
next
  case (Cons i "is")
  then obtain x u ys where st: "step s i = Some (x, u)" "run step u is = Some (ys, t)" "xs = x # ys"
    by (auto split: Option.bind_splits)
  have none: "announced k x = None"
    using announcing_step [OF Cons.prems(1) st(1), of k] Cons.prems(2) by (cases "announced k x") auto
  with silent_step [OF Cons.prems(1) st(1) _ none] Cons.prems have "entry u k = None" by auto
  with Cons.IH [OF step_inv [OF Cons.prems(1) st(1)] _ _ st(2)] Cons.prems none st(3) show ?case
    by (simp add: announcements_Cons)
qed

lemma follows_schedule:
  "inv s \<Longrightarrow> entry s k = Some e \<Longrightarrow> \<forall>i\<in>set is. \<not> renews k i \<Longrightarrow> run step s is = Some (xs, t) \<Longrightarrow>
   prefix (List.map_filter (announced k) xs) (schedule e) \<and>
   (List.map_filter (announced k) xs = [] \<longrightarrow> entry t k = None \<or> entry t k = Some e)"
proof (induction "is" arbitrary: s xs e)
  case Nil
  then show ?case by (simp add: map_filter_simps)
next
  case (Cons i "is")
  then obtain x u ys where st: "step s i = Some (x, u)" "run step u is = Some (ys, t)" "xs = x # ys"
    by (auto split: Option.bind_splits)
  have iu: "inv u" by (rule step_inv [OF Cons.prems(1) st(1)])
  have nr: "\<not> renews k i" "\<forall>i\<in>set is. \<not> renews k i" using Cons.prems(3) by simp_all
  show ?case
  proof (cases "announced k x")
    case None
    from silent_step [OF Cons.prems(1) st(1) nr(1) None] Cons.prems(2)
    consider "entry u k = None" | "entry u k = Some e" by auto
    then show ?thesis
    proof cases
      case 1
      from absent_stays_silent [OF iu 1 nr(2) st(2)] None st(3) show ?thesis
        by (simp add: announcements_Cons)
    next
      case 2
      from Cons.IH [OF iu 2 nr(2) st(2)] None st(3) show ?thesis
        by (simp add: announcements_Cons)
    qed
  next
    case (Some d)
    from announcing_step [OF Cons.prems(1) st(1) Some] Cons.prems(2)
    obtain ds where ds: "schedule e = d # ds" "\<forall>e'. entry u k = Some e' \<longrightarrow> schedule e' = ds" by auto
    show ?thesis
    proof (cases "entry u k")
      case None
      from absent_stays_silent [OF iu None nr(2) st(2)] Some st(3) ds show ?thesis
        by (simp add: announcements_Cons)
    next
      case (Some e')
      from Cons.IH [OF iu Some nr(2) st(2)] \<open>announced k x = Some d\<close> st(3) ds Some show ?thesis
        by (simp add: announcements_Cons)
    qed
  qed
qed

end

text \<open>The schedule of a pending entry: the remaining transmissions, then giving up.\<close>

definition send_decision :: "frame \<Rightarrow> nat \<Rightarrow> tx_decision" where
  "send_decision f i = \<lparr>td_action = Tx_send, td_frame = f, td_attempts = of_nat i\<rparr>"

definition exhausted_decision :: "frame \<Rightarrow> nat \<Rightarrow> tx_decision" where
  "exhausted_decision f i = \<lparr>td_action = Tx_exhausted, td_frame = f, td_attempts = of_nat i\<rparr>"

definition transmissions :: "nat \<Rightarrow> frame \<Rightarrow> nat \<Rightarrow> tx_decision list" where
  "transmissions most f done_so_far =
     map (send_decision f) [Suc done_so_far..<Suc most] @ [exhausted_decision f most]"

definition max_transmissions :: "retry_policy \<Rightarrow> nat" where
  "max_transmissions p = unat (rp_max_attempts (effective_policy p))"

definition remaining :: "retry_policy \<Rightarrow> tx_slot \<Rightarrow> tx_decision list" where
  "remaining p s = transmissions (max_transmissions p) (sl_frame s) (unat (sl_attempts s))"

fun decided_on :: "tx_key \<Rightarrow> queue_answer \<Rightarrow> tx_decision option" where
  "decided_on k (Decision d) =
     (if td_action d \<noteq> Tx_none \<and> frame_key (td_frame d) = k then Some d else None)"
| "decided_on k _ = None"

fun enqueues :: "tx_key \<Rightarrow> queue_call \<Rightarrow> bool" where
  "enqueues k (Enqueue f now) = (frame_key f = k)"
| "enqueues k _ = False"

text \<open>Every entry is stored under the key of its own frame.\<close>

lemma q_map_key: "q_map q k = Some s \<Longrightarrow> slot_key s = k"
  by (auto simp: q_map_def dest!: lookup_slot_SomeD)

lemma q_map_own_key: "q_map q k = Some s \<Longrightarrow> q_map q (slot_key s) = Some s \<and> slot_key s = k"
  using q_map_key by simp

lemma q_map_bounds: "rq_inv_for p q \<Longrightarrow> q_map q k = Some s \<Longrightarrow> slot_ok (effective_policy p) s \<and> sl_active s"
  by (auto simp: q_map_def rq_inv_for_def rq_inv_def dest!: lookup_slot_SomeD)

lemma transmissions_Cons:
  "a < most \<Longrightarrow> transmissions most f a = send_decision f (Suc a) # transmissions most f (Suc a)"
  by (cases "most = Suc a") (simp_all add: transmissions_def upt_conv_Cons)

lemma transmissions_last: "transmissions most f most = [exhausted_decision f most]"
  by (simp add: transmissions_def)

lemma queue_silent:
  "queue_rel p m c a m' \<Longrightarrow> \<not> enqueues k c \<Longrightarrow> decided_on k a = None \<Longrightarrow>
   (\<forall>k s. m k = Some s \<longrightarrow> slot_key s = k) \<Longrightarrow> m' k = None \<or> m' k = m k"
  by (cases rule: queue_rel.cases) (auto split: if_splits)

lemma queue_announces:
  assumes "queue_rel (effective_policy p) m c a m'" and "decided_on k a = Some d"
    and keys: "\<forall>k s. m k = Some s \<longrightarrow> slot_key s = k"
  shows "\<exists>e ds. m k = Some e \<and> remaining p e = d # ds \<and>
    (\<forall>e'. m' k = Some e' \<longrightarrow> remaining p e' = ds)"
  using assms(1)
proof (cases rule: queue_rel.cases)
  case (due_send k' s now)
  with assms(2) keys have k: "k' = k" and d: "d = send_decision (sl_frame s) (Suc (unat (sl_attempts s)))"
    by (auto simp: send_decision_def split: if_splits)
  have "unat (sl_attempts s) < max_transmissions p"
    using due_send by (simp add: max_transmissions_def word_less_nat_alt)
  then have "remaining p s = d # remaining p (resent (effective_policy p) now s)"
    using due_send by (simp add: remaining_def transmissions_Cons d resent_def unat_u8_Suc)
  with due_send k show ?thesis by auto
next
  case (due_exhausted k' s now)
  with assms(2) keys have k: "k' = k" and d: "d = exhausted_decision (sl_frame s) (max_transmissions p)"
    by (auto simp: exhausted_decision_def max_transmissions_def split: if_splits)
  have "remaining p s = [d]"
    using due_exhausted by (simp add: remaining_def d transmissions_last flip: max_transmissions_def)
  with due_exhausted k show ?thesis by auto
qed (use assms(2) in \<open>auto simp: TxDecision_def\<close>)

interpretation queue: safe_component queue_step "rq_inv_for p" "ReliableQueue p" for p
proof
  show "rq_inv_for p (ReliableQueue p)"
    by (simp add: rq_inv_for_def rq_inv_ReliableQueue rq_policy_ReliableQueue)
  show "\<exists>x t. queue_step q c = Some (x, t)" for q c
    by (cases "queue_op q c") (simp add: queue_step_def)
  show "rq_inv_for p q \<Longrightarrow> queue_step q c = Some (x, t) \<Longrightarrow> rq_inv_for p t" for q c x t
    by (rule queue_stepD)
qed

interpretation retries: scheduler queue_step "rq_inv_for p" "ReliableQueue p"
    q_map decided_on enqueues "remaining p" for p
proof
  show "q_map t k = None \<or> q_map t k = q_map q k"
    if "rq_inv_for p q" "queue_step q c = Some (x, t)" "\<not> enqueues k c" "decided_on k x = None" for q c x t k
    by (rule queue_silent [OF queue_stepD(1) [OF that(1,2)] that(3,4)]) (blast dest: q_map_key)
  show "\<exists>e ds. q_map q k = Some e \<and> remaining p e = d # ds \<and>
      (\<forall>e'. q_map t k = Some e' \<longrightarrow> remaining p e' = ds)"
    if "rq_inv_for p q" "queue_step q c = Some (x, t)" "decided_on k x = Some d" for q c x t k d
    by (rule queue_announces [OF queue_stepD(1) [OF that(1,2)] that(3)]) (blast dest: q_map_key)
qed

end
