(* ===== verification/Retry_Properties.thy ===== *)
theory Retry_Properties
  imports Retry_Queue
begin

text \<open>
  The theorems about acknowledgement frames and the retry queue: what the queue answers, how
  often and when a command is transmitted, when it is given up, and what an acknowledgement
  does.
\<close>

section \<open>Refinement of the map\<close>

inductive queue_runs ::
  "retry_policy \<Rightarrow> pending_map \<Rightarrow> queue_call list \<Rightarrow> queue_answer list \<Rightarrow> pending_map \<Rightarrow> bool" for p where
  no_calls: "queue_runs p m [] [] m"
| more_calls: "queue_rel p m c a m' \<Longrightarrow> queue_runs p m' cs as m'' \<Longrightarrow> queue_runs p m (c # cs) (a # as) m''"

lemma run_queue_runs:
  "rq_inv_for p q \<Longrightarrow> run queue_step q cs = Some (as, t) \<Longrightarrow>
   queue_runs (effective_policy p) (q_map q) cs as (q_map t)"
proof (induction cs arbitrary: q as)
  case Nil
  then show ?case by (simp add: queue_runs.no_calls)
next
  case (Cons c cs)
  then obtain a u bs where st: "queue_step q c = Some (a, u)" "run queue_step u cs = Some (bs, t)"
    "as = a # bs" by (auto split: Option.bind_splits)
  from queue_stepD [OF Cons.prems(1) st(1)] Cons.IH [OF _ st(2)] st(3) show ?case
    by (auto intro: queue_runs.more_calls)
qed

lemma pending_count_bounded: "rq_inv q \<Longrightarrow> pending_count q \<le> 8"
  using length_filter_le [of sl_active "rq_slots q"]
  by (simp add: pending_count_card card_q_map rq_inv_def active_keys_def)

text \<open>
  C10: The retry queue implements a map from (node ID, sequence) to pending commands of at
  most eight entries. Whatever calls a client makes, the array behaves as the map: every
  answer and every change is one that the rules of \<open>queue_rel\<close> allow, no key is pending twice,
  no entry has more transmissions than the policy allows (at least one, at most 255, so the
  attempt counter never wraps), and \<open>pending_count\<close> is the number of entries.
\<close>

theorem queue_implements_map:
  "\<exists>as q. run queue_step (ReliableQueue p) cs = Some (as, q) \<and>
     queue_runs (effective_policy p) (\<lambda>_. None) cs as (q_map q) \<and>
     rq_inv q \<and> rq_policy q = effective_policy p \<and>
     pending_count q = card (dom (q_map q)) \<and> pending_count q \<le> kMaxPendingTransmissions"
proof -
  obtain as q where r: "run queue_step (ReliableQueue p) cs = Some (as, q)" and inv: "rq_inv_for p q"
    using queue.run_start_total by blast
  have "queue_runs (effective_policy p) (q_map (ReliableQueue p)) cs as (q_map q)"
    by (rule run_queue_runs [OF queue.inv_start r])
  with r inv show ?thesis
    by (simp add: q_map_ReliableQueue rq_inv_for_def pending_count_card)
      (metis pending_count_bounded pending_count_card)
qed

section \<open>How often a command is sent\<close>

text \<open>Taking a command into the queue starts its schedule.\<close>

lemma queued_entry:
  assumes inv: "rq_inv_for p q" and st: "queue_step q (Enqueue f now) = Some (Enqueue_result Queued, q')"
  shows "q_map q' (frame_key f) = Some (new_entry f now) \<and> rq_inv_for p q'"
  using queue_stepD [OF inv st] by (auto elim: queue_rel_EnqueueE)

lemma reachable_inv: "run queue_step (ReliableQueue p) cs = Some (as, q) \<Longrightarrow> rq_inv_for p q"
  using queue.run_inv [OF queue.inv_start] by blast

lemma remaining_new_entry:
  "remaining p (new_entry f now) =
     transmissions (max_transmissions p) (f\<lparr>f_flags := f_flags f OR kFlagAckRequired\<rparr>) 0"
  by (simp add: remaining_def new_entry_def)

text \<open>
  C11: A queued command is transmitted at most \<open>max_attempts\<close> times and given up at most once.
  In any run after \<open>enqueue\<close> answered \<open>queued\<close> (with no further \<open>enqueue\<close> for the same node
  and sequence), the decisions of \<open>next_due\<close> about this command are a prefix of: send attempt
  1, send attempt 2, ..., send attempt \<open>max_attempts\<close>, exhausted. They always carry the frame
  as it was queued, with the acknowledgement flag set.
\<close>

theorem transmissions_bounded:
  assumes "run queue_step (ReliableQueue p) cs = Some (as, q)"
    and "queue_step q (Enqueue f now) = Some (Enqueue_result Queued, q')"
    and "run queue_step q' ds = Some (bs, t)"
    and "\<forall>d\<in>set ds. \<not> enqueues (frame_key f) d"
  shows "prefix (List.map_filter (decided_on (frame_key f)) bs)
           (transmissions (max_transmissions p) (f\<lparr>f_flags := f_flags f OR kFlagAckRequired\<rparr>) 0)"
proof -
  from queued_entry [OF reachable_inv [OF assms(1)] assms(2)]
  have "q_map q' (frame_key f) = Some (new_entry f now)" "rq_inv_for p q'" by simp_all
  from retries.follows_schedule [OF this(2,1) assms(4,3)] show ?thesis
    by (simp add: remaining_new_entry)
qed

definition command_frame :: frame where
  "command_frame = Frame\<lparr>f_type := command, f_node_id := 7, f_sequence := 42\<rparr>"

theorem transmissions_bounded_witness:
  "prefix (List.map_filter (decided_on (7, 42))
      (fst (the (run queue_step (snd (enqueue (ReliableQueue RetryPolicy) command_frame 100))
         [Next_due 100, Next_due 349, Next_due 350, Next_due 600, Next_due 900, Next_due 2000]))))
     (transmissions 3 (command_frame\<lparr>f_flags := 1\<rparr>) 0)"
proof -
  let ?q = "ReliableQueue RetryPolicy"
  let ?ds = "[Next_due 100, Next_due 349, Next_due 350, Next_due 600, Next_due 900, Next_due 2000]"
  have "prefix (List.map_filter (decided_on (frame_key command_frame))
      (fst (the (run queue_step (snd (enqueue ?q command_frame 100)) ?ds))))
     (transmissions (max_transmissions RetryPolicy)
        (command_frame\<lparr>f_flags := f_flags command_frame OR kFlagAckRequired\<rparr>) 0)"
    by (rule transmissions_bounded [where cs = "[]" and as = "[]" and q = "?q" and now = 100
         and q' = "snd (enqueue ?q command_frame 100)" and ds = "?ds"
         and t = "snd (the (run queue_step (snd (enqueue ?q command_frame 100)) ?ds))"];
        code_simp)
  moreover have "frame_key command_frame = (7, 42)" "max_transmissions RetryPolicy = 3"
    "command_frame\<lparr>f_flags := f_flags command_frame OR kFlagAckRequired\<rparr> = command_frame\<lparr>f_flags := 1\<rparr>"
    by code_simp+
  ultimately show ?thesis by simp
qed

section \<open>When a command is sent again\<close>

text \<open>The signed comparison of the code asks whether the clock is in the half range from the deadline.\<close>

lemma sint_nonneg_u32: "0 \<le> sint (w :: u32) \<longleftrightarrow> unat w < 2 ^ 31"
proof -
  have "unat w div 2 ^ 31 = (if unat w < 2 ^ 31 then 0 else 1)"
    using unsigned_less [of w] by (auto intro: div_nat_eqI)
  moreover have "bit (uint w) 31 = bit (unat w) 31" by (simp add: bit_unsigned_iff)
  ultimately have "bit (uint w) 31 \<longleftrightarrow> \<not> unat w < 2 ^ 31"
    by (simp add: bit_iff_odd)
  then show ?thesis by (simp add: sint_uint)
qed

lemma deadline_reached_unat: "deadline_reached now d \<longleftrightarrow> unat (now - d) < 2 ^ 31"
  by (simp only: deadline_reached_def sint_nonneg_u32)

lemma deadline_reached_true_time:
  assumes "T1 \<le> T2" and "T2 < T1 + 2 ^ 31" and "unat timeout \<le> 2 ^ 31"
  shows "deadline_reached (of_nat T2) (of_nat T1 + timeout) \<longleftrightarrow> T1 + unat timeout \<le> T2"
proof -
  define d where "d = T2 - T1"
  have d: "T2 = T1 + d" "d < 2 ^ 31" using assms by (simp_all add: d_def)
  have "of_nat T2 - (of_nat T1 + timeout) = (of_nat d - of_nat (unat timeout) :: u32)"
    by (simp add: d)
  also have "unat \<dots> < 2 ^ 31 \<longleftrightarrow> unat timeout \<le> d"
  proof (cases "unat timeout \<le> d")
    case True
    then have "unat (of_nat d - of_nat (unat timeout) :: u32) = (d - unat timeout) mod 2 ^ 32"
      by (rule unat_of_nat_diff_u32)
    with True d show ?thesis by simp
  next
    case False
    define e where "e = unat timeout - d"
    have e: "0 < e" "e \<le> 2 ^ 31" "unat timeout = d + e" using False assms(3) by (simp_all add: e_def)
    have "of_nat d - of_nat (unat timeout) = (of_nat (2 ^ 32 - e) :: u32)"
      unfolding e(3) using e(2) by (simp add: of_nat_diff)
    moreover have "unat (of_nat (2 ^ 32 - e) :: u32) = 2 ^ 32 - e"
      by (simp only: unat_of_nat take_bit_eq_mod) (use e in simp)
    ultimately have diff: "unat (of_nat d - of_nat (unat timeout) :: u32) = 2 ^ 32 - e" by (simp only:)
    show ?thesis unfolding diff using e False by simp
  qed
  also have "unat timeout \<le> d \<longleftrightarrow> T1 + unat timeout \<le> T2" by (simp add: d)
  finally show ?thesis by (simp only: deadline_reached_unat)
qed

lemma sent_entry:
  assumes inv: "rq_inv_for p q" and st: "queue_step q (Next_due now) = Some (Decision d, q')"
    and d: "decided_on k (Decision d) = Some d" "td_action d = Tx_send"
  shows "\<exists>s. q_map q' k = Some s \<and> sl_deadline_ms s = now + rp_timeout_ms (effective_policy p)"
  by (rule queue_rel_Next_dueE [OF queue_stepD(1) [OF inv st]])
    (use d in \<open>auto simp: TxDecision_def resent_def dest: q_map_key split: if_splits\<close>)

lemma decided_due:
  assumes inv: "rq_inv_for p q" and st: "queue_step q (Next_due now) = Some (Decision d, q')"
    and d: "decided_on k (Decision d) = Some d"
  shows "\<exists>s. q_map q k = Some s \<and> due now s"
  by (rule queue_rel_Next_dueE [OF queue_stepD(1) [OF inv st]])
    (use d in \<open>auto simp: TxDecision_def dest: q_map_own_key split: if_splits\<close>)

lemma rp_timeout_effective [simp]: "rp_timeout_ms (effective_policy p) = rp_timeout_ms p"
  by (simp add: effective_policy_def)



section \<open>Serving what is due\<close>

lemma unat_neg_u32:
  assumes "w \<noteq> 0"
  shows "unat (- w :: u32) = 2 ^ 32 - unat w"
proof -
  have "- w = of_nat (2 ^ 32 - unat w)"
    using unat_u32_less [of w] by (simp add: of_nat_diff del: unat_u32_less)
  then have "unat (- w) = unat (of_nat (2 ^ 32 - unat w) :: u32)" by (simp only:)
  also have "\<dots> = 2 ^ 32 - unat w"
    by (simp only: unat_of_nat take_bit_eq_mod) (use assms in \<open>simp add: unat_gt_0\<close>)
  finally show ?thesis .
qed

text \<open>A deadline lies in the future exactly for timeouts from 1 to 2^31 ms.\<close>

lemma deadline_ahead: "deadline_reached now (now + timeout) \<longleftrightarrow> timeout = 0 \<or> unat timeout > 2 ^ 31"
proof (cases "timeout = 0")
  case False
  then have "unat (- timeout) = 2 ^ 32 - unat timeout"
    by (simp add: unat_neg_u32)
  moreover have "0 < unat timeout" using False by (simp add: unat_gt_0)
  ultimately have "unat (- timeout) < 2 ^ 31 \<longleftrightarrow> unat timeout > 2 ^ 31"
    using unat_u32_less [of timeout] by (simp del: unat_u32_less) linarith
  with False show ?thesis by (simp add: deadline_reached_unat)
qed (simp add: deadline_reached_unat)

lemma due_update_not_due:
  assumes "0 < unat (rp_timeout_ms p)" and "unat (rp_timeout_ms p) \<le> 2 ^ 31"
  shows "\<not> due_slot now (due_update p now s)"
  using assms by (auto simp: due_update_def due_slot_def deadline_ahead)

lemma next_due_serves_first:
  assumes to: "0 < unat (rp_timeout_ms (rq_policy q))" "unat (rp_timeout_ms (rq_policy q)) \<le> 2 ^ 31"
    and dues: "filter (due_slot now) (rq_slots q) = s # rest"
  shows "\<exists>q'. next_due q now = (due_decision (rq_policy q) s, q') \<and> rq_policy q' = rq_policy q \<and>
    filter (due_slot now) (rq_slots q') = rest"
proof -
  from dues obtain us vs where xs: "rq_slots q = us @ s # vs" "\<forall>u\<in>set us. \<not> due_slot now u"
    "due_slot now s" "rest = filter (due_slot now) vs"
    by (auto simp: filter_eq_Cons_iff)
  have "filter (due_slot now) us = []" using xs(2) by (simp add: filter_empty_conv)
  with xs update_first_append [OF xs(2,3), of "due_update (rq_policy q) now" vs] show ?thesis
    by (simp add: next_due_def due_update_not_due [OF to])
qed

lemma serve_all:
  assumes "0 < unat (rp_timeout_ms (rq_policy q))" and "unat (rp_timeout_ms (rq_policy q)) \<le> 2 ^ 31"
    and "filter (due_slot now) (rq_slots q) = dues"
  shows "\<exists>q'. run queue_step q (replicate (length dues) (Next_due now)) =
      Some (map (Decision \<circ> due_decision (rq_policy q)) dues, q') \<and>
    next_due q' now = (TxDecision, q')"
  using assms
proof (induction dues arbitrary: q)
  case Nil
  then have "update_first (due_slot now) (due_update (rq_policy q) now) (rq_slots q) = None"
    by (simp add: update_first_None_iff filter_empty_conv)
  then show ?case by (simp add: next_due_def)
next
  case (Cons s rest)
  from next_due_serves_first [OF Cons.prems] obtain q'
    where q': "next_due q now = (due_decision (rq_policy q) s, q')" "rq_policy q' = rq_policy q"
      "filter (due_slot now) (rq_slots q') = rest" by blast
  from Cons.IH [of q'] Cons.prems q' show ?case by (auto simp: queue_step_def)
qed

text \<open>
  C15: Nothing starves. In every reachable state, as many calls of \<open>next_due\<close> at one time as
  there are due commands (at most eight) serve each of them exactly once, in slot order, by a
  transmission or by giving it up, and the next call answers \<open>none\<close>: a client that calls
  \<open>next_due\<close> until it answers \<open>none\<close> stops after at most nine calls and has served everything.
  The policy's timeout is from 1 ms to 2^31 ms.
\<close>

theorem due_commands_all_served:
  assumes "run queue_step (ReliableQueue p) cs = Some (as, q)"
    and "0 < unat (rp_timeout_ms p)" and "unat (rp_timeout_ms p) \<le> 2 ^ 31"
  shows "\<exists>q'. run queue_step q (replicate (length (filter (due_slot now) (rq_slots q))) (Next_due now)) =
      Some (map (Decision \<circ> due_decision (rq_policy q)) (filter (due_slot now) (rq_slots q)), q') \<and>
    length (filter (due_slot now) (rq_slots q)) \<le> kMaxPendingTransmissions \<and>
    distinct (map slot_key (filter (due_slot now) (rq_slots q))) \<and>
    next_due q' now = (TxDecision, q')"
proof -
  have inv: "rq_inv q" and pol: "rq_policy q = effective_policy p"
    using reachable_inv [OF assms(1)] by (simp_all add: rq_inv_for_def)
  have "length (filter (due_slot now) (rq_slots q)) \<le> kMaxPendingTransmissions"
    using inv length_filter_le [of "due_slot now" "rq_slots q"] by (simp add: rq_inv_def)
  moreover have "distinct (map slot_key (filter (\<lambda>s. deadline_reached now (sl_deadline_ms s))
      (filter sl_active (rq_slots q))))"
    by (rule distinct_map_filter) (use inv in \<open>simp add: rq_inv_def active_keys_def\<close>)
  then have "distinct (map slot_key (filter (due_slot now) (rq_slots q)))"
    by (simp add: due_slot_def [abs_def] conj_commute)
  ultimately show ?thesis
    using serve_all [of q now, OF _ _ refl] assms(2,3) pol by simp
qed

theorem due_commands_all_served_witness:
  "\<exists>q'. run queue_step (snd (enqueue (ReliableQueue RetryPolicy) command_frame 100))
      (replicate (length (filter (due_slot 100)
         (rq_slots (snd (enqueue (ReliableQueue RetryPolicy) command_frame 100))))) (Next_due 100)) =
    Some ([Decision \<lparr>td_action = Tx_send, td_frame = command_frame\<lparr>f_flags := 1\<rparr>, td_attempts = 1\<rparr>], q') \<and>
    next_due q' 100 = (TxDecision, q')"
proof -
  let ?q = "snd (enqueue (ReliableQueue RetryPolicy) command_frame 100)"
  have "run queue_step (ReliableQueue RetryPolicy) [Enqueue command_frame 100] =
      Some ([Enqueue_result Queued], ?q)" by code_simp
  moreover have "map (Decision \<circ> due_decision (rq_policy ?q)) (filter (due_slot 100) (rq_slots ?q)) =
      [Decision \<lparr>td_action = Tx_send, td_frame = command_frame\<lparr>f_flags := 1\<rparr>, td_attempts = 1\<rparr>]"
    by code_simp
  ultimately show ?thesis
    using due_commands_all_served [of RetryPolicy "[Enqueue command_frame 100]" _ ?q 100]
    by (auto simp: RetryPolicy_def)
qed

section \<open>Giving up\<close>

definition solo :: "retry_policy \<Rightarrow> tx_slot \<Rightarrow> reliable_queue" where
  "solo p s = \<lparr>rq_slots = s # replicate 7 Slot, rq_policy = effective_policy p\<rparr>"

lemma solo_next_due:
  "due_slot now s \<Longrightarrow> queue_step (solo p s) (Next_due now) =
     Some (Decision (due_decision (effective_policy p) s), solo p (due_update (effective_policy p) now s))"
  by (simp add: queue_step_def next_due_def solo_def)

lemma max_transmissions_pos: "0 < max_transmissions p"
  by (simp add: max_transmissions_def effective_policy_def unat_gt_0)

lemma deadline_reached_within: "d \<le> t \<Longrightarrow> t < d + 2 ^ 31 \<Longrightarrow> deadline_reached (of_nat t) (of_nat d)"
  using unat_of_nat_diff_u32 [of d t] by (simp add: deadline_reached_unat)

text \<open>Polled at the times \<open>t a, t (a + 1), ...\<close>, the entry goes through its remaining schedule.\<close>

lemma polled_schedule:
  assumes gaps: "\<forall>i<max_transmissions p. t i + unat (rp_timeout_ms p) \<le> t (Suc i) \<and>
      t (Suc i) < t i + unat (rp_timeout_ms p) + 2 ^ 31"
    and "a \<le> max_transmissions p" and "unat (sl_attempts s) = a" and "due_slot (of_nat (t a)) s"
  shows "\<exists>s'. run queue_step (solo p s) (map (\<lambda>i. Next_due (of_nat (t i))) [a..<Suc (max_transmissions p)]) =
    Some (map Decision (remaining p s), solo p s') \<and> \<not> sl_active s'"
  using assms(2-4)
proof (induction arbitrary: s rule: inc_induct)
  case base
  then have full: "rp_max_attempts (effective_policy p) \<le> sl_attempts s"
    by (simp add: max_transmissions_def word_le_nat_alt)
  have "due_decision (effective_policy p) s = exhausted_decision (sl_frame s) (max_transmissions p)"
    using base full by (simp add: due_decision_def exhausted_decision_def flip: base(1))
  moreover have "\<not> sl_active (due_update (effective_policy p) now s)" for now
    using full by (simp add: due_update_def)
  ultimately show ?case
    using base by (auto simp: solo_next_due remaining_def transmissions_last)
next
  case (step a)
  let ?now = "of_nat (t a) :: u32"
  let ?s = "due_update (effective_policy p) ?now s"
  have lt: "\<not> rp_max_attempts (effective_policy p) \<le> sl_attempts s"
    using step by (simp add: max_transmissions_def word_le_nat_alt)
  then have att: "unat (sl_attempts ?s) = Suc a" "sl_frame ?s = sl_frame s"
    and d: "due_decision (effective_policy p) s = send_decision (sl_frame s) (Suc a)"
    using step unat_u8_Suc [of "sl_attempts s" "rp_max_attempts (effective_policy p)"]
    by (auto simp: due_update_def due_decision_def send_decision_def)
  have "deadline_reached (of_nat (t (Suc a))) (of_nat (t a + unat (rp_timeout_ms p)))"
    using gaps step.hyps by (intro deadline_reached_within) auto
  then have "due_slot (of_nat (t (Suc a))) ?s"
    using lt step.prems by (simp add: due_slot_def due_update_def)
  from step.IH [OF att(1) this] obtain s'
    where s': "run queue_step (solo p ?s) (map (\<lambda>i. Next_due (of_nat (t i))) [Suc a..<Suc (max_transmissions p)]) =
      Some (map Decision (remaining p ?s), solo p s')" "\<not> sl_active s'" by blast
  have "[a..<Suc (max_transmissions p)] = a # [Suc a..<Suc (max_transmissions p)]"
    using step.hyps by (intro upt_conv_Cons) simp
  moreover have "remaining p s = send_decision (sl_frame s) (Suc a) # remaining p ?s"
    using step att by (simp add: remaining_def transmissions_Cons)
  ultimately show ?case using s' step.prems by (auto simp: solo_next_due d simp del: upt_Suc)
qed



section \<open>Acknowledgements\<close>

text \<open>
  The three outcomes of \<open>enqueue\<close>: in every reachable state it answers \<open>invalid\<close> exactly
  for an over-long payload or a (node, sequence) that is already pending, otherwise \<open>full\<close>
  exactly when eight commands are pending, and otherwise \<open>queued\<close>; only then the queue changes,
  and the new command is due at once.
\<close>

theorem enqueue_outcomes:
  assumes "run queue_step (ReliableQueue p) cs = Some (as, q)" and "enqueue q f now = (r, q')"
  shows "(r = Invalid \<longleftrightarrow> unat (f_payload_length f) > kMaxPayloadSize \<or> q_map q (frame_key f) \<noteq> None) \<and>
    (r = Full \<longleftrightarrow> unat (f_payload_length f) \<le> kMaxPayloadSize \<and> q_map q (frame_key f) = None \<and>
       pending_count q = kMaxPendingTransmissions) \<and>
    (r = Queued \<longrightarrow> pending_count q' = pending_count q + 1 \<and>
       q_map q' = (q_map q)(frame_key f \<mapsto> new_entry f now) \<and> due now (new_entry f now)) \<and>
    (r \<noteq> Queued \<longrightarrow> q_map q' = q_map q)"
proof -
  have inv: "rq_inv_for p q" by (rule reachable_inv [OF assms(1)])
  have st: "queue_step q (Enqueue f now) = Some (Enqueue_result r, q')"
    using assms(2) by (simp add: queue_step_def)
  have pc: "pending_count q = card (dom (q_map q))" "pending_count q' = card (dom (q_map q'))"
    using inv queue_stepD(2) [OF inv st] by (simp_all add: rq_inv_for_def pending_count_card)
  have fin: "finite (dom (q_map q))" by (simp add: q_map_def dom_lookup_slot)
  have "due now (new_entry f now)" by (simp add: due_def new_entry_def deadline_reached_def)
  with fin show ?thesis
    unfolding pc by - (rule queue_rel_EnqueueE [OF queue_stepD(1) [OF inv st]]; auto simp: domIff)
qed

theorem enqueue_outcomes_witness:
  "fst (enqueue (snd (enqueue (ReliableQueue RetryPolicy) command_frame 100)) command_frame 200) = Invalid"
proof -
  let ?q = "snd (enqueue (ReliableQueue RetryPolicy) command_frame 100)"
  have "run queue_step (ReliableQueue RetryPolicy) [Enqueue command_frame 100] =
      Some ([Enqueue_result Queued], ?q)" by code_simp
  moreover have "q_map ?q (frame_key command_frame) \<noteq> None" by code_simp
  ultimately show ?thesis
    using enqueue_outcomes [of RetryPolicy "[Enqueue command_frame 100]" _ ?q command_frame 200]
    by (metis prod.collapse)
qed

text \<open>
  An acknowledgement settles exactly its command. It answers \<open>not_found\<close> exactly when no
  command with this node and sequence is pending, and \<open>accepted\<close> exactly when one is pending and
  the status is \<open>accepted\<close>; the command is removed and all others are kept, and in any later run
  without a new \<open>enqueue\<close> for this key \<open>next_due\<close> never decides on it again.
\<close>

theorem acknowledge_settles:
  assumes "run queue_step (ReliableQueue p) cs = Some (as, q)"
    and "acknowledge q n sq st = (r, q')"
    and "run queue_step q' ds = Some (bs, t)" and "\<forall>d\<in>set ds. \<not> enqueues (n, sq) d"
  shows "(r = Not_found \<longleftrightarrow> q_map q (n, sq) = None) \<and>
    (r = Resolved_accepted \<longleftrightarrow> q_map q (n, sq) \<noteq> None \<and> st = ack_accepted) \<and>
    q_map q' = (q_map q)((n, sq) := None) \<and>
    List.map_filter (decided_on (n, sq)) bs = []"
proof -
  have inv: "rq_inv_for p q" by (rule reachable_inv [OF assms(1)])
  have st: "queue_step q (Acknowledge n sq st) = Some (Resolution r, q')"
    using assms(2) by (simp add: queue_step_def)
  have moved: "(r = Not_found \<longleftrightarrow> q_map q (n, sq) = None) \<and>
      (r = Resolved_accepted \<longleftrightarrow> q_map q (n, sq) \<noteq> None \<and> st = ack_accepted) \<and>
      q_map q' = (q_map q)((n, sq) := None)"
    by (rule queue_rel_AcknowledgeE [OF queue_stepD(1) [OF inv st]]) (auto simp: fun_eq_iff)
  then have "q_map q' (n, sq) = None" by simp
  from retries.absent_stays_silent [OF queue_stepD(2) [OF inv st] this assms(4,3)] moved
  show ?thesis by simp
qed

theorem acknowledge_settles_witness:
  "fst (acknowledge (snd (enqueue (ReliableQueue RetryPolicy) command_frame 100)) 7 42 ack_busy) \<noteq> Not_found"
proof -
  let ?q = "snd (enqueue (ReliableQueue RetryPolicy) command_frame 100)"
  have "run queue_step (ReliableQueue RetryPolicy) [Enqueue command_frame 100] =
      Some ([Enqueue_result Queued], ?q)" and "q_map ?q (7, 42) \<noteq> None" by code_simp+
  then show ?thesis
    using acknowledge_settles [of RetryPolicy "[Enqueue command_frame 100]" _ ?q 7 42 ack_busy _ _ "[]" "[]"]
    by (metis empty_iff list.set(1) prod.collapse run.simps(1))
qed

text \<open>
  Acknowledgement frames round-trip, and nothing else parses. \<open>make_ack_frame\<close> gives a frame
  that \<open>parse_ack_frame\<close> reads back when the status is one of the five defined ones and rejects
  otherwise; \<open>parse_ack_frame\<close> never reads outside the payload, and it succeeds exactly on an
  acknowledgement frame of two payload bytes whose second is at most 4.
\<close>

theorem ack_frames_round_trip:
  assumes "frame_wf g"
  shows "(\<exists>f. make_ack_frame n rs a st = Some f \<and> frame_wf f \<and> f_type f = acknowledgement \<and>
      f_node_id f = n \<and> f_sequence f = rs \<and>
      parse_ack_frame f = Some (if ack_byte st \<le> 4 then Some (a, st) else None)) \<and>
    parse_ack_frame g =
      Some (if f_type g = acknowledgement \<and> f_payload_length g = 2 \<and> f_payload g ! 1 \<le> 4
            then Some (f_payload g ! 0, AckStatus (f_payload g ! 1)) else None)"
proof
  show "\<exists>f. make_ack_frame n rs a st = Some f \<and> frame_wf f \<and> f_type f = acknowledgement \<and>
      f_node_id f = n \<and> f_sequence f = rs \<and>
      parse_ack_frame f = Some (if ack_byte st \<le> 4 then Some (a, st) else None)"
    by (simp add: make_ack_frame_def parse_ack_frame_def Frame_def frame_wf_def ub_simps
        ack_malformed_def not_less)
  show "parse_ack_frame g =
      Some (if f_type g = acknowledgement \<and> f_payload_length g = 2 \<and> f_payload g ! 1 \<le> 4
            then Some (f_payload g ! 0, AckStatus (f_payload g ! 1)) else None)"
    using assms by (auto simp: parse_ack_frame_def frame_wf_def ub_simps ack_malformed_def)
qed

theorem ack_frames_round_trip_witness:
  "frame_wf command_frame \<and> parse_ack_frame command_frame = Some None"
proof -
  have "frame_wf command_frame" by code_simp
  from ack_frames_round_trip [OF this] this show ?thesis
    by (auto simp: command_frame_def message_type_defs)
qed

section \<open>The frames of the queue\<close>

fun call_frame_wf :: "queue_call \<Rightarrow> bool" where
  "call_frame_wf (Enqueue f now) = frame_wf f"
| "call_frame_wf _ = True"

definition entries_wf :: "pending_map \<Rightarrow> bool" where
  "entries_wf m \<longleftrightarrow> (\<forall>k s. m k = Some s \<longrightarrow> frame_wf (sl_frame s))"

lemma entries_wfD: "entries_wf m \<Longrightarrow> m k = Some s \<Longrightarrow> frame_wf (sl_frame s)"
  unfolding entries_wf_def by blast

lemma entries_wf_step: "queue_rel p m c a m' \<Longrightarrow> entries_wf m \<Longrightarrow> call_frame_wf c \<Longrightarrow> entries_wf m'"
  by (cases rule: queue_rel.cases)
    (auto simp: entries_wf_def new_entry_def resent_def frame_wf_def split: if_splits)

lemma entries_wf_run:
  "rq_inv_for p q \<Longrightarrow> entries_wf (q_map q) \<Longrightarrow> \<forall>c\<in>set cs. call_frame_wf c \<Longrightarrow>
   run queue_step q cs = Some (as, t) \<Longrightarrow> entries_wf (q_map t)"
proof (induction cs arbitrary: q as)
  case Nil
  then show ?case by simp
next
  case (Cons c cs)
  then obtain a u bs where st: "queue_step q c = Some (a, u)" "run queue_step u cs = Some (bs, t)"
    by (auto split: Option.bind_splits)
  note step = queue_stepD [OF Cons.prems(1) st(1)]
  have "entries_wf (q_map u)" by (rule entries_wf_step [OF step(1)]) (use Cons.prems in simp_all)
  from Cons.IH [OF step(2) this _ st(2)] Cons.prems show ?case by simp
qed

lemma decided_entry:
  assumes "rq_inv_for p q" and "next_due q now = (d, q')" and "td_action d \<noteq> Tx_none"
  obtains s where "q_map q (frame_key (td_frame d)) = Some s" "td_frame d = sl_frame s" "due now s"
    "slot_ok (effective_policy p) s" "sl_active s"
proof -
  have "queue_step q (Next_due now) = Some (Decision d, q')" using assms(2) by (simp add: queue_step_def)
  note step = queue_stepD(1) [OF assms(1) this]
  show thesis
    by (rule queue_rel_Next_dueE [OF step];
        use assms(1,3) q_map_key q_map_bounds that in \<open>fastforce simp: TxDecision_def\<close>)
qed

text \<open>
  C34: The queue hands out frames that can be sent. When only frames with 32 bytes of payload
  storage are queued, every transmission and every exhaustion carries such a frame, its declared
  payload length is at most 32 and its acknowledgement flag is set, so that encoding it loses
  nothing of the declared payload.
\<close>

theorem decisions_carry_sendable_frames:
  assumes "run queue_step (ReliableQueue p) cs = Some (as, q)" and "\<forall>c\<in>set cs. call_frame_wf c"
    and "next_due q now = (d, q')" and "td_action d \<noteq> Tx_none"
  shows "frame_wf (td_frame d) \<and> unat (f_payload_length (td_frame d)) \<le> kMaxPayloadSize \<and>
    f_flags (td_frame d) AND kFlagAckRequired \<noteq> 0 \<and> (\<exists>e. encode_frame (td_frame d) = Some e \<and>
      ef_length e = kFrameOverhead + unat (f_payload_length (td_frame d)))"
proof -
  have inv: "rq_inv_for p q" by (rule reachable_inv [OF assms(1)])
  have "entries_wf (q_map q)"
    by (rule entries_wf_run [OF queue.inv_start _ assms(2,1)]) (simp add: q_map_ReliableQueue entries_wf_def)
  moreover obtain s where s: "q_map q (frame_key (td_frame d)) = Some s" "td_frame d = sl_frame s"
    "slot_ok (effective_policy p) s" "sl_active s" using decided_entry [OF inv assms(3,4)] by blast
  ultimately have wf: "frame_wf (td_frame d)" using entries_wfD by metis
  have ok: "unat (f_payload_length (td_frame d)) \<le> 32" "f_flags (td_frame d) AND kFlagAckRequired \<noteq> 0"
    using s by (simp_all add: slot_ok_def)
  with wf encode_frame_spec [OF wf] show ?thesis by (simp add: wire_len_def)
qed

theorem decisions_carry_sendable_frames_witness:
  "frame_wf (td_frame (fst (next_due (snd (enqueue (ReliableQueue RetryPolicy) command_frame 100)) 100)))"
proof -
  let ?q = "snd (enqueue (ReliableQueue RetryPolicy) command_frame 100)"
  have "run queue_step (ReliableQueue RetryPolicy) [Enqueue command_frame 100] = Some ([Enqueue_result Queued], ?q)"
    "\<forall>c\<in>set [Enqueue command_frame 100]. call_frame_wf c"
    "next_due ?q 100 = (fst (next_due ?q 100), snd (next_due ?q 100))"
    "td_action (fst (next_due ?q 100)) \<noteq> Tx_none" by code_simp+
  from decisions_carry_sendable_frames [OF this] show ?thesis by simp
qed

end
