(* ===== verification/Command_Controller.thy ===== *)
theory Command_Controller
  imports Transport_Properties Retry_Properties
begin

text \<open>
  The controller sketch \<open>examples/ArduinoReliableCommandController\<close>: it queues a command, sends
  what the retry queue has due, and polls the node for an acknowledgement. At any time at most
  one command is in flight.

  \<open>millis()\<close> is an argument of each step, the driver of \<open>Wire\<close> is the parameter of
  \<open>Wire_Transport\<close>; what a turn prints is its result.
\<close>

section \<open>The sketch\<close>

definition kNodeAddress_rcc :: u8 where "kNodeAddress_rcc = 0x42"
definition kNodeId_rcc :: u8 where "kNodeId_rcc = 0"
definition kCommandIntervalMs :: u32 where "kCommandIntervalMs = 5000"
definition kReceivePollMs :: u32 where "kReceivePollMs = 20"

record command_controller =
  cc_queue :: reliable_queue
  cc_sequence :: u8
  cc_last_command_ms :: u32
  cc_last_receive_ms :: u32

definition Command_controller :: command_controller where
  "Command_controller = \<lparr>cc_queue = ReliableQueue \<lparr>rp_timeout_ms = 250, rp_max_attempts = 3\<rparr>,
     cc_sequence = 0, cc_last_command_ms = 0, cc_last_receive_ms = 0\<rparr>"

definition command_frame_rcc :: "u8 \<Rightarrow> frame option" where
  "command_frame_rcc sequence = do {
     payload \<leftarrow> wr (f_payload Frame) 0 0x01;
     payload \<leftarrow> wr payload 1 0x01;
     Some (Frame\<lparr>f_type := command, f_node_id := kNodeId_rcc, f_sequence := sequence,
                 f_payload_length := 2, f_payload := payload\<rparr>)
   }"

definition enqueueCommand :: "u32 \<Rightarrow> command_controller \<Rightarrow> (queue_result \<times> command_controller) option" where
  "enqueueCommand now c = do {
     cmd \<leftarrow> command_frame_rcc (cc_sequence c);
     let (result, q) = enqueue (cc_queue c) cmd now;
     Some (result, c\<lparr>cc_sequence := cc_sequence c + 1, cc_queue := q\<rparr>)
   }"

text \<open>The decision, and for a transmission whether the driver took it.\<close>

definition transmitDue ::
  "'w two_wire \<Rightarrow> u32 \<Rightarrow> command_controller \<Rightarrow> 'w \<Rightarrow> (tx_decision \<times> bool option \<times> command_controller \<times> 'w) option" where
  "transmitDue tw now c w = do {
     let (decision, q) = next_due (cc_queue c) now;
     let c = c\<lparr>cc_queue := q\<rparr>;
     if td_action decision = Tx_none \<or> td_action decision = Tx_exhausted then Some (decision, None, c, w)
     else do {
       (sent, w) \<leftarrow> send_frame (wire_send tw kNodeAddress_rcc) w (td_frame decision);
       Some (decision, Some sent, c, w)
     }
   }"

text \<open>The acknowledged sequence, status and resolution, if an acknowledgement came.\<close>

definition receiveAcknowledgement ::
  "'w two_wire \<Rightarrow> command_controller \<Rightarrow> 'w \<Rightarrow>
   ((u8 \<times> ack_status \<times> ack_resolution) option \<times> command_controller \<times> 'w) option" where
  "receiveAcknowledgement tw c w = do {
     (decoded, _, w) \<leftarrow> receive_frame (wire_receive tw kNodeAddress_rcc) w;
     if \<not> decode_ok decoded \<or> f_type (dr_frame decoded) \<noteq> acknowledgement then Some (None, c, w)
     else do {
       parsed \<leftarrow> parse_ack_frame (dr_frame decoded);
       case parsed of
         None \<Rightarrow> Some (None, c, w)
       | Some (acknowledged_sequence, status) \<Rightarrow>
           let (resolution, q) = acknowledge (cc_queue c) (f_node_id (dr_frame decoded)) acknowledged_sequence status
           in Some (Some (acknowledged_sequence, status, resolution), c\<lparr>cc_queue := q\<rparr>, w)
     }
   }"

record loop_report =
  lr_queued :: "queue_result option"
  lr_decision :: tx_decision
  lr_sent :: "bool option"
  lr_ack :: "(u8 \<times> ack_status \<times> ack_resolution) option"

definition controller_setup :: "u32 \<Rightarrow> (queue_result \<times> command_controller) option" where
  "controller_setup now = enqueueCommand now Command_controller"

definition controller_loop ::
  "'w two_wire \<Rightarrow> u32 \<Rightarrow> command_controller \<Rightarrow> 'w \<Rightarrow> (loop_report \<times> command_controller \<times> 'w) option" where
  "controller_loop tw now c w = do {
     (queued, c) \<leftarrow>
       (if pending_count (cc_queue c) = 0 \<and> now - cc_last_command_ms c \<ge> kCommandIntervalMs
        then do { (r, c) \<leftarrow> enqueueCommand now (c\<lparr>cc_last_command_ms := now\<rparr>); Some (Some r, c) }
        else Some (None, c));
     (decision, sent, c, w) \<leftarrow> transmitDue tw now c w;
     (ack, c, w) \<leftarrow>
       (if now - cc_last_receive_ms c \<ge> kReceivePollMs
        then receiveAcknowledgement tw (c\<lparr>cc_last_receive_ms := now\<rparr>) w
        else Some (None, c, w));
     Some (\<lparr>lr_queued = queued, lr_decision = decision, lr_sent = sent, lr_ack = ack\<rparr>, c, w)
   }"

text \<open>As a component: an input is the time and the driver's state when \<open>loop\<close> is entered.\<close>

definition controller_step ::
  "'w two_wire \<Rightarrow> command_controller \<Rightarrow> u32 \<times> 'w \<Rightarrow> ((loop_report \<times> 'w) \<times> command_controller) option" where
  "controller_step tw c i = do {
     (report, c, w) \<leftarrow> controller_loop tw (fst i) c (snd i);
     Some ((report, w), c)
   }"

section \<open>One command in flight\<close>

text \<open>The command with a sequence, as the queue stores it.\<close>

definition queued_command :: "u8 \<Rightarrow> frame" where
  "queued_command sequence = Frame\<lparr>f_type := command, f_flags := 1, f_node_id := 0, f_sequence := sequence,
     f_payload_length := 2, f_payload := [1, 1] @ replicate 30 0\<rparr>"

abbreviation cc_policy :: retry_policy where
  "cc_policy \<equiv> \<lparr>rp_timeout_ms = 250, rp_max_attempts = 3\<rparr>"

text \<open>All that may be pending is the command with the last sequence number.\<close>

definition cc_entry :: "u8 \<Rightarrow> tx_key \<Rightarrow> frame \<Rightarrow> bool" where
  "cc_entry sq k f \<longleftrightarrow> k = (0, sq) \<and> f = queued_command sq"

definition cc_inv :: "command_controller \<Rightarrow> bool" where
  "cc_inv c \<longleftrightarrow> rq_inv_for cc_policy (cc_queue c) \<and>
     (\<forall>k s. q_map (cc_queue c) k = Some s \<longrightarrow> cc_entry (cc_sequence c - 1) k (sl_frame s))"

lemma cc_invD:
  assumes "cc_inv c"
  shows "rq_inv_for cc_policy (cc_queue c)" and "rq_inv (cc_queue c)"
    and "q_map (cc_queue c) k = Some s \<Longrightarrow> k = (0, cc_sequence c - 1) \<and> sl_frame s = queued_command (cc_sequence c - 1)"
    and "\<forall>k s. q_map (cc_queue c) k = Some s \<longrightarrow> cc_entry (cc_sequence c - 1) k (sl_frame s)"
  using assms unfolding cc_inv_def rq_inv_for_def cc_entry_def by blast+

lemma cc_inv_queue:
  "cc_inv c \<Longrightarrow> rq_inv_for cc_policy q \<Longrightarrow>
   \<forall>k s. q_map q k = Some s \<longrightarrow> cc_entry (cc_sequence c - 1) k (sl_frame s) \<Longrightarrow> cc_inv (c\<lparr>cc_queue := q\<rparr>)"
  by (simp add: cc_inv_def)

lemma queued_command_wf [simp]: "frame_wf (queued_command s)" "canonical (queued_command s)"
  by (simp_all add: queued_command_def frame_wf_def canonical_def)

lemma queued_command_fields [simp]:
  "f_sequence (queued_command s) = s" "f_node_id (queued_command s) = 0" "f_type (queued_command s) = command"
  "f_flags (queued_command s) = 1"
  by (simp_all add: queued_command_def)

lemma cc_pending_count:
  assumes "cc_inv c"
  shows "pending_count (cc_queue c) \<le> 1"
    and "pending_count (cc_queue c) = 0 \<longleftrightarrow> q_map (cc_queue c) = (\<lambda>_. None)"
proof -
  have sub: "dom (q_map (cc_queue c)) \<subseteq> {(0, cc_sequence c - 1)}" using cc_invD(3) [OF assms] by blast
  have c: "card (dom (q_map (cc_queue c))) \<le> 1" "finite (dom (q_map (cc_queue c)))"
    using card_mono [OF _ sub] finite_subset [OF sub] by simp_all
  show "pending_count (cc_queue c) \<le> 1" "pending_count (cc_queue c) = 0 \<longleftrightarrow> q_map (cc_queue c) = (\<lambda>_. None)"
    using c by (simp_all only: pending_count_card [OF cc_invD(2) [OF assms]] card_0_eq dom_eq_empty_conv)
qed

lemma command_frame_rcc_queued:
  "\<exists>f. command_frame_rcc s = Some f \<and> f\<lparr>f_flags := f_flags f OR kFlagAckRequired\<rparr> = queued_command s \<and>
     frame_key f = (0, s) \<and> unat (f_payload_length f) \<le> 32"
  by (simp add: command_frame_rcc_def Frame_def ub_simps queued_command_def frame_key_def kNodeId_rcc_def zeros_32)

text \<open>Facts about all stored frames survive the changes that the queue makes.\<close>

lemma entries_resent:
  "\<forall>k s. m k = Some s \<longrightarrow> P k (sl_frame s) \<Longrightarrow> m k = Some s \<Longrightarrow>
   \<forall>k' s'. (m(k \<mapsto> resent p now s)) k' = Some s' \<longrightarrow> P k' (sl_frame s')"
  by (auto simp: resent_def)

lemma entries_removed:
  "\<forall>k s. m k = Some s \<longrightarrow> P k (sl_frame s) \<Longrightarrow> \<forall>k' s'. (m(k := None)) k' = Some s' \<longrightarrow> P k' (sl_frame s')"
  by auto

text \<open>Queueing a command when none is pending always succeeds.\<close>

lemma enqueueCommand_effect:
  assumes "rq_inv_for cc_policy (cc_queue c)" and "q_map (cc_queue c) = (\<lambda>_. None)"
  shows "\<exists>c'. enqueueCommand now c = Some (Queued, c') \<and> cc_inv c' \<and> cc_sequence c' = cc_sequence c + 1 \<and>
    cc_last_receive_ms c' = cc_last_receive_ms c \<and> cc_last_command_ms c' = cc_last_command_ms c \<and>
    q_map (cc_queue c') = [(0, cc_sequence c) \<mapsto> \<lparr>sl_frame = queued_command (cc_sequence c), sl_deadline_ms = now,
      sl_attempts = 0, sl_active = True\<rparr>]"
proof -
  let ?s = "cc_sequence c" and ?q = "cc_queue c"
  obtain f where f: "command_frame_rcc ?s = Some f" "f\<lparr>f_flags := f_flags f OR kFlagAckRequired\<rparr> = queued_command ?s"
    "frame_key f = (0, ?s)" "unat (f_payload_length f) \<le> 32"
    using command_frame_rcc_queued by blast
  obtain r q' where r: "enqueue ?q f now = (r, q')" by (metis prod.exhaust)
  then have st: "queue_step ?q (Enqueue f now) = Some (Enqueue_result r, q')" by (simp add: queue_step_def)
  have "r = Queued \<and> q_map q' = [frame_key f \<mapsto> new_entry f now]"
    by (rule queue_rel_EnqueueE [OF queue_stepD(1) [OF assms(1) st]]) (use assms(2) f(4) in auto)
  moreover have "rq_inv_for cc_policy q'" by (rule queue_stepD(2) [OF assms(1) st])
  ultimately show ?thesis
    using f r by (auto simp: enqueueCommand_def cc_inv_def cc_entry_def new_entry_def)
qed

lemma next_due_effect:
  assumes "cc_inv c" and "next_due (cc_queue c) now = (d, q)"
  shows "cc_inv (c\<lparr>cc_queue := q\<rparr>)"
    and "td_action d \<noteq> Tx_none \<Longrightarrow> td_frame d = queued_command (cc_sequence c - 1) \<and> td_attempts d \<le> 3 \<and>
      (td_action d = Tx_send \<longrightarrow> 1 \<le> td_attempts d)"
proof -
  have st: "queue_step (cc_queue c) (Next_due now) = Some (Decision d, q)" using assms(2) by (simp add: queue_step_def)
  note inv = cc_invD [OF assms(1)]
  note rel = queue_stepD(1) [OF inv(1) st]
  have max3: "rp_max_attempts (effective_policy cc_policy) = 3" by (simp add: effective_policy_def)
  have "\<forall>k s. q_map q k = Some s \<longrightarrow> cc_entry (cc_sequence c - 1) k (sl_frame s)"
  proof (rule queue_rel_Next_dueE [OF rel])
    assume "q_map q = q_map (cc_queue c)"
    with inv(4) show ?thesis by simp
  next
    fix k s assume "q_map (cc_queue c) k = Some s"
      and "q_map q = (q_map (cc_queue c))(k \<mapsto> resent (effective_policy cc_policy) now s)"
    with entries_resent [OF inv(4)] show ?thesis by metis
  next
    fix k assume "q_map q = (q_map (cc_queue c))(k := None)"
    with entries_removed [OF inv(4)] show ?thesis by metis
  qed
  then show "cc_inv (c\<lparr>cc_queue := q\<rparr>)"
    by (rule cc_inv_queue [OF assms(1) queue_stepD(2) [OF inv(1) st]])
  assume act: "td_action d \<noteq> Tx_none"
  obtain s where s: "q_map (cc_queue c) (frame_key (td_frame d)) = Some s" "td_frame d = sl_frame s"
    using decided_entry [OF inv(1) assms(2) act] by metis
  have "td_attempts d \<le> 3 \<and> (td_action d = Tx_send \<longrightarrow> 1 \<le> td_attempts d)"
  proof (rule queue_rel_Next_dueE [OF rel])
    fix k s assume "sl_attempts s < rp_max_attempts (effective_policy cc_policy)"
      "Decision d = Decision \<lparr>td_action = Tx_send, td_frame = sl_frame s, td_attempts = sl_attempts s + 1\<rparr>"
    moreover from this have "unat (sl_attempts s + 1) = Suc (unat (sl_attempts s))"
      using unat_u8_Suc [of "sl_attempts s" 3] by (simp add: max3)
    ultimately show ?thesis by (simp add: max3 word_le_nat_alt word_less_nat_alt)
  qed (use act in \<open>auto simp: max3 TxDecision_def\<close>)
  with s inv(3) [OF s(1)] show "td_frame d = queued_command (cc_sequence c - 1) \<and> td_attempts d \<le> 3 \<and>
      (td_action d = Tx_send \<longrightarrow> 1 \<le> td_attempts d)" by simp
qed

text \<open>A command that is sent stays pending.\<close>

lemma next_due_pending:
  assumes "cc_inv c" and "next_due (cc_queue c) now = (d, q)" and "td_action d = Tx_send"
  shows "q_map q (0, cc_sequence c - 1) \<noteq> None"
proof -
  have st: "queue_step (cc_queue c) (Next_due now) = Some (Decision d, q)" using assms(2) by (simp add: queue_step_def)
  note inv = cc_invD [OF assms(1)]
  show ?thesis
  proof (rule queue_rel_Next_dueE [OF queue_stepD(1) [OF inv(1) st]])
    fix k s assume "q_map (cc_queue c) k = Some s"
      and "q_map q = (q_map (cc_queue c))(k \<mapsto> resent (effective_policy cc_policy) now s)"
    moreover from this(1) have "k = (0, cc_sequence c - 1)" using inv(3) by blast
    ultimately show ?thesis by simp
  qed (use assms(3) in \<open>simp_all add: TxDecision_def\<close>)
qed

lemma acknowledge_effect:
  assumes "cc_inv c" and "acknowledge (cc_queue c) n sq st = (r, q)"
  shows "cc_inv (c\<lparr>cc_queue := q\<rparr>)" and "q_map q = (q_map (cc_queue c))((n, sq) := None)"
    and "q_map (cc_queue c) (n, sq) \<noteq> None \<Longrightarrow> r = (if st = ack_accepted then Resolved_accepted else Resolved_rejected)"
proof -
  have st: "queue_step (cc_queue c) (Acknowledge n sq st) = Some (Resolution r, q)"
    using assms(2) by (simp add: queue_step_def)
  note inv = cc_invD [OF assms(1)]
  note rel = queue_stepD(1) [OF inv(1) st]
  show m: "q_map q = (q_map (cc_queue c))((n, sq) := None)"
    by (rule queue_rel_AcknowledgeE [OF rel]) auto
  show "r = (if st = ack_accepted then Resolved_accepted else Resolved_rejected)" if "q_map (cc_queue c) (n, sq) \<noteq> None"
    by (rule queue_rel_AcknowledgeE [OF rel]) (use that in auto)
  show "cc_inv (c\<lparr>cc_queue := q\<rparr>)"
    by (rule cc_inv_queue [OF assms(1) queue_stepD(2) [OF inv(1) st]])
      (simp only: m, rule entries_removed [OF inv(4)])
qed

section \<open>Turns of the loop\<close>

lemma transmitDue_effect:
  assumes "fifo_wire tw buf" and "cc_inv c"
  shows "\<exists>d sent c' w'. transmitDue tw now c w = Some (d, sent, c', w') \<and> cc_inv c' \<and>
    cc_sequence c' = cc_sequence c \<and> (sent = None \<longleftrightarrow> td_action d \<noteq> Tx_send) \<and>
    (td_action d \<noteq> Tx_none \<longrightarrow> td_frame d = queued_command (cc_sequence c - 1) \<and> td_attempts d \<le> 3) \<and>
    (td_action d = Tx_send \<longrightarrow> 1 \<le> td_attempts d)"
proof -
  obtain d q where d: "next_due (cc_queue c) now = (d, q)" by (metis prod.exhaust)
  note eff = next_due_effect [OF assms(2) d]
  show ?thesis
  proof (cases "td_action d = Tx_send")
    case True
    then have f: "td_frame d = queued_command (cc_sequence c - 1)" using eff(2) by simp
    obtain ok w' where "send_frame (wire_send tw kNodeAddress_rcc) w (td_frame d) = Some (ok, w')"
      using transport.send_frame_defined [OF wire_transport [OF assms(1)] queued_command_wf(1)] f by metis
    with d eff True show ?thesis by (simp add: transmitDue_def)
  next
    case False
    with d eff show ?thesis by (cases "td_action d") (simp_all add: transmitDue_def)
  qed
qed

lemma parse_ack_defined: "frame_wf g \<Longrightarrow> \<exists>r. parse_ack_frame g = Some r"
  by (auto simp: parse_ack_frame_def frame_wf_def ub_simps)

lemma receiveAcknowledgement_effect:
  assumes "fifo_wire tw buf" and "cc_inv c"
  shows "\<exists>ack c' w'. receiveAcknowledgement tw c w = Some (ack, c', w') \<and> cc_inv c' \<and>
    cc_sequence c' = cc_sequence c"
proof -
  note t = wire_transport [OF assms(1), of kNodeAddress_rcc]
  obtain r n w' where r: "receive_frame (wire_receive tw kNodeAddress_rcc) w = Some (r, n, w')"
    using transport.receive_frame_defined [OF t] by blast
  obtain parsed where p: "parse_ack_frame (dr_frame r) = Some parsed"
    using parse_ack_defined [OF transport.receive_frame_wf [OF t r]] by blast
  show ?thesis
  proof (cases "decode_ok r \<and> f_type (dr_frame r) = acknowledgement \<and> parsed \<noteq> None")
    case False
    with r p assms(2) show ?thesis by (cases parsed) (auto simp: receiveAcknowledgement_def)
  next
    case True
    then obtain sq st where ack: "parsed = Some (sq, st)" by auto
    obtain res q where "acknowledge (cc_queue c) (f_node_id (dr_frame r)) sq st = (res, q)" by (metis prod.exhaust)
    with r p True ack acknowledge_effect(1) [OF assms(2) this] show ?thesis
      by (simp add: receiveAcknowledgement_def)
  qed
qed

lemma cc_inv_times [simp]:
  "cc_inv (c\<lparr>cc_last_command_ms := t\<rparr>) = cc_inv c" "cc_inv (c\<lparr>cc_last_receive_ms := t\<rparr>) = cc_inv c"
  by (simp_all add: cc_inv_def)

text \<open>What every turn does.\<close>

definition turn_ok :: "loop_report \<Rightarrow> command_controller \<Rightarrow> bool" where
  "turn_ok r c \<longleftrightarrow> pending_count (cc_queue c) \<le> 1 \<and> (lr_queued r = None \<or> lr_queued r = Some Queued) \<and>
     (td_action (lr_decision r) \<noteq> Tx_none \<longrightarrow> td_frame (lr_decision r) = queued_command (cc_sequence c - 1) \<and>
        td_attempts (lr_decision r) \<le> 3) \<and>
     (td_action (lr_decision r) = Tx_send \<longrightarrow> 1 \<le> td_attempts (lr_decision r)) \<and>
     (lr_sent r = None \<longleftrightarrow> td_action (lr_decision r) \<noteq> Tx_send)"

text \<open>The first part of a turn.\<close>

lemma enqueue_turn:
  assumes "cc_inv c"
  obtains queued c1 where "(if pending_count (cc_queue c) = 0 \<and> now - cc_last_command_ms c \<ge> kCommandIntervalMs
        then do { (r, c) \<leftarrow> enqueueCommand now (c\<lparr>cc_last_command_ms := now\<rparr>); Some (Some r, c) }
        else Some (None, c)) = Some (queued, c1)" "cc_inv c1" "queued = None \<or> queued = Some Queued"
    "cc_last_receive_ms c1 = cc_last_receive_ms c" "queued = None \<longrightarrow> c1 = c"
    "queued \<noteq> None \<longrightarrow> (\<exists>k f. q_map (cc_queue c1) =
       [k \<mapsto> \<lparr>sl_frame = f, sl_deadline_ms = now, sl_attempts = 0, sl_active = True\<rparr>])"
proof (cases "pending_count (cc_queue c) = 0 \<and> now - cc_last_command_ms c \<ge> kCommandIntervalMs")
  case True
  then have "q_map (cc_queue c) = (\<lambda>_. None)" using cc_pending_count(2) [OF assms] by simp
  then obtain c' where c': "enqueueCommand now (c\<lparr>cc_last_command_ms := now\<rparr>) = Some (Queued, c')" "cc_inv c'"
    "cc_last_receive_ms c' = cc_last_receive_ms c" "q_map (cc_queue c') = [(0, cc_sequence c) \<mapsto>
      \<lparr>sl_frame = queued_command (cc_sequence c), sl_deadline_ms = now, sl_attempts = 0, sl_active = True\<rparr>]"
    using enqueueCommand_effect [of "c\<lparr>cc_last_command_ms := now\<rparr>" now] cc_invD(1) [OF assms] by auto
  show ?thesis
  proof (rule that [of "Some Queued" c'])
    show "Some Queued \<noteq> None \<longrightarrow> (\<exists>k f. q_map (cc_queue c') =
        [k \<mapsto> \<lparr>sl_frame = f, sl_deadline_ms = now, sl_attempts = 0, sl_active = True\<rparr>])"
      using c'(4) by blast
  qed (use True c' in simp_all)
next
  case False
  with assms show ?thesis by (intro that [of None c]) auto
qed

text \<open>What the report of a turn says of its parts.\<close>

lemma loop_parts:
  assumes "controller_loop tw now c w = Some (r, c', w')"
    and "(if pending_count (cc_queue c) = 0 \<and> now - cc_last_command_ms c \<ge> kCommandIntervalMs
        then do { (r, c) \<leftarrow> enqueueCommand now (c\<lparr>cc_last_command_ms := now\<rparr>); Some (Some r, c) }
        else Some (None, c)) = Some (queued, c1)"
  shows "lr_queued r = queued \<and> lr_decision r = fst (next_due (cc_queue c1) now) \<and>
    (now - cc_last_receive_ms c1 \<ge> kReceivePollMs \<longrightarrow> cc_last_receive_ms c' = now)"
  using assms(1) unfolding controller_loop_def assms(2)
  by (auto simp: transmitDue_def receiveAcknowledgement_def Let_def split_beta
      split: Option.bind_splits if_splits option.splits)

lemma controller_loop_ok:
  assumes tw: "fifo_wire tw buf" and inv: "cc_inv c"
  shows "\<exists>r c' w'. controller_loop tw now c w = Some (r, c', w') \<and> cc_inv c' \<and> turn_ok r c'"
proof -
  obtain queued c1 where c1: "(if pending_count (cc_queue c) = 0 \<and> now - cc_last_command_ms c \<ge> kCommandIntervalMs
        then do { (r, c) \<leftarrow> enqueueCommand now (c\<lparr>cc_last_command_ms := now\<rparr>); Some (Some r, c) }
        else Some (None, c)) = Some (queued, c1)" "cc_inv c1" "queued = None \<or> queued = Some Queued"
    by (rule enqueue_turn [OF inv])
  obtain d sent c2 w2 where c2: "transmitDue tw now c1 w = Some (d, sent, c2, w2)" "cc_inv c2"
    "sent = None \<longleftrightarrow> td_action d \<noteq> Tx_send"
    "td_action d \<noteq> Tx_none \<longrightarrow> td_frame d = queued_command (cc_sequence c2 - 1) \<and> td_attempts d \<le> 3"
    "td_action d = Tx_send \<longrightarrow> 1 \<le> td_attempts d"
    using transmitDue_effect [OF tw c1(2), of now w] by metis
  obtain ack c3 w3 where c3: "(if now - cc_last_receive_ms c2 \<ge> kReceivePollMs
        then receiveAcknowledgement tw (c2\<lparr>cc_last_receive_ms := now\<rparr>) w2
        else Some (None, c2, w2)) = Some (ack, c3, w3)" "cc_inv c3" "cc_sequence c3 = cc_sequence c2"
    using receiveAcknowledgement_effect [OF tw, of "c2\<lparr>cc_last_receive_ms := now\<rparr>" w2] c2(2)
    by (cases "now - cc_last_receive_ms c2 \<ge> kReceivePollMs") auto
  let ?r = "\<lparr>lr_queued = queued, lr_decision = d, lr_sent = sent, lr_ack = ack\<rparr>"
  have "controller_loop tw now c w = Some (?r, c3, w3)"
    unfolding controller_loop_def c1(1) by (simp add: c2(1) c3(1))
  moreover have "turn_ok ?r c3"
    using c1(3) c2(3-5) c3(3) cc_pending_count(1) [OF c3(2)] by (simp add: turn_ok_def)
  ultimately show ?thesis using c3(2) by blast
qed

lemma controller_setup_ok:
  "\<exists>c. controller_setup now = Some (Queued, c) \<and> cc_inv c \<and> cc_sequence c = 1 \<and> cc_last_receive_ms c = 0 \<and>
     q_map (cc_queue c) = [(0, 0) \<mapsto> \<lparr>sl_frame = queued_command 0, sl_deadline_ms = now, sl_attempts = 0, sl_active = True\<rparr>]"
proof -
  have "rq_inv_for cc_policy (cc_queue Command_controller)" "q_map (cc_queue Command_controller) = (\<lambda>_. None)"
    using queue.inv_start [of cc_policy] q_map_ReliableQueue by (simp_all add: Command_controller_def)
  then obtain c where c: "enqueueCommand now Command_controller = Some (Queued, c)" "cc_inv c"
    "cc_sequence c = cc_sequence Command_controller + 1" "cc_last_receive_ms c = cc_last_receive_ms Command_controller"
    "q_map (cc_queue c) = [(0, cc_sequence Command_controller) \<mapsto>
      \<lparr>sl_frame = queued_command (cc_sequence Command_controller), sl_deadline_ms = now, sl_attempts = 0, sl_active = True\<rparr>]"
    using enqueueCommand_effect [of Command_controller now] by blast
  then show ?thesis by (intro exI [of _ c]) (simp add: controller_setup_def, simp add: Command_controller_def)
qed

lemma controller_safe:
  assumes "fifo_wire tw buf"
  shows "safe_component (controller_step tw) cc_inv (snd (the (controller_setup now)))"
proof
  show "cc_inv (snd (the (controller_setup now)))" using controller_setup_ok [of now] by auto
  show "\<exists>x t. controller_step tw c i = Some (x, t)" if "cc_inv c" for c i
    using controller_loop_ok [OF assms that, of "fst i" "snd i"] by (auto simp: controller_step_def)
  show "cc_inv t" if "cc_inv c" "controller_step tw c i = Some (x, t)" for c i x t
    using controller_loop_ok [OF assms that(1), of "fst i" "snd i"] that(2) by (auto simp: controller_step_def)
qed

text \<open>
  C33: At most one command is in flight. Whatever the clock and the bus deliver, \<open>setup\<close> and every
  number of turns of \<open>loop\<close> run without leaving a buffer; queueing a command never fails; every
  transmission and every exhaustion concerns the last queued command, exactly as it was built
  with the acknowledgement flag added; it has at most three transmissions, numbered from 1; and
  the queue holds at most this one command.
\<close>

theorem one_command_in_flight:
  assumes "fifo_wire tw buf" and "controller_setup t0 = Some (r0, c0)"
    and "run (controller_step tw) c0 inputs = Some (outs, c)"
  shows "r0 = Queued \<and> (\<exists>r c' w'. controller_loop tw now c w = Some (r, c', w') \<and>
    pending_count (cc_queue c') \<le> 1 \<and> lr_queued r \<noteq> Some Full \<and> lr_queued r \<noteq> Some Invalid \<and>
    (td_action (lr_decision r) \<noteq> Tx_none \<longrightarrow>
       (\<exists>f. command_frame_rcc (cc_sequence c' - 1) = Some f \<and>
          td_frame (lr_decision r) = f\<lparr>f_flags := f_flags f OR kFlagAckRequired\<rparr>) \<and>
       td_attempts (lr_decision r) \<le> 3) \<and>
    (td_action (lr_decision r) = Tx_send \<longrightarrow> 1 \<le> td_attempts (lr_decision r) \<and> lr_sent r \<noteq> None))"
proof -
  have c0: "r0 = Queued" "cc_inv c0" using controller_setup_ok [of t0] assms(2) by auto
  have "cc_inv c" by (rule safe_component.run_inv [OF controller_safe [OF assms(1)] c0(2) assms(3)])
  from controller_loop_ok [OF assms(1) this, of now w] obtain r c' w' where
    r: "controller_loop tw now c w = Some (r, c', w')" "turn_ok r c'" by blast
  moreover obtain f where "command_frame_rcc (cc_sequence c' - 1) = Some f"
    "f\<lparr>f_flags := f_flags f OR kFlagAckRequired\<rparr> = queued_command (cc_sequence c' - 1)"
    using command_frame_rcc_queued by blast
  ultimately show ?thesis using c0(1) by (intro conjI exI [of _ r] exI [of _ c'] exI [of _ w']) (auto simp: turn_ok_def)
qed

theorem one_command_in_flight_witness:
  "\<exists>c r c' w'. controller_setup 7 = Some (Queued, c) \<and> controller_loop (list_driver []) 20 c [] = Some (r, c', w') \<and>
    pending_count (cc_queue c') \<le> 1"
proof -
  let ?c = "snd (the (controller_setup 7))"
  have start: "controller_setup 7 = Some (fst (the (controller_setup 7)), ?c)" by code_simp
  have "run (controller_step (list_driver [])) ?c [] = Some ([], ?c)" by simp
  from one_command_in_flight [OF fifo_list_driver start this, of 20 "[]"] start show ?thesis by auto
qed
end
