(* ===== verification/Command_System.thy ===== *)
theory Command_System
  imports Command_Controller
begin

text \<open>
  The command controller sketch with a node at the other end of its bus, whatever the node is:
  the interface \<open>command_partner\<close> says what the controller relies on - a command that asks for
  an acknowledgement is received and answered with it - and the lemmas show that turns of the
  loop then settle every command. \<open>Pico_Bus\<close> and \<open>Arduino_Bus\<close> interpret it on the two node
  programs of the repository.
\<close>

section \<open>Runs\<close>

text \<open>
  The two programs on the bus, turn after turn: an input is what the driver takes in this turn
  (such as clock readings at the node) and the controller's \<open>millis()\<close>. In \<open>paced\<close> runs the
  controller's turns are at least 20 ms apart, so that each of them polls for an acknowledgement.
\<close>

definition system_step ::
  "('i \<Rightarrow> 'w two_wire) \<Rightarrow> command_controller \<times> 'w \<Rightarrow> 'i \<times> u32 \<Rightarrow> (loop_report \<times> command_controller \<times> 'w) option" where
  "system_step driver s i = controller_loop (driver (fst i)) (snd i) (fst s) (snd s)"

fun paced :: "u32 \<Rightarrow> u32 list \<Rightarrow> bool" where
  "paced t [] = True"
| "paced t (now # ts) = (now - t \<ge> kReceivePollMs \<and> paced now ts)"

text \<open>A command that was queued and not yet sent goes out at the next opportunity.\<close>

definition all_new :: "u32 \<Rightarrow> command_controller \<Rightarrow> bool" where
  "all_new now c \<longleftrightarrow> (\<forall>k s. q_map (cc_queue c) k = Some s \<longrightarrow> sl_attempts s = 0 \<and> due now s)"

lemma new_sent_first:
  assumes "cc_inv c" and "all_new now c" and "next_due (cc_queue c) now = (d, q)"
  shows "(q_map (cc_queue c) = (\<lambda>_. None) \<and> d = TxDecision \<and> q_map q = (\<lambda>_. None)) \<or>
    (q_map (cc_queue c) \<noteq> (\<lambda>_. None) \<and> td_action d = Tx_send \<and> td_attempts d = 1)"
proof -
  have st: "queue_step (cc_queue c) (Next_due now) = Some (Decision d, q)" using assms(3) by (simp add: queue_step_def)
  show ?thesis
  proof (rule queue_rel_Next_dueE [OF queue_stepD(1) [OF cc_invD(1) [OF assms(1)] st]])
    assume none: "\<forall>a b s. q_map (cc_queue c) (a, b) = Some s \<longrightarrow> \<not> due now s"
      and same: "Decision d = Decision TxDecision" "q_map q = q_map (cc_queue c)"
    have "q_map (cc_queue c) k = None" for k
      using none assms(2) unfolding all_new_def by (cases k; cases "q_map (cc_queue c) k") blast+
    with same show ?thesis by auto
  next
    fix k s assume s: "q_map (cc_queue c) k = Some s"
      and d: "Decision d = Decision \<lparr>td_action = Tx_send, td_frame = sl_frame s, td_attempts = sl_attempts s + 1\<rparr>"
    have "sl_attempts s = 0" using assms(2) s unfolding all_new_def by blast
    moreover have "q_map (cc_queue c) \<noteq> (\<lambda>_. None)" using s by (metis option.distinct(1))
    ultimately show ?thesis using d by simp
  next
    fix k s assume s: "q_map (cc_queue c) k = Some s"
      and "sl_attempts s = rp_max_attempts (effective_policy cc_policy)"
    moreover have "sl_attempts s = 0" using assms(2) s unfolding all_new_def by blast
    ultimately show ?thesis by (simp add: effective_policy_def)
  qed
qed

definition turn_settled :: "loop_report \<Rightarrow> bool" where
  "turn_settled r \<longleftrightarrow> td_action (lr_decision r) \<noteq> Tx_exhausted \<and>
     (lr_queued r \<noteq> None \<longrightarrow> lr_queued r = Some Queued \<and> td_action (lr_decision r) = Tx_send) \<and>
     (td_action (lr_decision r) = Tx_send \<longrightarrow> td_attempts (lr_decision r) = 1 \<and> lr_sent r = Some True \<and>
        lr_ack r = Some (f_sequence (td_frame (lr_decision r)), ack_accepted, Resolved_accepted))"

lemma all_new_enqueued:
  "q_map (cc_queue c) = [k \<mapsto> \<lparr>sl_frame = f, sl_deadline_ms = now, sl_attempts = 0, sl_active = True\<rparr>] \<Longrightarrow> all_new now c"
  by (simp add: all_new_def due_def deadline_reached_def)

section \<open>The other end of the bus\<close>

text \<open>
  What the controller relies on: the driver keeps its buffer, a command written to a node that
  is \<open>ready\<close> is received (\<open>got\<close>) and the next request returns its acknowledgement, and a request
  alone leaves the node ready.
\<close>

locale command_partner =
  fixes driver :: "'i \<Rightarrow> 'w two_wire"
    and rx :: "'w \<Rightarrow> u8 list"
    and ready :: "'w \<Rightarrow> bool"
    and got :: "'w \<Rightarrow> frame set"
  assumes fifo: "fifo_wire (driver i) rx"
    and answered: "ready w \<Longrightarrow> frame_wf f \<Longrightarrow> canonical f \<Longrightarrow> f_flags f AND kFlagAckRequired \<noteq> 0 \<Longrightarrow>
      \<exists>w1 w2 ack n. send_frame (wire_send (driver i) kNodeAddress_rcc) w f = Some (True, w1) \<and>
        receive_frame (wire_receive (driver i) kNodeAddress_rcc) w1 = Some (\<lparr>dr_frame = ack, dr_error = No_error\<rparr>, n, w2) \<and>
        parse_ack_frame ack = Some (Some (f_sequence f, ack_accepted)) \<and> f_node_id ack = kNodeId_rcc \<and>
        f_type ack = acknowledgement \<and> ready w2 \<and> f \<in> got w2"
    and polled: "ready w \<Longrightarrow> receive_frame (wire_receive (driver i) kNodeAddress_rcc) w = Some (r, n, w') \<Longrightarrow> ready w'"
begin

text \<open>A turn that transmits settles the command.\<close>

lemma answered_turn:
  assumes inv: "cc_inv c" "ready w" and loop: "controller_loop (driver i) now c w = Some (r, c', w')"
    and sent: "td_action (lr_decision r) = Tx_send" and poll: "now - cc_last_receive_ms c \<ge> kReceivePollMs"
  shows "lr_sent r = Some True \<and> lr_ack r = Some (f_sequence (td_frame (lr_decision r)), ack_accepted, Resolved_accepted) \<and>
    pending_count (cc_queue c') = 0 \<and> td_frame (lr_decision r) \<in> got w' \<and> cc_inv c' \<and> ready w'"
proof -
  obtain queued c1 where c1: "(if pending_count (cc_queue c) = 0 \<and> now - cc_last_command_ms c \<ge> kCommandIntervalMs
        then do { (r, c) \<leftarrow> enqueueCommand now (c\<lparr>cc_last_command_ms := now\<rparr>); Some (Some r, c) }
        else Some (None, c)) = Some (queued, c1)" "cc_inv c1" "cc_last_receive_ms c1 = cc_last_receive_ms c"
    by (rule enqueue_turn [OF inv(1)])
  obtain d q where d: "next_due (cc_queue c1) now = (d, q)" by (metis prod.exhaust)
  let ?sq = "cc_sequence c1 - 1" and ?c2 = "c1\<lparr>cc_queue := q\<rparr>"
  have dr: "lr_decision r = d" using loop_parts [OF loop c1(1)] d by simp
  have f: "td_frame d = queued_command ?sq" and i2: "cc_inv ?c2"
    using next_due_effect [OF c1(2) d] sent dr by simp_all
  have pend: "q_map q (0, ?sq) \<noteq> None" using next_due_pending [OF c1(2) d] sent dr by simp
  obtain w1 w2 ack n where w: "send_frame (wire_send (driver i) kNodeAddress_rcc) w (queued_command ?sq) = Some (True, w1)"
    "receive_frame (wire_receive (driver i) kNodeAddress_rcc) w1 = Some (\<lparr>dr_frame = ack, dr_error = No_error\<rparr>, n, w2)"
    "parse_ack_frame ack = Some (Some (f_sequence (queued_command ?sq), ack_accepted))" "f_node_id ack = kNodeId_rcc"
    "f_type ack = acknowledgement" "ready w2" "queued_command ?sq \<in> got w2"
    using answered [OF inv(2) queued_command_wf, of ?sq i] by auto
  let ?c3 = "?c2\<lparr>cc_last_receive_ms := now\<rparr>"
  obtain res q' where a: "acknowledge (cc_queue ?c3) 0 ?sq ack_accepted = (res, q')" by (metis prod.exhaust)
  have i3: "cc_inv ?c3" using i2 by simp
  note eff = acknowledge_effect [OF i3 a]
  have res: "res = Resolved_accepted" using eff(3) pend by simp
  have i4: "cc_inv (?c3\<lparr>cc_queue := q'\<rparr>)" by (rule eff(1))
  have "q_map q' k = None" for k
    using eff(2) cc_invD(3) [OF i2, of k] by (cases "q_map q k") (auto simp: fun_upd_def)
  then have none: "pending_count (cc_queue (?c3\<lparr>cc_queue := q'\<rparr>)) = 0"
    using cc_pending_count(2) [OF i4] by auto
  have tx: "transmitDue (driver i) now c1 w = Some (d, Some True, ?c2, w1)"
    using d sent dr w(1) by (simp add: transmitDue_def f)
  have rx: "receiveAcknowledgement (driver i) ?c3 w1 = Some (Some (?sq, ack_accepted, res), ?c3\<lparr>cc_queue := q'\<rparr>, w2)"
    using w(2-5) a by (simp add: receiveAcknowledgement_def decode_ok_def kNodeId_rcc_def)
  have "controller_loop (driver i) now c w = Some (\<lparr>lr_queued = queued, lr_decision = d, lr_sent = Some True,
      lr_ack = Some (?sq, ack_accepted, res)\<rparr>, ?c3\<lparr>cc_queue := q'\<rparr>, w2)"
    unfolding controller_loop_def c1(1) using poll c1(3) by (simp add: tx rx)
  with loop have r: "r = \<lparr>lr_queued = queued, lr_decision = d, lr_sent = Some True,
      lr_ack = Some (?sq, ack_accepted, res)\<rparr>" "c' = ?c3\<lparr>cc_queue := q'\<rparr>" "w' = w2" by simp_all
  with none i4 res f w(6,7) show ?thesis by simp
qed

text \<open>A poll without a command in flight: whatever the node serves settles nothing.\<close>

lemma idle_receive:
  assumes inv: "cc_inv c" "ready w" and none: "q_map (cc_queue c) = (\<lambda>_. None)"
  shows "\<exists>ack c' w'. receiveAcknowledgement (driver i) c w = Some (ack, c', w') \<and> cc_inv c' \<and>
    q_map (cc_queue c') = (\<lambda>_. None) \<and> ready w'"
proof -
  note tr = wire_transport [OF fifo, of i kNodeAddress_rcc]
  obtain r n w' where r: "receive_frame (wire_receive (driver i) kNodeAddress_rcc) w = Some (r, n, w')"
    using transport.receive_frame_defined [OF tr] by blast
  obtain parsed where p: "parse_ack_frame (dr_frame r) = Some parsed"
    using parse_ack_defined [OF transport.receive_frame_wf [OF tr r]] by blast
  note idle = polled [OF inv(2) r]
  show ?thesis
  proof (cases "decode_ok r \<and> f_type (dr_frame r) = acknowledgement \<and> parsed \<noteq> None")
    case False
    with r p inv(1) none idle show ?thesis by (cases parsed) (auto simp: receiveAcknowledgement_def)
  next
    case True
    then obtain sq st where ack: "parsed = Some (sq, st)" by auto
    obtain res q where a: "acknowledge (cc_queue c) (f_node_id (dr_frame r)) sq st = (res, q)" by (metis prod.exhaust)
    have "q_map q = (\<lambda>_. None)" using acknowledge_effect(2) [OF inv(1) a] none by (simp add: fun_eq_iff)
    with r p True ack a acknowledge_effect(1) [OF inv(1) a] idle show ?thesis
      by (simp add: receiveAcknowledgement_def)
  qed
qed

lemma settled_turn:
  assumes inv: "cc_inv c" "ready w"
    and new: "all_new now c" and poll: "now - cc_last_receive_ms c \<ge> kReceivePollMs"
  shows "\<exists>r c' w'. controller_loop (driver i) now c w = Some (r, c', w') \<and> turn_settled r \<and>
    cc_inv c' \<and> pending_count (cc_queue c') = 0 \<and> cc_last_receive_ms c' = now \<and> ready w'"
proof -
  obtain queued c1 where c1: "(if pending_count (cc_queue c) = 0 \<and> now - cc_last_command_ms c \<ge> kCommandIntervalMs
        then do { (r, c) \<leftarrow> enqueueCommand now (c\<lparr>cc_last_command_ms := now\<rparr>); Some (Some r, c) }
        else Some (None, c)) = Some (queued, c1)" "cc_inv c1" "queued = None \<or> queued = Some Queued"
    "cc_last_receive_ms c1 = cc_last_receive_ms c" "queued = None \<longrightarrow> c1 = c"
    "queued \<noteq> None \<longrightarrow> (\<exists>k f. q_map (cc_queue c1) =
       [k \<mapsto> \<lparr>sl_frame = f, sl_deadline_ms = now, sl_attempts = 0, sl_active = True\<rparr>])"
    by (rule enqueue_turn [OF inv(1)])
  have new1: "all_new now c1" using c1(5,6) new all_new_enqueued by blast
  have some1: "queued \<noteq> None \<Longrightarrow> q_map (cc_queue c1) \<noteq> (\<lambda>_. None)"
    using c1(6) by (metis fun_upd_same option.distinct(1))
  obtain d q where d: "next_due (cc_queue c1) now = (d, q)" by (metis prod.exhaust)
  obtain r c' w' where loop: "controller_loop (driver i) now c w = Some (r, c', w')" "cc_inv c'"
    using controller_loop_ok [OF fifo inv(1)] by blast
  have parts: "lr_queued r = queued" "lr_decision r = d" "cc_last_receive_ms c' = now"
    using loop_parts [OF loop(1) c1(1)] d poll c1(4) by simp_all
  from new_sent_first [OF c1(2) new1 d] show ?thesis
  proof (elim disjE conjE)
    assume send: "td_action d = Tx_send" "td_attempts d = 1"
    from answered_turn [OF inv loop(1) _ poll] send parts c1(3) loop show ?thesis
      by (auto simp: turn_settled_def)
  next
    assume none: "q_map (cc_queue c1) = (\<lambda>_. None)" "d = TxDecision" "q_map q = (\<lambda>_. None)"
    let ?c2 = "c1\<lparr>cc_queue := q\<rparr>" and ?c3 = "c1\<lparr>cc_queue := q, cc_last_receive_ms := now\<rparr>"
    have "transmitDue (driver i) now c1 w = Some (d, None, ?c2, w)"
      using d none(2) by (simp add: transmitDue_def TxDecision_def)
    moreover have "cc_inv ?c3" using next_due_effect(1) [OF c1(2) d] cc_inv_times(2) [of now ?c2] by simp
    then obtain ack c4 w4 where a: "receiveAcknowledgement (driver i) ?c3 w = Some (ack, c4, w4)" "cc_inv c4"
      "q_map (cc_queue c4) = (\<lambda>_. None)" "ready w4"
      using idle_receive [of ?c3 w i] inv none(3) by auto
    ultimately have "controller_loop (driver i) now c w =
        Some (\<lparr>lr_queued = queued, lr_decision = d, lr_sent = None, lr_ack = ack\<rparr>, c4, w4)"
      unfolding controller_loop_def c1(1) using poll c1(4) by simp
    with loop(1) have "c' = c4" "w' = w4" by simp_all
    moreover have "queued = None" using some1 none(1) by blast
    ultimately show ?thesis
      using a cc_pending_count(2) [OF a(2)] loop parts none(2) by (simp add: turn_settled_def TxDecision_def)
  qed
qed

lemma system_runs:
  "cc_inv c \<Longrightarrow> ready w \<Longrightarrow> paced (cc_last_receive_ms c) (map snd inputs) \<Longrightarrow>
   (\<forall>i rest. inputs = i # rest \<longrightarrow> all_new (snd i) c) \<Longrightarrow>
   \<exists>reports c' w'. run (system_step driver) (c, w) inputs = Some (reports, c', w') \<and> (\<forall>r\<in>set reports. turn_settled r) \<and>
     (inputs \<noteq> [] \<longrightarrow> pending_count (cc_queue c') = 0) \<and> ready w'"
proof (induction inputs arbitrary: c w)
  case Nil
  then show ?case by simp
next
  case (Cons i inputs)
  obtain r c1 w1 where t: "controller_loop (driver (fst i)) (snd i) c w = Some (r, c1, w1)"
    "turn_settled r" "cc_inv c1" "pending_count (cc_queue c1) = 0" "cc_last_receive_ms c1 = snd i"
    "ready w1"
    using settled_turn [OF Cons.prems(1,2), of "snd i" "fst i"] Cons.prems(3,4) by auto
  have "q_map (cc_queue c1) = (\<lambda>_. None)" using cc_pending_count(2) [OF t(3)] t(4) by simp
  then have "all_new now c1" for now by (simp add: all_new_def)
  with Cons.IH [OF t(3,6)] Cons.prems(3) t(5) obtain reports c' w' where
    "run (system_step driver) (c1, w1) inputs = Some (reports, c', w')" "\<forall>r\<in>set reports. turn_settled r"
    "inputs \<noteq> [] \<longrightarrow> pending_count (cc_queue c') = 0" "ready w'" by auto
  moreover from this(1) have "inputs = [] \<Longrightarrow> c' = c1" by simp
  moreover have "system_step driver (c, w) i = Some (r, c1, w1)" using t(1) by (simp add: system_step_def)
  ultimately show ?case
    using t(2,4) by (intro exI [of _ "r # reports"] exI [of _ c'] exI [of _ w']) auto
qed

text \<open>The closed system, from \<open>setup\<close> on.\<close>

lemma started_system:
  assumes "controller_setup t0 = Some (r0, c0)" and "ready w0"
    and "inputs = i # rest" and "deadline_reached (snd i) t0" and "paced 0 (map snd inputs)"
  shows "\<exists>r reports c w. run (system_step driver) (c0, w0) inputs = Some (r # reports, c, w) \<and>
    (\<forall>r\<in>set (r # reports). turn_settled r) \<and> pending_count (cc_queue c) = 0 \<and> ready w"
proof -
  have c0: "cc_inv c0" "cc_last_receive_ms c0 = 0" "q_map (cc_queue c0) =
      [(0, 0) \<mapsto> \<lparr>sl_frame = queued_command 0, sl_deadline_ms = t0, sl_attempts = 0, sl_active = True\<rparr>]"
    using controller_setup_ok [of t0] assms(1) by auto
  have "all_new (snd i) c0" using assms(4) by (simp add: all_new_def c0(3) due_def)
  with system_runs [OF c0(1) assms(2), of inputs] assms(3,5) c0(2) obtain reports c w where
    r: "run (system_step driver) (c0, w0) inputs = Some (reports, c, w)" "\<forall>r\<in>set reports. turn_settled r"
    "pending_count (cc_queue c) = 0" "ready w" by auto
  moreover have "length reports = Suc (length rest)" using run_length [OF r(1)] assms(3) by simp
  then obtain r' rs where "reports = r' # rs" by (auto simp: length_Suc_conv)
  ultimately show ?thesis by blast
qed

end

end
