(* ===== verification/Pico_Endpoint.thy ===== *)
theory Pico_Endpoint
  imports Wire_Format
begin

text \<open>
  The I2C peripheral mailbox of the Pico port (class \<open>I2cPeripheralEndpoint\<close> of
  \<open>ports/pico-sdk/picomesh_pico_transport.h\<close> and \<open>.cpp\<close>): its double buffers, the interrupt
  handler, \<open>publish\<close> and \<open>poll\<close>, and the table of attached endpoints.

  The Pico SDK and the hardware are outside the repository: the values read from registers
  are arguments, the accesses made are a log, and the bit masks of the SDK headers are a
  parameter (\<open>irq_masks\<close>).
\<close>

section \<open>State\<close>

text \<open>\<open>i2c_inst_t*\<close>: the two controllers \<open>i2c0\<close> and \<open>i2c1\<close>, or any other object.\<close>

datatype i2c_inst = I2c0 | I2c1 | I2c_other

record i2c_endpoint =
  ep_instance :: "i2c_inst option"
  ep_instance_index :: u8
  ep_rx_buffers :: "u8 list list"
  ep_rx_lengths :: "u8 list"
  ep_rx_write_index :: u8
  ep_rx_ready_index :: u8
  ep_rx_ready :: bool
  ep_tx_buffers :: "u8 list list"
  ep_tx_lengths :: "u8 list"
  ep_tx_active_index :: u8
  ep_tx_index :: u8
  ep_dropped_frames :: u32

definition I2cPeripheralEndpoint :: i2c_endpoint where
  "I2cPeripheralEndpoint =
     \<lparr>ep_instance = None, ep_instance_index = 0,
      ep_rx_buffers = replicate 2 (replicate kMaxEncodedFrameSize 0), ep_rx_lengths = [0, 0],
      ep_rx_write_index = 0, ep_rx_ready_index = 0, ep_rx_ready = False,
      ep_tx_buffers = replicate 2 (replicate kMaxEncodedFrameSize 0), ep_tx_lengths = [0, 0],
      ep_tx_active_index = 0, ep_tx_index = 0, ep_dropped_frames = 0\<rparr>"

text \<open>Elements of an array of arrays.\<close>

definition rd2 :: "'a list list \<Rightarrow> nat \<Rightarrow> nat \<Rightarrow> 'a option" where
  "rd2 xss i j = do { xs \<leftarrow> rd xss i; rd xs j }"

definition wr2 :: "'a list list \<Rightarrow> nat \<Rightarrow> nat \<Rightarrow> 'a \<Rightarrow> 'a list list option" where
  "wr2 xss i j x = do { xs \<leftarrow> rd xss i; xs' \<leftarrow> wr xs j x; wr xss i xs' }"

section \<open>The interrupt handler\<close>

text \<open>The masks \<open>I2C_IC_RAW_INTR_STAT_*_BITS\<close> of the SDK's register headers.\<close>

record irq_masks =
  rx_full_bits :: u32
  rd_req_bits :: u32
  stop_det_bits :: u32
  tx_abrt_bits :: u32
  rx_over_bits :: u32

text \<open>The register accesses of the handler; a byte written to \<open>data_cmd\<close> is zero-extended.\<close>

datatype hw_access =
    Read_raw_intr_stat | Read_data_cmd | Write_data_cmd u8 | Read_clr_rd_req
  | Read_clr_stop_det | Read_clr_tx_abrt | Read_clr_rx_over

definition complete_receive_from_isr :: "i2c_endpoint \<Rightarrow> i2c_endpoint option" where
  "complete_receive_from_isr e = do {
     let write_index = ep_rx_write_index e;
     l \<leftarrow> rd (ep_rx_lengths e) (unat write_index);
     if l = 0 then Some e
     else if ep_rx_ready e then do {
       ls \<leftarrow> wr (ep_rx_lengths e) (unat write_index) 0;
       Some (e\<lparr>ep_rx_lengths := ls, ep_dropped_frames := ep_dropped_frames e + 1\<rparr>)
     }
     else do {
       let e = e\<lparr>ep_rx_ready_index := write_index, ep_rx_ready := True,
                 ep_rx_write_index := write_index XOR 1\<rparr>;
       ls \<leftarrow> wr (ep_rx_lengths e) (unat (ep_rx_write_index e)) 0;
       Some (e\<lparr>ep_rx_lengths := ls\<rparr>)
     }
   }"

text \<open>The five parts of \<open>handle_irq\<close>, one per status bit.\<close>

definition irq_rx_full :: "u32 \<Rightarrow> i2c_endpoint \<Rightarrow> i2c_endpoint option" where
  "irq_rx_full data_cmd e = do {
     let byte = ucast data_cmd;
     let write_index = unat (ep_rx_write_index e);
     l \<leftarrow> rd (ep_rx_lengths e) write_index;
     if unat l < kMaxEncodedFrameSize then do {
       bufs \<leftarrow> wr2 (ep_rx_buffers e) write_index (unat l) byte;
       ls \<leftarrow> wr (ep_rx_lengths e) write_index (l + 1);
       Some (e\<lparr>ep_rx_buffers := bufs, ep_rx_lengths := ls\<rparr>)
     }
     else Some (e\<lparr>ep_dropped_frames := ep_dropped_frames e + 1\<rparr>)
   }"

definition irq_rd_req :: "i2c_endpoint \<Rightarrow> (u8 \<times> i2c_endpoint) option" where
  "irq_rd_req e = do {
     let active = unat (ep_tx_active_index e);
     l \<leftarrow> rd (ep_tx_lengths e) active;
     if ep_tx_index e < l then do {
       v \<leftarrow> rd2 (ep_tx_buffers e) active (unat (ep_tx_index e));
       Some (v, e\<lparr>ep_tx_index := ep_tx_index e + 1\<rparr>)
     }
     else Some (0, e)
   }"

definition irq_stop_det :: "i2c_endpoint \<Rightarrow> i2c_endpoint option" where
  "irq_stop_det e = do {
     e \<leftarrow> complete_receive_from_isr e;
     Some (e\<lparr>ep_tx_index := 0\<rparr>)
   }"

definition irq_tx_abrt :: "i2c_endpoint \<Rightarrow> i2c_endpoint" where
  "irq_tx_abrt e = e\<lparr>ep_tx_index := 0\<rparr>"

definition irq_rx_over :: "i2c_endpoint \<Rightarrow> i2c_endpoint" where
  "irq_rx_over e = e\<lparr>ep_dropped_frames := ep_dropped_frames e + 1\<rparr>"

definition handle_irq ::
  "irq_masks \<Rightarrow> u32 \<Rightarrow> u32 \<Rightarrow> i2c_endpoint \<Rightarrow> (hw_access list \<times> i2c_endpoint) option" where
  "handle_irq k status data_cmd e = do {
     (rx, e) \<leftarrow> (if status AND rx_full_bits k \<noteq> 0
       then do { e \<leftarrow> irq_rx_full data_cmd e; Some ([Read_data_cmd], e) }
       else Some ([], e));
     (rd, e) \<leftarrow> (if status AND rd_req_bits k \<noteq> 0
       then do { (v, e) \<leftarrow> irq_rd_req e; Some ([Read_clr_rd_req, Write_data_cmd v], e) }
       else Some ([], e));
     (stop, e) \<leftarrow> (if status AND stop_det_bits k \<noteq> 0
       then do { e \<leftarrow> irq_stop_det e; Some ([Read_clr_stop_det], e) }
       else Some ([], e));
     (abrt, e) \<leftarrow> (if status AND tx_abrt_bits k \<noteq> 0
       then Some ([Read_clr_tx_abrt], irq_tx_abrt e) else Some ([], e));
     (over, e) \<leftarrow> (if status AND rx_over_bits k \<noteq> 0
       then Some ([Read_clr_rx_over], irq_rx_over e) else Some ([], e));
     Some (Read_raw_intr_stat # rx @ rd @ stop @ abrt @ over, e)
   }"

section \<open>The main program's calls\<close>

text \<open>
  \<open>publish\<close> fills the inactive buffer with interrupts enabled and then switches buffers in a
  critical section, so it is given in the steps between which an interrupt may occur:
  choosing the buffer, copying byte \<open>i\<close>, and the critical section.
\<close>

definition pub_begin :: "i2c_endpoint \<Rightarrow> frame \<Rightarrow> (encoded_frame \<times> u8) option option" where
  "pub_begin e f = do {
     encoded \<leftarrow> encode_frame f;
     if ef_length encoded = 0 \<or> ef_length encoded > kMaxEncodedFrameSize then Some None
     else Some (Some (encoded, ep_tx_active_index e XOR 1))
   }"

definition pub_copy_byte :: "encoded_frame \<Rightarrow> u8 \<Rightarrow> nat \<Rightarrow> i2c_endpoint \<Rightarrow> i2c_endpoint option" where
  "pub_copy_byte encoded inactive i e = do {
     b \<leftarrow> rd (ef_bytes encoded) i;
     bufs \<leftarrow> wr2 (ep_tx_buffers e) (unat inactive) i b;
     Some (e\<lparr>ep_tx_buffers := bufs\<rparr>)
   }"

definition pub_commit :: "encoded_frame \<Rightarrow> u8 \<Rightarrow> i2c_endpoint \<Rightarrow> (bool \<times> i2c_endpoint) option" where
  "pub_commit encoded inactive e =
     (if ep_tx_index e \<noteq> 0 then Some (False, e)
      else do {
        ls \<leftarrow> wr (ep_tx_lengths e) (unat inactive) (of_nat (ef_length encoded));
        Some (True, e\<lparr>ep_tx_lengths := ls, ep_tx_active_index := inactive\<rparr>)
      })"

fun pub_copy_loop :: "encoded_frame \<Rightarrow> u8 \<Rightarrow> nat \<Rightarrow> nat \<Rightarrow> i2c_endpoint \<Rightarrow> i2c_endpoint option" where
  "pub_copy_loop encoded inactive i 0 e = Some e"
| "pub_copy_loop encoded inactive i (Suc n) e = do {
     e \<leftarrow> pub_copy_byte encoded inactive i e;
     pub_copy_loop encoded inactive (Suc i) n e
   }"

definition ep_publish :: "i2c_endpoint \<Rightarrow> frame \<Rightarrow> (bool \<times> i2c_endpoint) option" where
  "ep_publish e f = do {
     r \<leftarrow> pub_begin e f;
     case r of
       None \<Rightarrow> Some (False, e)
     | Some (encoded, inactive) \<Rightarrow> do {
         e \<leftarrow> pub_copy_loop encoded inactive 0 (ef_length encoded) e;
         pub_commit encoded inactive e
       }
   }"

text \<open>
  \<open>poll\<close> with its out-parameters: the caller's frame and, unless the pointer is null, error.
  Its access to the buffers is one critical section.
\<close>

definition ep_poll ::
  "i2c_endpoint \<Rightarrow> frame \<Rightarrow> decode_error option \<Rightarrow>
   (bool \<times> frame \<times> decode_error option \<times> i2c_endpoint) option" where
  "ep_poll e frame err =
     (if \<not> ep_rx_ready e then Some (False, frame, err, e)
      else do {
        let ready_index = unat (ep_rx_ready_index e);
        local_length \<leftarrow> rd (ep_rx_lengths e) ready_index;
        buf \<leftarrow> rd (ep_rx_buffers e) ready_index;
        local_bytes \<leftarrow> copy_n buf 0 (unat local_length) (replicate kMaxEncodedFrameSize 0) 0;
        ls \<leftarrow> wr (ep_rx_lengths e) ready_index 0;
        let e = e\<lparr>ep_rx_lengths := ls, ep_rx_ready := False\<rparr>;
        decoded \<leftarrow> decode_frame (Some local_bytes) (unat local_length);
        if \<not> decode_ok decoded
        then Some (False, frame, map_option (\<lambda>_. dr_error decoded) err, e)
        else Some (True, dr_frame decoded, map_option (\<lambda>_. No_error) err, e)
      })"

definition has_pending_frame :: "i2c_endpoint \<Rightarrow> bool" where
  "has_pending_frame e = ep_rx_ready e"

definition dropped_frames :: "i2c_endpoint \<Rightarrow> u32" where
  "dropped_frames e = ep_dropped_frames e"

section \<open>Attaching endpoints\<close>

text \<open>
  The endpoint objects, by number, and the static table \<open>endpoints_\<close>; the calls into the SDK
  that \<open>begin\<close> makes are a log.
\<close>

datatype sdk_call =
    I2c_set_slave_mode i2c_inst bool u8 | Irq_set_exclusive_handler nat | Irq_set_enabled nat bool
  | Write_intr_mask i2c_inst u32

record pico_state =
  ps_objects :: "i2c_endpoint list"
  ps_endpoints :: "nat option list"

definition ep_begin ::
  "u32 \<Rightarrow> pico_state \<Rightarrow> nat \<Rightarrow> i2c_inst option \<Rightarrow> u8 \<Rightarrow> (bool \<times> sdk_call list \<times> pico_state) option" where
  "ep_begin enable s this inst address = (case inst of
     None \<Rightarrow> Some (False, [], s)
   | Some i \<Rightarrow>
     if address > 0x7f then Some (False, [], s)
     else do {
       let index = (if i = I2c0 then 0 else if i = I2c1 then 1 else 0xff :: u8);
       if index > 1 then Some (False, [], s)
       else do {
         attached \<leftarrow> rd (ps_endpoints s) (unat index);
         if attached \<noteq> None \<and> attached \<noteq> Some this then Some (False, [], s)
         else do {
           obj \<leftarrow> rd (ps_objects s) this;
           objs \<leftarrow> wr (ps_objects s) this (obj\<lparr>ep_instance := inst, ep_instance_index := index\<rparr>);
           eps \<leftarrow> wr (ps_endpoints s) (unat index) (Some this);
           Some (True,
             [I2c_set_slave_mode i True address, Irq_set_exclusive_handler (unat index),
              Irq_set_enabled (unat index) True, Write_intr_mask i enable],
             \<lparr>ps_objects = objs, ps_endpoints = eps\<rparr>)
         }
       }
     })"

text \<open>
  \<open>i2c0_irq_handler\<close> and \<open>i2c1_irq_handler\<close> (\<open>n\<close> = 0, 1). The handler of an endpoint reads the
  registers of the controller it is attached to: \<open>hw i\<close> is the status and the data register of
  controller \<open>i\<close> at that moment.
\<close>

definition irq_dispatch ::
  "irq_masks \<Rightarrow> (i2c_inst \<Rightarrow> u32 \<times> u32) \<Rightarrow> nat \<Rightarrow> pico_state \<Rightarrow> (hw_access list \<times> pico_state) option" where
  "irq_dispatch k hw n s = do {
     attached \<leftarrow> rd (ps_endpoints s) n;
     case attached of
       None \<Rightarrow> Some ([], s)
     | Some this \<Rightarrow> do {
         obj \<leftarrow> rd (ps_objects s) this;
         inst \<leftarrow> ep_instance obj;
         let (status, data_cmd) = hw inst;
         (accesses, obj) \<leftarrow> handle_irq k status data_cmd obj;
         objs \<leftarrow> wr (ps_objects s) this obj;
         Some (accesses, s\<lparr>ps_objects := objs\<rparr>)
       }
   }"

end
