(* ===== verification/Endpoint_Client.thy ===== *)
theory Endpoint_Client
  imports Reliability
begin

text \<open>
  The peripheral side above the ports: what the two endpoint classes promise to a program
  (locale \<open>endpoint\<close>), and what the two node programs do with it - \<open>examples/PicoSdkI2cNode\<close>
  and \<open>examples/ArduinoHeartbeatNode\<close> have the same heartbeat and the same answer to a
  received frame, over different endpoints and clocks.
\<close>

section \<open>The programs' common code\<close>

type_synonym 'e publisher = "'e \<Rightarrow> frame \<Rightarrow> (bool \<times> 'e) option"
type_synonym 'e poller =
  "'e \<Rightarrow> frame \<Rightarrow> decode_error option \<Rightarrow> (bool \<times> frame \<times> decode_error option \<times> 'e) option"

definition heartbeat_frame :: "u8 \<Rightarrow> u8 \<Rightarrow> u32 \<Rightarrow> frame option" where
  "heartbeat_frame node_id sequence uptime = do {
     let hb = Frame\<lparr>f_type := heartbeat, f_node_id := node_id, f_sequence := sequence,
                           f_payload_length := 4\<rparr>;
     payload \<leftarrow> wr (f_payload hb) 0 (ucast uptime);
     payload \<leftarrow> wr payload 1 (ucast (drop_bit 8 uptime));
     payload \<leftarrow> wr payload 2 (ucast (drop_bit 16 uptime));
     payload \<leftarrow> wr payload 3 (ucast (drop_bit 24 uptime));
     Some (hb\<lparr>f_payload := payload\<rparr>)
   }"

text \<open>The state that the two functions share: the endpoint and \<open>sequence_number\<close>.\<close>

definition publish_uptime ::
  "'e publisher \<Rightarrow> u8 \<Rightarrow> u32 \<Rightarrow> 'e \<times> u8 \<Rightarrow> ('e \<times> u8) option" where
  "publish_uptime publish node_id uptime s = do {
     let (e, sequence_number) = s;
     f \<leftarrow> heartbeat_frame node_id sequence_number uptime;
     (_, e) \<leftarrow> publish e f;
     Some (e, sequence_number + 1)
   }"

text \<open>\<open>if (endpoint.poll(incoming)) { ... }\<close>; the result tells the frame that was received.\<close>

definition answer_incoming ::
  "'e publisher \<Rightarrow> 'e poller \<Rightarrow> u8 \<Rightarrow> 'e \<times> u8 \<Rightarrow> (frame option \<times> 'e \<times> u8) option" where
  "answer_incoming publish poll node_id s = do {
     let (e, sequence_number) = s;
     (ok, incoming, _, e) \<leftarrow> poll e Frame None;
     if \<not> ok then Some (None, e, sequence_number)
     else if f_flags incoming AND kFlagAckRequired \<noteq> 0 then do {
       ack \<leftarrow> make_ack_frame node_id sequence_number (f_sequence incoming) ack_accepted;
       (_, e) \<leftarrow> publish e ack;
       Some (Some incoming, e, sequence_number + 1)
     }
     else Some (Some incoming, e, sequence_number)
   }"

text \<open>One turn of a main loop: the heartbeat when it is due, then the answer.\<close>

definition node_turn ::
  "'e publisher \<Rightarrow> 'e poller \<Rightarrow> u8 \<Rightarrow> bool \<Rightarrow> u32 \<Rightarrow> 'e \<times> u8 \<Rightarrow> (frame option \<times> 'e \<times> u8) option" where
  "node_turn publish poll node_id due uptime s = do {
     s \<leftarrow> (if due then publish_uptime publish node_id uptime s else Some s);
     answer_incoming publish poll node_id s
   }"

section \<open>Their frames\<close>

lemma make_ack_frame_eq:
  "make_ack_frame n rs s st = Some (Frame\<lparr>f_type := acknowledgement, f_node_id := n, f_sequence := rs,
     f_payload_length := 2, f_payload := [s, ack_byte st] @ replicate 30 0\<rparr>)"
  by (simp add: make_ack_frame_def Frame_def ub_simps zeros_32)

lemma ack_canonical:
  "make_ack_frame n rs s st = Some f \<Longrightarrow> canonical f \<and> frame_wf f"
  by (auto simp: make_ack_frame_eq canonical_def frame_wf_def)

lemma ack_parsed:
  "make_ack_frame n rs s ack_accepted = Some f \<Longrightarrow>
   parse_ack_frame f = Some (Some (s, ack_accepted)) \<and> f_node_id f = n \<and> f_sequence f = rs \<and>
   f_type f = acknowledgement"
  by (auto simp: make_ack_frame_eq parse_ack_frame_def ub_simps ack_accepted_def ack_malformed_def)

lemma heartbeat_frame_eq:
  "\<exists>f. heartbeat_frame n s t = Some f \<and> canonical f \<and> frame_wf f \<and> f_type f = heartbeat \<and> f_node_id f = n \<and>
     f_sequence f = s \<and> f_payload_length f = 4 \<and>
     f_payload f = [ucast t, ucast (drop_bit 8 t), ucast (drop_bit 16 t), ucast (drop_bit 24 t)] @ replicate 28 0"
  by (simp add: heartbeat_frame_def Frame_def ub_simps canonical_def frame_wf_def Let_def zeros_32)

text \<open>The two frames that the programs publish, given outright.\<close>

definition uptime_frame :: "u8 \<Rightarrow> u8 \<Rightarrow> u32 \<Rightarrow> frame" where
  "uptime_frame n s t = Frame\<lparr>f_type := heartbeat, f_node_id := n, f_sequence := s, f_payload_length := 4,
     f_payload := [ucast t, ucast (drop_bit 8 t), ucast (drop_bit 16 t), ucast (drop_bit 24 t)] @ replicate 28 0\<rparr>"

definition answer_frame :: "u8 \<Rightarrow> u8 \<Rightarrow> u8 \<Rightarrow> frame" where
  "answer_frame n s acknowledged = Frame\<lparr>f_type := acknowledgement, f_node_id := n, f_sequence := s,
     f_payload_length := 2, f_payload := [acknowledged, ack_byte ack_accepted] @ replicate 30 0\<rparr>"

lemma heartbeat_frame_uptime: "heartbeat_frame n s t = Some (uptime_frame n s t)"
  by (simp add: heartbeat_frame_def uptime_frame_def Frame_def ub_simps Let_def zeros_32)

lemma make_ack_frame_answer: "make_ack_frame n s a ack_accepted = Some (answer_frame n s a)"
  by (simp add: make_ack_frame_eq answer_frame_def)

lemma program_frames [shape]:
  "frame_wf (uptime_frame n s t)" "length (wire_image (uptime_frame n s t)) = 12"
  "frame_wf (answer_frame n s a)" "length (wire_image (answer_frame n s a)) = 10"
  by (simp_all add: uptime_frame_def answer_frame_def frame_wf_def shape wire_len_def Frame_def)

text \<open>Little-endian numbers; the bytes that the programs take out of the uptime give it back.\<close>

definition le32 :: "u8 \<Rightarrow> u8 \<Rightarrow> u8 \<Rightarrow> u8 \<Rightarrow> nat" where
  "le32 a b c d = unat a + 256 * (unat b + 256 * (unat c + 256 * unat d))"

lemma unat_byte: "unat (ucast (drop_bit k (x :: u32)) :: u8) = unat x div 2 ^ k mod 256"
proof -
  have "unat (drop_bit k x) = unat x div 2 ^ k" by (simp only: unat_drop_bit_eq) (simp only: drop_bit_eq_div)
  then show ?thesis by (simp add: unsigned_ucast_eq take_bit_eq_mod)
qed

lemma base_256:
  assumes "n < 4294967296"
  shows "n mod 256 + 256 * (n div 256 mod 256 + 256 * (n div 65536 mod 256 + 256 * (n div 16777216 mod 256))) = (n :: nat)"
proof -
  have "n div 65536 = n div 256 div 256" "n div 16777216 = n div 256 div 256 div 256"
    by (simp_all add: div_mult2_eq [symmetric])
  moreover have "n div 256 div 256 div 256 < 256"
    using assms by (simp add: div_mult2_eq [symmetric] less_mult_imp_div_less)
  ultimately show ?thesis by (metis mod_less mod_mult_div_eq)
qed

lemma le32_bytes:
  "le32 (ucast (x :: u32)) (ucast (drop_bit 8 x)) (ucast (drop_bit 16 x)) (ucast (drop_bit 24 x)) = unat x"
proof -
  have "unat x < 4294967296" using unsigned_less [of x] by simp
  from base_256 [OF this] show ?thesis
    using unat_byte [of 0 x] unat_byte [of 8 x] unat_byte [of 16 x] unat_byte [of 24 x]
    unfolding le32_def by (simp only:) simp
qed

lemma heartbeat_no_ack: "heartbeat_frame n s t = Some f \<Longrightarrow> f_type f \<noteq> acknowledgement"
  using heartbeat_frame_eq [of n s t] by (auto simp: message_type_defs)

text \<open>A command that asks for an acknowledgement.\<close>

definition ack_command :: frame where
  "ack_command = Frame\<lparr>f_type := command, f_flags := 1, f_sequence := 5\<rparr>"

section \<open>The contract of an endpoint\<close>

text \<open>What \<open>poll\<close> hands to its caller, from the bytes that are pending.\<close>

definition poll_answer ::
  "u8 list option \<Rightarrow> frame \<Rightarrow> decode_error option \<Rightarrow> bool \<times> frame \<times> decode_error option" where
  "poll_answer pending frame err = (case pending of
     None \<Rightarrow> (False, frame, err)
   | Some bs \<Rightarrow> (case decode_spec bs of
       Inl e \<Rightarrow> (False, frame, map_option (\<lambda>_. e) err)
     | Inr f \<Rightarrow> (True, f, map_option (\<lambda>_. No_error) err)))"

lemma decode_error_real: "decode_spec bs = Inl e \<Longrightarrow> e \<noteq> No_error"
  using decode_spec_not_No_error by auto

text \<open>The frame that a turn receives, and whether it asks for an acknowledgement.\<close>

definition incoming_frame :: "u8 list option \<Rightarrow> frame option" where
  "incoming_frame pending = (case pending of
     None \<Rightarrow> None
   | Some bs \<Rightarrow> (case decode_spec bs of Inl e \<Rightarrow> None | Inr f \<Rightarrow> Some f))"

definition wants_ack :: "frame option \<Rightarrow> bool" where
  "wants_ack incoming = (case incoming of None \<Rightarrow> False | Some f \<Rightarrow> f_flags f AND kFlagAckRequired \<noteq> 0)"

lemma poll_answer_incoming:
  "fst (poll_answer pending fr err) \<longleftrightarrow> incoming_frame pending \<noteq> None"
  "incoming_frame pending = Some f \<Longrightarrow> fst (snd (poll_answer pending fr err)) = f"
  by (auto simp: poll_answer_def incoming_frame_def split: option.splits sum.splits)

lemma incoming_encoded: "frame_wf f \<Longrightarrow> incoming_frame (Some (encoded_bytes f)) = Some (canon f)"
  by (simp add: incoming_frame_def encoded_bytes_image codec.dec_enc)

text \<open>
  An endpoint holds the bytes of one written frame and the frame that it serves. \<open>publish\<close>
  replaces the latter when it is \<open>free\<close> to; \<open>poll\<close> takes the former and decodes it.
\<close>

locale endpoint =
  fixes inv :: "'e \<Rightarrow> bool"
    and pending :: "'e \<Rightarrow> u8 list option"
    and outgoing :: "'e \<Rightarrow> u8 list"
    and free :: "'e \<Rightarrow> bool"
    and publish :: "'e publisher"
    and poll :: "'e poller"
  assumes publish_law: "inv e \<Longrightarrow> frame_wf f \<Longrightarrow>
      \<exists>e'. publish e f = Some (free e, e') \<and> inv e' \<and> free e' = free e \<and> pending e' = pending e \<and>
        outgoing e' = (if free e then wire_image f else outgoing e)"
    and poll_law: "inv e \<Longrightarrow> r = poll_answer (pending e) fr err \<Longrightarrow>
      \<exists>e'. poll e fr err = Some (fst r, fst (snd r), snd (snd r), e') \<and> inv e' \<and> free e' = free e \<and>
        pending e' = None \<and> outgoing e' = outgoing e"
begin

lemma publish_uptime_effect:
  assumes "inv e"
  shows "\<exists>e' f. publish_uptime publish n t (e, s) = Some (e', s + 1) \<and> inv e' \<and> free e' = free e \<and>
    pending e' = pending e \<and> heartbeat_frame n s t = Some f \<and>
    outgoing e' = (if free e then wire_image f else outgoing e)"
proof -
  obtain f where f: "heartbeat_frame n s t = Some f" "frame_wf f"
    using heartbeat_frame_eq by blast
  from publish_law [OF assms f(2)] f(1) show ?thesis by (auto simp: publish_uptime_def)
qed

lemma answer_incoming_effect:
  assumes "inv e"
  shows "\<exists>e' s' out. answer_incoming publish poll n (e, s) = Some (incoming_frame (pending e), e', s') \<and>
    inv e' \<and> free e' = free e \<and> pending e' = None \<and> outgoing e' = (if free e then out else outgoing e) \<and>
    (if wants_ack (incoming_frame (pending e))
     then s' = s + 1 \<and> (\<exists>ack. make_ack_frame n s (f_sequence (the (incoming_frame (pending e)))) ack_accepted = Some ack \<and>
       out = wire_image ack)
     else s' = s \<and> out = outgoing e)"
proof -
  define r where "r = poll_answer (pending e) Frame None"
  obtain e1 where e1: "poll e Frame None = Some (fst r, fst (snd r), snd (snd r), e1)" "inv e1" "free e1 = free e"
    "pending e1 = None" "outgoing e1 = outgoing e"
    using poll_law [OF assms r_def] by blast
  show ?thesis
  proof (cases "wants_ack (incoming_frame (pending e))")
    case False
    then show ?thesis
      using e1 poll_answer_incoming [of "pending e"]
      by (cases "incoming_frame (pending e)") (simp_all add: answer_incoming_def r_def wants_ack_def)
  next
    case True
    then obtain f where f: "incoming_frame (pending e) = Some f" "f_flags f AND kFlagAckRequired \<noteq> 0"
      by (auto simp: wants_ack_def split: option.splits)
    obtain ack where ack: "make_ack_frame n s (f_sequence f) ack_accepted = Some ack"
      by (simp add: make_ack_frame_eq)
    from publish_law [OF e1(2) conjunct2 [OF ack_canonical [OF ack]]] True f ack e1 show ?thesis
      using poll_answer_incoming(1) [of "pending e" Frame None] poll_answer_incoming(2) [OF f(1), of Frame None]
      by (auto simp: answer_incoming_def r_def)
  qed
qed

text \<open>A whole turn; a heartbeat that is due does not keep the answer from being served.\<close>

lemma node_turn_effect:
  assumes "inv e"
  shows "\<exists>e' s'. node_turn publish poll n due t (e, s) = Some (incoming_frame (pending e), e', s') \<and>
    inv e' \<and> free e' = free e \<and> pending e' = None"
    and "free e \<Longrightarrow> wants_ack (incoming_frame (pending e)) \<Longrightarrow>
      \<exists>e' s' s'' ack. node_turn publish poll n due t (e, s) = Some (incoming_frame (pending e), e', s') \<and>
        make_ack_frame n s'' (f_sequence (the (incoming_frame (pending e)))) ack_accepted = Some ack \<and>
        inv e' \<and> free e' \<and> pending e' = None \<and> outgoing e' = wire_image ack"
proof -
  obtain e1 s1 where e1: "(if due then publish_uptime publish n t (e, s) else Some (e, s)) = Some (e1, s1)"
    "inv e1" "free e1 = free e" "pending e1 = pending e"
    using assms publish_uptime_effect [OF assms, of n t s] by (cases due) auto
  from answer_incoming_effect [OF e1(2), of n s1]
  show "\<exists>e' s'. node_turn publish poll n due t (e, s) = Some (incoming_frame (pending e), e', s') \<and>
      inv e' \<and> free e' = free e \<and> pending e' = None"
    using e1 by (auto simp: node_turn_def)
  show "\<exists>e' s' s'' ack. node_turn publish poll n due t (e, s) = Some (incoming_frame (pending e), e', s') \<and>
        make_ack_frame n s'' (f_sequence (the (incoming_frame (pending e)))) ack_accepted = Some ack \<and>
        inv e' \<and> free e' \<and> pending e' = None \<and> outgoing e' = wire_image ack"
    if "free e" "wants_ack (incoming_frame (pending e))"
    using answer_incoming_effect [OF e1(2), of n s1] e1 that by (fastforce simp: node_turn_def)
qed

text \<open>What an endpoint that is free serves after a turn.\<close>

lemma node_turn_outgoing:
  assumes "inv e" and "free e"
  shows "\<exists>e' s' s''. node_turn publish poll n hb t (e, s) = Some (incoming_frame (pending e), e', s') \<and>
    inv e' \<and> free e' \<and> pending e' = None \<and>
    outgoing e' = (if wants_ack (incoming_frame (pending e))
      then wire_image (the (make_ack_frame n s'' (f_sequence (the (incoming_frame (pending e)))) ack_accepted))
      else if hb then wire_image (the (heartbeat_frame n s t)) else outgoing e)"
proof -
  obtain e1 s1 where e1: "(if hb then publish_uptime publish n t (e, s) else Some (e, s)) = Some (e1, s1)"
    "inv e1" "free e1" "pending e1 = pending e"
    "outgoing e1 = (if hb then wire_image (the (heartbeat_frame n s t)) else outgoing e)"
    using assms publish_uptime_effect [OF assms(1), of n t s] by (cases hb) auto
  from answer_incoming_effect [OF e1(2), of n s1] e1 show ?thesis
    by (auto simp: node_turn_def split: if_splits intro!: exI [of _ s1])
qed

end

text \<open>
  Heartbeats carry the uptime. The frame that a node publishes has type \<open>heartbeat\<close>, its
  node ID and sequence, and four payload bytes that are the clock reading in little-endian
  order; it survives the wire unchanged.
\<close>

theorem heartbeat_carries_uptime:
  "\<exists>f. heartbeat_frame n s uptime = Some f \<and> f_type f = heartbeat \<and> f_node_id f = n \<and> f_sequence f = s \<and>
     f_payload_length f = 4 \<and>
     le32 (f_payload f ! 0) (f_payload f ! 1) (f_payload f ! 2) (f_payload f ! 3) = unat uptime \<and>
     decode_frame (Some (encoded_bytes f)) (length (encoded_bytes f)) =
       Some \<lparr>dr_frame = f, dr_error = No_error\<rparr>"
proof -
  obtain f where f: "heartbeat_frame n s uptime = Some f" "canonical f" "frame_wf f" "f_type f = heartbeat"
    "f_node_id f = n" "f_sequence f = s" "f_payload_length f = 4"
    "f_payload f = [ucast uptime, ucast (drop_bit 8 uptime), ucast (drop_bit 16 uptime), ucast (drop_bit 24 uptime)] @ replicate 28 0"
    using heartbeat_frame_eq by blast
  have "le32 (f_payload f ! 0) (f_payload f ! 1) (f_payload f ! 2) (f_payload f ! 3) = unat uptime"
    unfolding f(8) by (simp add: le32_bytes numeral_2_eq_2 numeral_3_eq_3)
  moreover have "decode_frame (Some (encoded_bytes f)) (length (encoded_bytes f)) =
      Some \<lparr>dr_frame = f, dr_error = No_error\<rparr>"
    using f(2,3) by (simp add: encoded_bytes_image decode_frame_spec codec.dec_enc_canonical)
  ultimately show ?thesis using f by auto
qed

end
