(* ===== verification/Pico_Mailbox.thy ===== *)
theory Pico_Mailbox
  imports Pico_Endpoint Endpoint_Client
begin

text \<open>
  What the I2C peripheral endpoint promises: seen through its double buffers it is a mailbox
  with one frame being received, at most one frame waiting, and one frame to serve. The main
  program and the interrupt handler are interleaved at every point where interrupts are
  enabled, and the mailbox is refined under each interleaving.
\<close>

section \<open>Specification\<close>

record mailbox =
  mb_collecting :: "u8 list"
  mb_pending :: "u8 list option"
  mb_outgoing :: "u8 list"
  mb_sent :: nat
  mb_dropped :: u32

definition mb_byte :: "u8 \<Rightarrow> mailbox \<Rightarrow> mailbox" where
  "mb_byte b m =
     (if length (mb_collecting m) < 40 then m\<lparr>mb_collecting := mb_collecting m @ [b]\<rparr>
      else m\<lparr>mb_dropped := mb_dropped m + 1\<rparr>)"

definition mb_read :: "mailbox \<Rightarrow> u8 \<times> mailbox" where
  "mb_read m =
     (if mb_sent m < length (mb_outgoing m)
      then (mb_outgoing m ! mb_sent m, m\<lparr>mb_sent := mb_sent m + 1\<rparr>) else (0, m))"

definition mb_stop :: "mailbox \<Rightarrow> mailbox" where
  "mb_stop m =
     (if mb_collecting m = [] then m
      else if mb_pending m \<noteq> None then m\<lparr>mb_collecting := [], mb_dropped := mb_dropped m + 1\<rparr>
      else m\<lparr>mb_collecting := [], mb_pending := Some (mb_collecting m)\<rparr>)\<lparr>mb_sent := 0\<rparr>"

definition mb_irq :: "irq_masks \<Rightarrow> u32 \<Rightarrow> u32 \<Rightarrow> mailbox \<Rightarrow> hw_access list \<times> mailbox" where
  "mb_irq k status data_cmd m =
     (let on = (\<lambda>bits. status AND bits \<noteq> 0);
          m1 = (if on (rx_full_bits k) then mb_byte (ucast data_cmd) m else m);
          (v, m2) = (if on (rd_req_bits k) then mb_read m1 else (0, m1));
          m3 = (if on (stop_det_bits k) then mb_stop m2 else m2);
          m4 = (if on (tx_abrt_bits k) then m3\<lparr>mb_sent := 0\<rparr> else m3);
          m5 = (if on (rx_over_bits k) then m4\<lparr>mb_dropped := mb_dropped m4 + 1\<rparr> else m4)
      in (Read_raw_intr_stat #
          (if on (rx_full_bits k) then [Read_data_cmd] else []) @
          (if on (rd_req_bits k) then [Read_clr_rd_req, Write_data_cmd v] else []) @
          (if on (stop_det_bits k) then [Read_clr_stop_det] else []) @
          (if on (tx_abrt_bits k) then [Read_clr_tx_abrt] else []) @
          (if on (rx_over_bits k) then [Read_clr_rx_over] else []), m5))"

section \<open>The endpoint implements the mailbox\<close>

definition buffers_ok :: "u8 list list \<Rightarrow> u8 list \<Rightarrow> bool" where
  "buffers_ok bufs ls \<longleftrightarrow> length bufs = 2 \<and> length ls = 2 \<and>
     (\<forall>b\<in>set bufs. length b = 40) \<and> (\<forall>l\<in>set ls. l \<le> 40)"

definition ep_inv :: "i2c_endpoint \<Rightarrow> bool" where
  "ep_inv e \<longleftrightarrow> buffers_ok (ep_rx_buffers e) (ep_rx_lengths e) \<and>
     buffers_ok (ep_tx_buffers e) (ep_tx_lengths e) \<and>
     ep_rx_write_index e \<le> 1 \<and> ep_tx_active_index e \<le> 1 \<and>
     (ep_rx_ready e \<longrightarrow> ep_rx_ready_index e = ep_rx_write_index e XOR 1 \<and>
        ep_rx_lengths e ! unat (ep_rx_ready_index e) \<noteq> 0) \<and>
     ep_tx_index e \<le> ep_tx_lengths e ! unat (ep_tx_active_index e)"

definition slice :: "u8 list list \<Rightarrow> u8 list \<Rightarrow> u8 \<Rightarrow> u8 list" where
  "slice bufs ls i = take (unat (ls ! unat i)) (bufs ! unat i)"

definition mailbox_of :: "i2c_endpoint \<Rightarrow> mailbox" where
  "mailbox_of e =
     \<lparr>mb_collecting = slice (ep_rx_buffers e) (ep_rx_lengths e) (ep_rx_write_index e),
      mb_pending = (if ep_rx_ready e
        then Some (slice (ep_rx_buffers e) (ep_rx_lengths e) (ep_rx_ready_index e)) else None),
      mb_outgoing = slice (ep_tx_buffers e) (ep_tx_lengths e) (ep_tx_active_index e),
      mb_sent = unat (ep_tx_index e), mb_dropped = ep_dropped_frames e\<rparr>"

lemma index_cases: "(i :: u8) \<le> 1 \<Longrightarrow> i = 0 \<or> i = 1"
proof -
  assume "i \<le> 1"
  then have "unat i \<le> 1" by (simp add: word_le_nat_alt)
  then have "unat i = 0 \<or> unat i = 1" by linarith
  then show ?thesis by (metis unat_0 unat_1 unat_u8_inject)
qed

lemma length_two: "length xs = 2 \<Longrightarrow> xs = [xs ! 0, xs ! 1]"
  by (cases xs) (auto simp: length_Suc_conv numeral_2_eq_2)

lemma buffers_okE:
  assumes "buffers_ok bufs ls"
  obtains b0 b1 l0 l1 where "bufs = [b0, b1]" "ls = [l0, l1]" "length b0 = 40" "length b1 = 40"
    "l0 \<le> 40" "l1 \<le> 40" "unat l0 \<le> 40" "unat l1 \<le> 40"
proof
  show "bufs = [bufs ! 0, bufs ! 1]" "ls = [ls ! 0, ls ! 1]"
    using assms length_two by (auto simp: buffers_ok_def simp del: nth_Cons_Suc)
  then show "length (bufs ! 0) = 40" "length (bufs ! 1) = 40" "ls ! 0 \<le> 40" "ls ! 1 \<le> 40"
    using assms by (auto simp: buffers_ok_def)
  then show "unat (ls ! 0) \<le> 40" "unat (ls ! 1) \<le> 40"
    by (simp_all add: word_le_nat_alt)
qed

lemma ep_inv_start: "ep_inv I2cPeripheralEndpoint"
  by (simp add: ep_inv_def buffers_ok_def I2cPeripheralEndpoint_def numeral_2_eq_2)

text \<open>The transmit side of an endpoint, as far as the main program relies on it.\<close>

definition same_tx :: "i2c_endpoint \<Rightarrow> i2c_endpoint \<Rightarrow> bool" where
  "same_tx e e' \<longleftrightarrow> ep_tx_buffers e' = ep_tx_buffers e \<and> ep_tx_active_index e' = ep_tx_active_index e \<and>
     ep_tx_lengths e' = ep_tx_lengths e"

text \<open>Receiving one byte, on the buffer being written.\<close>

lemma take_append_byte:
  "unat (l :: u8) < 40 \<Longrightarrow> length b = 40 \<Longrightarrow>
   take (unat (l + 1)) (b[unat l := x]) = take (unat l) b @ [x] \<and> l + 1 \<le> 40 \<and> l + 1 \<noteq> 0 \<and>
   unat (l + 1) = Suc (unat l)"
proof -
  assume l: "unat l < 40" "length b = 40"
  then have "unat (l + 1) = Suc (unat l)" by (simp add: unat_word_ariths)
  with l show ?thesis
    by (simp add: list_update_take_drop word_le_nat_alt) (metis nat.distinct(1) unat_0)
qed

lemma irq_rx_full_ok:
  assumes "ep_inv e"
  shows "\<exists>e'. irq_rx_full d e = Some e' \<and> ep_inv e' \<and> same_tx e e' \<and> ep_tx_index e' = ep_tx_index e \<and>
    mailbox_of e' = mb_byte (ucast d) (mailbox_of e)"
proof -
  obtain b0 b1 l0 l1 where rx: "ep_rx_buffers e = [b0, b1]" "ep_rx_lengths e = [l0, l1]"
    "length b0 = 40" "length b1 = 40" "l0 \<le> 40" "l1 \<le> 40" "unat l0 \<le> 40" "unat l1 \<le> 40"
    using assms by (auto simp: ep_inv_def elim: buffers_okE)
  consider "ep_rx_write_index e = 0" | "ep_rx_write_index e = 1"
    using assms index_cases by (auto simp: ep_inv_def)
  then show ?thesis
  proof cases
    case 1
    with rx assms take_append_byte [of l0 b0 "ucast d"] show ?thesis
      by (auto simp: irq_rx_full_def ub_simps wr2_def ep_inv_def buffers_ok_def same_tx_def
          mailbox_of_def slice_def mb_byte_def word_le_nat_alt)
  next
    case 2
    with rx assms take_append_byte [of l1 b1 "ucast d"] show ?thesis
      by (auto simp: irq_rx_full_def ub_simps wr2_def ep_inv_def buffers_ok_def same_tx_def
          mailbox_of_def slice_def mb_byte_def word_le_nat_alt)
  qed
qed

lemma complete_receive_ok:
  assumes "ep_inv e"
  shows "\<exists>e'. irq_stop_det e = Some e' \<and> ep_inv e' \<and> same_tx e e' \<and>
    mailbox_of e' = mb_stop (mailbox_of e)"
proof -
  obtain b0 b1 l0 l1 where rx: "ep_rx_buffers e = [b0, b1]" "ep_rx_lengths e = [l0, l1]"
    "length b0 = 40" "length b1 = 40" "l0 \<le> 40" "l1 \<le> 40" "unat l0 \<le> 40" "unat l1 \<le> 40"
    using assms by (auto simp: ep_inv_def elim: buffers_okE)
  have xor: "(0 :: u8) XOR 1 = 1" "(1 :: u8) XOR 1 = 0" by simp_all
  consider "ep_rx_write_index e = 0" | "ep_rx_write_index e = 1"
    using assms index_cases by (auto simp: ep_inv_def)
  then show ?thesis
  proof cases
    case 1
    with rx assms show ?thesis
      by (auto simp: irq_stop_det_def complete_receive_from_isr_def ub_simps ep_inv_def
          buffers_ok_def same_tx_def mailbox_of_def slice_def mb_stop_def unat_eq_0)
  next
    case 2
    with rx assms show ?thesis
      by (auto simp: irq_stop_det_def complete_receive_from_isr_def ub_simps ep_inv_def
          buffers_ok_def same_tx_def mailbox_of_def slice_def mb_stop_def unat_eq_0)
  qed
qed

lemma irq_rd_req_ok:
  assumes "ep_inv e"
  shows "\<exists>e'. irq_rd_req e = Some (fst (mb_read (mailbox_of e)), e') \<and> ep_inv e' \<and> same_tx e e' \<and>
    mailbox_of e' = snd (mb_read (mailbox_of e))"
proof -
  obtain b0 b1 l0 l1 where tx: "ep_tx_buffers e = [b0, b1]" "ep_tx_lengths e = [l0, l1]"
    "length b0 = 40" "length b1 = 40" "l0 \<le> 40" "l1 \<le> 40" "unat l0 \<le> 40" "unat l1 \<le> 40"
    using assms by (auto simp: ep_inv_def elim: buffers_okE)
  have next_index: "ep_tx_index e + 1 \<le> l \<and> unat (ep_tx_index e + 1) = Suc (unat (ep_tx_index e))"
    if "ep_tx_index e < l" for l
    using that by (simp add: inc_le) (metis unat_u8_Suc)
  consider "ep_tx_active_index e = 0" | "ep_tx_active_index e = 1"
    using assms index_cases by (auto simp: ep_inv_def)
  then show ?thesis
  proof cases
    case 1
    with tx assms next_index [of l0] show ?thesis
      by (auto simp: irq_rd_req_def ub_simps rd2_def ep_inv_def buffers_ok_def same_tx_def
          mailbox_of_def slice_def mb_read_def word_less_nat_alt)
  next
    case 2
    with tx assms next_index [of l1] show ?thesis
      by (auto simp: irq_rd_req_def ub_simps rd2_def ep_inv_def buffers_ok_def same_tx_def
          mailbox_of_def slice_def mb_read_def word_less_nat_alt)
  qed
qed

lemma irq_tx_abrt_ok:
  "ep_inv e \<Longrightarrow> ep_inv (irq_tx_abrt e) \<and> same_tx e (irq_tx_abrt e) \<and>
   mailbox_of (irq_tx_abrt e) = (mailbox_of e)\<lparr>mb_sent := 0\<rparr>"
  by (auto simp: irq_tx_abrt_def ep_inv_def same_tx_def mailbox_of_def)

lemma irq_rx_over_ok:
  "ep_inv e \<Longrightarrow> ep_inv (irq_rx_over e) \<and> same_tx e (irq_rx_over e) \<and>
   mailbox_of (irq_rx_over e) = (mailbox_of e)\<lparr>mb_dropped := mb_dropped (mailbox_of e) + 1\<rparr>"
  by (auto simp: irq_rx_over_def ep_inv_def same_tx_def mailbox_of_def)

lemma same_tx_trans: "same_tx a b \<Longrightarrow> same_tx b c \<Longrightarrow> same_tx a c"
  by (simp add: same_tx_def)

lemma same_tx_refl [simp]: "same_tx e e"
  by (simp add: same_tx_def)

lemma handle_irq_ok:
  assumes "ep_inv e"
  shows "\<exists>e'. handle_irq k st d e = Some (fst (mb_irq k st d (mailbox_of e)), e') \<and> ep_inv e' \<and>
    same_tx e e' \<and> mailbox_of e' = snd (mb_irq k st d (mailbox_of e))"
proof -
  define on where "on bits \<longleftrightarrow> st AND bits \<noteq> 0" for bits
  define m1 where "m1 = (if on (rx_full_bits k) then mb_byte (ucast d) (mailbox_of e) else mailbox_of e)"
  define m2 where "m2 = (if on (rd_req_bits k) then snd (mb_read m1) else m1)"
  define m3 where "m3 = (if on (stop_det_bits k) then mb_stop m2 else m2)"
  define m4 where "m4 = (if on (tx_abrt_bits k) then m3\<lparr>mb_sent := 0\<rparr> else m3)"
  note defs = on_def m1_def m2_def m3_def m4_def
  obtain e1 where e1: "on (rx_full_bits k) \<Longrightarrow> irq_rx_full d e = Some e1" "\<not> on (rx_full_bits k) \<Longrightarrow> e1 = e"
    "ep_inv e1" "same_tx e e1" "mailbox_of e1 = m1"
    using irq_rx_full_ok [OF assms, of d] assms by (cases "on (rx_full_bits k)") (auto simp: m1_def)
  obtain e2 where e2: "on (rd_req_bits k) \<Longrightarrow> irq_rd_req e1 = Some (fst (mb_read m1), e2)"
    "\<not> on (rd_req_bits k) \<Longrightarrow> e2 = e1" "ep_inv e2" "same_tx e1 e2" "mailbox_of e2 = m2"
    using irq_rd_req_ok [OF e1(3)] e1 by (cases "on (rd_req_bits k)") (auto simp: m2_def)
  obtain e3 where e3: "on (stop_det_bits k) \<Longrightarrow> irq_stop_det e2 = Some e3" "\<not> on (stop_det_bits k) \<Longrightarrow> e3 = e2"
    "ep_inv e3" "same_tx e2 e3" "mailbox_of e3 = m3"
    using complete_receive_ok [OF e2(3)] e2 by (cases "on (stop_det_bits k)") (auto simp: m3_def)
  define e4 where "e4 = (if on (tx_abrt_bits k) then irq_tx_abrt e3 else e3)"
  have e4: "ep_inv e4" "same_tx e3 e4" "mailbox_of e4 = m4"
    using irq_tx_abrt_ok [OF e3(3)] e3 by (simp_all add: e4_def m4_def)
  define e5 where "e5 = (if on (rx_over_bits k) then irq_rx_over e4 else e4)"
  have e5: "ep_inv e5" "same_tx e4 e5"
    "mailbox_of e5 = (if on (rx_over_bits k) then m4\<lparr>mb_dropped := mb_dropped m4 + 1\<rparr> else m4)"
    using irq_rx_over_ok [OF e4(1)] e4 by (simp_all add: e5_def)
  have tx: "same_tx e e5" using e1(4) e2(4) e3(4) e4(2) e5(2) by (meson same_tx_trans)
  have spec: "mb_irq k st d (mailbox_of e) = (Read_raw_intr_stat #
      (if on (rx_full_bits k) then [Read_data_cmd] else []) @
      (if on (rd_req_bits k) then [Read_clr_rd_req, Write_data_cmd (fst (mb_read m1))] else []) @
      (if on (stop_det_bits k) then [Read_clr_stop_det] else []) @
      (if on (tx_abrt_bits k) then [Read_clr_tx_abrt] else []) @
      (if on (rx_over_bits k) then [Read_clr_rx_over] else []), mailbox_of e5)"
    unfolding e5(3) by (simp add: mb_irq_def defs Let_def split_beta)
  have "handle_irq k st d e = Some (fst (mb_irq k st d (mailbox_of e)), e5)"
    unfolding spec using e1(1,2) e2(1,2) e3(1,2)
    by (cases "on (rx_full_bits k)"; cases "on (rd_req_bits k)"; cases "on (stop_det_bits k)")
      (simp_all add: handle_irq_def e4_def e5_def on_def)
  with e5(1) tx spec show ?thesis by auto
qed

section \<open>The main program's calls\<close>

text \<open>The first \<open>i\<close> bytes of the encoding are in the inactive transmit buffer.\<close>

definition staged :: "i2c_endpoint \<Rightarrow> encoded_frame \<Rightarrow> u8 \<Rightarrow> nat \<Rightarrow> bool" where
  "staged e enc inactive i \<longleftrightarrow> inactive = ep_tx_active_index e XOR 1 \<and> length (ef_bytes enc) = 40 \<and>
     ef_length enc \<le> 40 \<and> i \<le> ef_length enc \<and>
     take i (ep_tx_buffers e ! unat inactive) = take i (ef_bytes enc)"

lemma staged_same_tx: "same_tx e e' \<Longrightarrow> staged e' enc inactive i = staged e enc inactive i"
  by (simp add: staged_def same_tx_def)

lemma pub_begin_ok:
  assumes "frame_wf f"
  obtains enc where "pub_begin e f = Some (Some (enc, ep_tx_active_index e XOR 1))"
    "staged e enc (ep_tx_active_index e XOR 1) 0" "take (ef_length enc) (ef_bytes enc) = wire_image f"
proof -
  obtain enc where enc: "encode_frame f = Some enc" using encode_frame_spec [OF assms] by blast
  have len: "ef_length enc = 8 + wire_len f" using enc encode_frame_spec [OF assms] by auto
  have le: "ef_length enc \<le> 40" using len wire_len_le [of f] by linarith
  have "pub_begin e f = Some (Some (enc, ep_tx_active_index e XOR 1))"
    using enc len le by (simp add: pub_begin_def)
  moreover have "staged e enc (ep_tx_active_index e XOR 1) 0"
    using encode_frame_take [OF assms enc] le by (simp add: staged_def)
  ultimately show ?thesis using encode_frame_take [OF assms enc] by (intro that) blast+
qed

lemma pub_copy_byte_ok:
  assumes inv: "ep_inv e" and st: "staged e enc inactive i" and i: "i < ef_length enc"
  shows "\<exists>e'. pub_copy_byte enc inactive i e = Some e' \<and> ep_inv e' \<and> mailbox_of e' = mailbox_of e \<and>
    staged e' enc inactive (Suc i)"
proof -
  obtain b0 b1 l0 l1 where tx: "ep_tx_buffers e = [b0, b1]" "ep_tx_lengths e = [l0, l1]"
    "length b0 = 40" "length b1 = 40" "l0 \<le> 40" "l1 \<le> 40" "unat l0 \<le> 40" "unat l1 \<le> 40"
    using inv by (auto simp: ep_inv_def elim: buffers_okE)
  from st i have i': "i < 40" "i < length (ef_bytes enc)" by (simp_all add: staged_def)
  consider "ep_tx_active_index e = 0" | "ep_tx_active_index e = 1"
    using inv index_cases by (auto simp: ep_inv_def)
  then show ?thesis
  proof cases
    case 1
    with tx inv st i i' show ?thesis
      by (auto simp: pub_copy_byte_def ub_simps wr2_def staged_def ep_inv_def buffers_ok_def
          mailbox_of_def slice_def take_Suc_conv_app_nth)
  next
    case 2
    with tx inv st i i' show ?thesis
      by (auto simp: pub_copy_byte_def ub_simps wr2_def staged_def ep_inv_def buffers_ok_def
          mailbox_of_def slice_def take_Suc_conv_app_nth)
  qed
qed

lemma pub_commit_ok:
  assumes inv: "ep_inv e" and st: "staged e enc inactive (ef_length enc)"
  shows "\<exists>e'. pub_commit enc inactive e = Some (mb_sent (mailbox_of e) = 0, e') \<and> ep_inv e' \<and>
    mailbox_of e' = (if mb_sent (mailbox_of e) = 0
      then (mailbox_of e)\<lparr>mb_outgoing := take (ef_length enc) (ef_bytes enc)\<rparr> else mailbox_of e)"
proof (cases "ep_tx_index e = 0")
  case True
  obtain b0 b1 l0 l1 where tx: "ep_tx_buffers e = [b0, b1]" "ep_tx_lengths e = [l0, l1]"
    "length b0 = 40" "length b1 = 40" "l0 \<le> 40" "l1 \<le> 40" "unat l0 \<le> 40" "unat l1 \<le> 40"
    using inv by (auto simp: ep_inv_def elim: buffers_okE)
  have len: "unat (of_nat (ef_length enc) :: u8) = ef_length enc"
    using st by (intro unat_of_nat_u8) (simp add: staged_def)
  then have le: "(of_nat (ef_length enc) :: u8) \<le> 40"
    using st by (simp add: word_le_nat_alt staged_def)
  consider "ep_tx_active_index e = 0" | "ep_tx_active_index e = 1"
    using inv index_cases by (auto simp: ep_inv_def)
  then show ?thesis
  proof cases
    case 1
    with tx inv st True len le show ?thesis
      by (auto simp: pub_commit_def ub_simps staged_def ep_inv_def buffers_ok_def
          mailbox_of_def slice_def)
  next
    case 2
    with tx inv st True len le show ?thesis
      by (auto simp: pub_commit_def ub_simps staged_def ep_inv_def buffers_ok_def
          mailbox_of_def slice_def)
  qed
next
  case False
  with inv show ?thesis by (simp add: pub_commit_def mailbox_of_def unat_eq_0)
qed

lemma ep_poll_ok:
  assumes "ep_inv e" and r: "r = poll_answer (mb_pending (mailbox_of e)) fr err"
  shows "\<exists>e'. ep_poll e fr err = Some (fst r, fst (snd r), snd (snd r), e') \<and> ep_inv e' \<and>
    same_tx e e' \<and> ep_tx_index e' = ep_tx_index e \<and> mailbox_of e' = (mailbox_of e)\<lparr>mb_pending := None\<rparr>"
proof (cases "ep_rx_ready e")
  case False
  with assms show ?thesis by (simp add: ep_poll_def poll_answer_def mailbox_of_def)
next
  case True
  obtain b0 b1 l0 l1 where rx: "ep_rx_buffers e = [b0, b1]" "ep_rx_lengths e = [l0, l1]"
    "length b0 = 40" "length b1 = 40" "l0 \<le> 40" "l1 \<le> 40" "unat l0 \<le> 40" "unat l1 \<le> 40"
    using assms by (auto simp: ep_inv_def elim: buffers_okE)
  have dec: "decode_frame (Some (take n b @ drop n (replicate 40 0))) n =
      Some (decode_outcome (decode_spec (take n b)))" if "n \<le> 40" "length b = 40" for n and b :: "u8 list"
    using that decode_frame_spec [of n "take n b @ drop n (replicate 40 0)"] by (simp add: min_def)
  have ready: "ep_rx_ready_index e = ep_rx_write_index e XOR 1"
    using True assms by (simp add: ep_inv_def)
  consider "ep_rx_write_index e = 0" | "ep_rx_write_index e = 1"
    using assms index_cases by (auto simp: ep_inv_def)
  then show ?thesis
  proof cases
    case 1
    with rx ready dec [of "unat l1" b1] True assms show ?thesis
      by (auto simp: ep_poll_def ub_simps poll_answer_def ep_inv_def buffers_ok_def same_tx_def
          mailbox_of_def slice_def decode_ok_def Let_def decode_error_real split: sum.splits)
  next
    case 2
    with rx ready dec [of "unat l0" b0] True assms show ?thesis
      by (auto simp: ep_poll_def ub_simps poll_answer_def ep_inv_def buffers_ok_def same_tx_def
          mailbox_of_def slice_def decode_ok_def Let_def decode_error_real split: sum.splits)
  qed
qed

section \<open>The main program and the interrupt handler, interleaved\<close>

text \<open>
  A node: the endpoint and where its main program is, between calls or in \<open>publish\<close> with \<open>i\<close>
  bytes copied. An event is an interrupt (with the values its handler reads from the status
  and data registers), a call of the main program, or its next step in a running \<open>publish\<close>.
  The main program makes one call at a time; events that it cannot make are answered \<open>Busy\<close>
  and change nothing.
\<close>

datatype main_pc = Main_idle | Copying encoded_frame u8 nat

record pico_node =
  pn_endpoint :: i2c_endpoint
  pn_main :: main_pc

datatype node_event = Irq u32 u32 | Poll | Publish frame | Continue

datatype node_output =
    Accesses "hw_access list" | Polled bool frame "decode_error option" | Published bool
  | Running | Busy

definition Pico_node :: pico_node where
  "Pico_node = \<lparr>pn_endpoint = I2cPeripheralEndpoint, pn_main = Main_idle\<rparr>"

fun node_step :: "irq_masks \<Rightarrow> pico_node \<Rightarrow> node_event \<Rightarrow> (node_output \<times> pico_node) option" where
  "node_step k s (Irq st d) = do {
     (l, e) \<leftarrow> handle_irq k st d (pn_endpoint s);
     Some (Accesses l, s\<lparr>pn_endpoint := e\<rparr>)
   }"
| "node_step k s Poll = (case pn_main s of
     Main_idle \<Rightarrow> do {
       (ok, f, err, e) \<leftarrow> ep_poll (pn_endpoint s) Frame (Some No_error);
       Some (Polled ok f err, s\<lparr>pn_endpoint := e\<rparr>)
     }
   | Copying _ _ _ \<Rightarrow> Some (Busy, s))"
| "node_step k s (Publish f) =
     (if pn_main s = Main_idle \<and> frame_wf f then do {
        r \<leftarrow> pub_begin (pn_endpoint s) f;
        case r of
          None \<Rightarrow> Some (Published False, s)
        | Some (enc, inactive) \<Rightarrow> Some (Running, s\<lparr>pn_main := Copying enc inactive 0\<rparr>)
      }
      else Some (Busy, s))"
| "node_step k s Continue = (case pn_main s of
     Main_idle \<Rightarrow> Some (Busy, s)
   | Copying enc inactive i \<Rightarrow>
       if i < ef_length enc then do {
         e \<leftarrow> pub_copy_byte enc inactive i (pn_endpoint s);
         Some (Running, \<lparr>pn_endpoint = e, pn_main = Copying enc inactive (Suc i)\<rparr>)
       }
       else do {
         (ok, e) \<leftarrow> pub_commit enc inactive (pn_endpoint s);
         Some (Published ok, \<lparr>pn_endpoint = e, pn_main = Main_idle\<rparr>)
       })"

text \<open>The specification: a mailbox, and the bytes being published with how many are staged.\<close>

type_synonym node_view = "mailbox \<times> (u8 list \<times> nat) option"

fun node_spec :: "irq_masks \<Rightarrow> node_view \<Rightarrow> node_event \<Rightarrow> node_output \<times> node_view" where
  "node_spec k (m, pc) (Irq st d) = (Accesses (fst (mb_irq k st d m)), snd (mb_irq k st d m), pc)"
| "node_spec k (m, pc) Poll =
     (if pc = None
      then let (ok, f, err) = poll_answer (mb_pending m) Frame (Some No_error)
           in (Polled ok f err, m\<lparr>mb_pending := None\<rparr>, pc)
      else (Busy, m, pc))"
| "node_spec k (m, pc) (Publish f) =
     (if pc = None \<and> frame_wf f then (Running, m, Some (wire_image f, 0)) else (Busy, m, pc))"
| "node_spec k (m, pc) Continue = (case pc of
     None \<Rightarrow> (Busy, m, pc)
   | Some (bs, i) \<Rightarrow>
       if i < length bs then (Running, m, Some (bs, Suc i))
       else if mb_sent m = 0 then (Published True, m\<lparr>mb_outgoing := bs\<rparr>, None)
       else (Published False, m, None))"

definition main_view :: "main_pc \<Rightarrow> (u8 list \<times> nat) option" where
  "main_view pc = (case pc of
     Main_idle \<Rightarrow> None
   | Copying enc inactive i \<Rightarrow> Some (take (ef_length enc) (ef_bytes enc), i))"

definition node_view_of :: "pico_node \<Rightarrow> node_view" where
  "node_view_of s = (mailbox_of (pn_endpoint s), main_view (pn_main s))"

definition node_inv :: "pico_node \<Rightarrow> bool" where
  "node_inv s \<longleftrightarrow> ep_inv (pn_endpoint s) \<and> (case pn_main s of
     Main_idle \<Rightarrow> True | Copying enc inactive i \<Rightarrow> staged (pn_endpoint s) enc inactive i)"

lemma main_view_None [simp]: "main_view pc = None \<longleftrightarrow> pc = Main_idle"
  by (cases pc) (simp_all add: main_view_def)

lemma node_inv_endpoint:
  "node_inv s \<Longrightarrow> ep_inv e \<Longrightarrow> same_tx (pn_endpoint s) e \<Longrightarrow> node_inv (s\<lparr>pn_endpoint := e\<rparr>)"
  by (cases "pn_main s") (simp_all add: node_inv_def staged_same_tx)

lemma node_step_ok:
  assumes inv: "node_inv s"
  shows "\<exists>t. node_step k s ev = Some (fst (node_spec k (node_view_of s) ev), t) \<and> node_inv t \<and>
    node_view_of t = snd (node_spec k (node_view_of s) ev)"
proof (cases ev)
  case (Irq st d)
  have "ep_inv (pn_endpoint s)" using inv by (simp add: node_inv_def)
  from handle_irq_ok [OF this, of k st d] Irq node_inv_endpoint [OF inv] show ?thesis
    by (auto simp: node_view_of_def)
next
  case Poll
  have "ep_inv (pn_endpoint s)" using inv by (simp add: node_inv_def)
  from ep_poll_ok [OF this refl, of Frame "Some No_error"] Poll node_inv_endpoint [OF inv] inv show ?thesis
    by (auto simp: node_view_of_def split_beta split: main_pc.splits)
next
  case (Publish f)
  show ?thesis
  proof (cases "pn_main s = Main_idle \<and> frame_wf f")
    case True
    with pub_begin_ok [of f "pn_endpoint s"] obtain enc
      where "pub_begin (pn_endpoint s) f = Some (Some (enc, ep_tx_active_index (pn_endpoint s) XOR 1))"
        "staged (pn_endpoint s) enc (ep_tx_active_index (pn_endpoint s) XOR 1) 0"
        "take (ef_length enc) (ef_bytes enc) = wire_image f" by metis
    with True Publish inv show ?thesis
      by (simp add: node_inv_def node_view_of_def main_view_def)
  next
    case False
    with Publish inv show ?thesis by (auto simp: node_view_of_def)
  qed
next
  case Continue
  show ?thesis
  proof (cases "pn_main s")
    case Main_idle
    with Continue inv show ?thesis by (simp add: node_view_of_def main_view_def)
  next
    case (Copying enc inactive i)
    with inv have e: "ep_inv (pn_endpoint s)" and st: "staged (pn_endpoint s) enc inactive i"
      by (simp_all add: node_inv_def)
    show ?thesis
    proof (cases "i < ef_length enc")
      case True
      with pub_copy_byte_ok [OF e st] st Copying Continue show ?thesis
        by (auto simp: node_inv_def node_view_of_def main_view_def staged_def)
    next
      case False
      with st have "i = ef_length enc" by (simp add: staged_def)
      with pub_commit_ok [OF e] st Copying Continue show ?thesis
        by (fastforce simp: node_inv_def node_view_of_def main_view_def staged_def)
    qed
  qed
qed

interpretation node: refined_component "node_step k" node_inv Pico_node "node_spec k" node_view_of for k
proof
  show "node_inv Pico_node" by (simp add: node_inv_def Pico_node_def ep_inv_start)
  show "\<exists>x t. node_step k s i = Some (x, t)" if "node_inv s" for s i
    using node_step_ok [OF that] by blast
  show "node_inv t" if "node_inv s" "node_step k s i = Some (x, t)" for s i x t
    using node_step_ok [OF that(1), of k i] that(2) by auto
  show "node_spec k (node_view_of s) i = (x, node_view_of t)"
    if "node_inv s" "node_step k s i = Some (x, t)" for s i x t
    using node_step_ok [OF that(1), of k i] that(2) by (auto simp: prod_eq_iff)
qed

text \<open>The masks of the RP2040 data sheet, as an example.\<close>

definition rp2040_masks :: irq_masks where
  "rp2040_masks = \<lparr>rx_full_bits = 0x004, rd_req_bits = 0x020, stop_det_bits = 0x200,
     tx_abrt_bits = 0x040, rx_over_bits = 0x002\<rparr>"

end
