(* ===== verification/Pico_Attach.thy ===== *)
theory Pico_Attach
  imports Pico_Mailbox
begin

text \<open>
  The calls of the Pico endpoint outside the interrupt handler: \<open>publish\<close> without
  interruption is the sum of its steps, and \<open>begin\<close> attaches endpoints to controllers.
\<close>

section \<open>An uninterrupted publish\<close>

lemma publish_steps:
  "ef_length enc = i + n \<Longrightarrow>
   run (node_step k) \<lparr>pn_endpoint = e, pn_main = Copying enc inactive i\<rparr> (replicate (Suc n) Continue) =
     do {
       e \<leftarrow> pub_copy_loop enc inactive i n e;
       (ok, e) \<leftarrow> pub_commit enc inactive e;
       Some (replicate n Running @ [Published ok], \<lparr>pn_endpoint = e, pn_main = Main_idle\<rparr>)
     }"
proof (induction n arbitrary: i e)
  case 0
  then show ?case by (auto split: Option.bind_splits)
next
  case (Suc n)
  have len: "i < ef_length enc" "ef_length enc = Suc i + n" using Suc.prems by simp_all
  have r: "replicate (Suc (Suc n)) Continue = Continue # replicate (Suc n) Continue"
    "replicate (Suc n) Running = Running # replicate n Running" by simp_all
  show ?case
  proof (cases "pub_copy_byte enc inactive i e")
    case None
    with len(1) show ?thesis unfolding r by simp
  next
    case (Some e1)
    have "run (node_step k) \<lparr>pn_endpoint = e, pn_main = Copying enc inactive i\<rparr>
        (Continue # replicate (Suc n) Continue) =
      do {
        (xs, t) \<leftarrow> run (node_step k) \<lparr>pn_endpoint = e1, pn_main = Copying enc inactive (Suc i)\<rparr>
          (replicate (Suc n) Continue);
        Some (Running # xs, t)
      }" using Some len(1) by (simp del: replicate_Suc)
    with Suc.IH [OF len(2), of e1] Some show ?thesis
      unfolding r by (auto split: Option.bind_splits simp del: replicate_Suc)
  qed
qed

lemma pub_copy_loop_ok:
  "ep_inv e \<Longrightarrow> staged e enc inactive i \<Longrightarrow> ef_length enc = i + n \<Longrightarrow>
   \<exists>e'. pub_copy_loop enc inactive i n e = Some e' \<and> ep_inv e' \<and> mailbox_of e' = mailbox_of e \<and>
     staged e' enc inactive (ef_length enc)"
proof (induction n arbitrary: i e)
  case 0
  then show ?case by simp
next
  case (Suc n)
  then obtain e1 where e1: "pub_copy_byte enc inactive i e = Some e1" "ep_inv e1"
    "mailbox_of e1 = mailbox_of e" "staged e1 enc inactive (Suc i)"
    using pub_copy_byte_ok [of e enc inactive i] by auto
  with Suc.IH [OF e1(2,4)] Suc.prems show ?case by simp
qed

text \<open>
  \<open>publish\<close> replaces the frame to serve, or refuses. It succeeds exactly when no byte of a
  response has been served yet; then the next response is the frame's encoding, otherwise
  the current one is kept; received bytes are untouched. Run without interrupts, the steps
  of the interleaved model are the call itself.
\<close>

theorem publish_replaces_response:
  assumes "node_inv s" and "pn_main s = Main_idle" and "frame_wf f"
  shows "\<exists>ok e. ep_publish (pn_endpoint s) f = Some (ok, e) \<and> ep_inv e \<and>
    (ok \<longleftrightarrow> ep_tx_index (pn_endpoint s) = 0) \<and>
    mailbox_of e = (if ok then (mailbox_of (pn_endpoint s))\<lparr>mb_outgoing := encoded_bytes f\<rparr>
                    else mailbox_of (pn_endpoint s)) \<and>
    run (node_step k) s (Publish f # replicate (Suc (length (encoded_bytes f))) Continue) =
      Some (Running # replicate (length (encoded_bytes f)) Running @ [Published ok], s\<lparr>pn_endpoint := e\<rparr>)"
proof -
  let ?e = "pn_endpoint s"
  have inv: "ep_inv ?e" using assms(1) by (simp add: node_inv_def)
  obtain enc where enc: "pub_begin ?e f = Some (Some (enc, ep_tx_active_index ?e XOR 1))"
    "staged ?e enc (ep_tx_active_index ?e XOR 1) 0" "take (ef_length enc) (ef_bytes enc) = wire_image f"
    using pub_begin_ok [OF assms(3)] by blast
  have len: "ef_length enc = length (encoded_bytes f)"
    using enc(2) arg_cong [OF enc(3), of length] assms(3) by (simp add: staged_def encoded_bytes_image)
  obtain e1 where e1: "pub_copy_loop enc (ep_tx_active_index ?e XOR 1) 0 (ef_length enc) ?e = Some e1"
    "ep_inv e1" "mailbox_of e1 = mailbox_of ?e" "staged e1 enc (ep_tx_active_index ?e XOR 1) (ef_length enc)"
    using pub_copy_loop_ok [OF inv enc(2)] by auto
  obtain e2 where e2: "pub_commit enc (ep_tx_active_index ?e XOR 1) e1 = Some (mb_sent (mailbox_of e1) = 0, e2)"
    "ep_inv e2" "mailbox_of e2 = (if mb_sent (mailbox_of e1) = 0
      then (mailbox_of e1)\<lparr>mb_outgoing := take (ef_length enc) (ef_bytes enc)\<rparr> else mailbox_of e1)"
    using pub_commit_ok [OF e1(2,4)] by blast
  have sent: "mb_sent (mailbox_of e1) = 0 \<longleftrightarrow> ep_tx_index ?e = 0"
    by (simp add: e1(3)) (simp add: mailbox_of_def unat_eq_0)
  have pub: "ep_publish ?e f = Some (mb_sent (mailbox_of e1) = 0, e2)"
    using enc(1) e1(1) e2(1) by (simp add: ep_publish_def)
  have "run (node_step k) \<lparr>pn_endpoint = ?e, pn_main = Copying enc (ep_tx_active_index ?e XOR 1) 0\<rparr>
      (replicate (Suc (ef_length enc)) Continue) =
    Some (replicate (ef_length enc) Running @ [Published (mb_sent (mailbox_of e1) = 0)],
      \<lparr>pn_endpoint = e2, pn_main = Main_idle\<rparr>)"
    using publish_steps [of enc 0 "ef_length enc" k ?e] e1(1) e2(1) by (simp del: replicate_Suc)
  then have "run (node_step k) s (Publish f # replicate (Suc (length (encoded_bytes f))) Continue) =
      Some (Running # replicate (length (encoded_bytes f)) Running @ [Published (mb_sent (mailbox_of e1) = 0)],
        s\<lparr>pn_endpoint := e2\<rparr>)"
    using assms enc(1) by (cases s) (simp add: len del: replicate_Suc)
  with pub e2(2,3) sent enc(3) assms(3) show ?thesis
    by (intro exI [of _ "mb_sent (mailbox_of e1) = 0"] exI [of _ e2])
      (simp add: e1(3) encoded_bytes_image del: replicate_Suc)
qed

theorem publish_replaces_response_witness:
  "\<exists>e. ep_publish I2cPeripheralEndpoint sample_command = Some (True, e) \<and>
    mb_outgoing (mailbox_of e) = encoded_bytes sample_command"
proof -
  have "node_inv Pico_node" "pn_main Pico_node = Main_idle" "frame_wf sample_command"
    "ep_tx_index (pn_endpoint Pico_node) = 0" "pn_endpoint Pico_node = I2cPeripheralEndpoint"
    using node.inv_start by (simp_all add: Pico_node_def I2cPeripheralEndpoint_def)
  with publish_replaces_response [of Pico_node sample_command undefined] show ?thesis by auto
qed

section \<open>Attaching\<close>

definition ps_inv :: "pico_state \<Rightarrow> bool" where
  "ps_inv s \<longleftrightarrow> length (ps_endpoints s) = 2 \<and> (\<forall>e\<in>set (ps_objects s). ep_inv e) \<and>
     (\<forall>this. Some this \<in> set (ps_endpoints s) \<longrightarrow>
        this < length (ps_objects s) \<and> ep_instance (ps_objects s ! this) \<noteq> None)"

definition controller :: "i2c_inst \<Rightarrow> nat option" where
  "controller i = (case i of I2c0 \<Rightarrow> Some 0 | I2c1 \<Rightarrow> Some 1 | I2c_other \<Rightarrow> None)"

lemma ep_begin_cases:
  assumes inv: "ps_inv s" and this: "this < length (ps_objects s)"
  shows "ep_begin enable s this (Some i) address =
    (case controller i of
       None \<Rightarrow> Some (False, [], s)
     | Some n \<Rightarrow>
       if address > 0x7f \<or> ps_endpoints s ! n \<noteq> None \<and> ps_endpoints s ! n \<noteq> Some this
       then Some (False, [], s)
       else Some (True,
         [I2c_set_slave_mode i True address, Irq_set_exclusive_handler n, Irq_set_enabled n True,
          Write_intr_mask i enable],
         \<lparr>ps_objects = (ps_objects s)[this := (ps_objects s ! this)
            \<lparr>ep_instance := Some i, ep_instance_index := of_nat n\<rparr>],
          ps_endpoints = (ps_endpoints s)[n := Some this]\<rparr>))"
  using assms by (cases i) (auto simp: ep_begin_def controller_def ps_inv_def ub_simps)

lemma ep_inv_attach: "ep_inv e \<Longrightarrow> ep_inv (e\<lparr>ep_instance := i, ep_instance_index := n\<rparr>)"
  by (auto simp: ep_inv_def)

lemma ps_inv_attach:
  assumes "ps_inv s" and "this < length (ps_objects s)" and "i \<noteq> None"
  shows "ps_inv \<lparr>ps_objects = (ps_objects s)[this := (ps_objects s ! this)
      \<lparr>ep_instance := i, ep_instance_index := x\<rparr>], ps_endpoints = (ps_endpoints s)[n := Some this]\<rparr>"
proof -
  have "ep_inv (ps_objects s ! this)" using assms by (simp add: ps_inv_def)
  then show ?thesis
    using assms set_update_subset_insert [of "ps_endpoints s" n "Some this"]
      set_update_subset_insert [of "ps_objects s" this
        "(ps_objects s ! this)\<lparr>ep_instance := i, ep_instance_index := x\<rparr>"] ep_inv_attach
    by (auto simp: ps_inv_def nth_list_update)
qed

lemma irq_parts_instance:
  "irq_rx_full d e = Some e' \<Longrightarrow> ep_instance e' = ep_instance e"
  "irq_rd_req e = Some (v, e') \<Longrightarrow> ep_instance e' = ep_instance e"
  "irq_stop_det e = Some e' \<Longrightarrow> ep_instance e' = ep_instance e"
  by (auto simp: irq_rx_full_def irq_rd_req_def irq_stop_det_def complete_receive_from_isr_def
      Let_def split: Option.bind_splits if_splits)

lemma handle_irq_instance: "handle_irq k st d e = Some (l, e') \<Longrightarrow> ep_instance e' = ep_instance e"
  by (auto simp: handle_irq_def irq_tx_abrt_def irq_rx_over_def dest!: irq_parts_instance
      split: Option.bind_splits if_splits)

lemma irq_dispatch_ok:
  assumes inv: "ps_inv s" and n: "n < 2"
  shows "\<exists>l t. irq_dispatch k hw n s = Some (l, t) \<and> ps_inv t \<and> ps_endpoints t = ps_endpoints s"
proof (cases "ps_endpoints s ! n")
  case None
  with inv n show ?thesis by (simp add: irq_dispatch_def ps_inv_def ub_simps)
next
  case (Some this)
  then have mem: "Some this \<in> set (ps_endpoints s)" using inv n by (metis nth_mem ps_inv_def)
  with inv obtain i where obj: "this < length (ps_objects s)" "ep_instance (ps_objects s ! this) = Some i"
    "ep_inv (ps_objects s ! this)" by (auto simp: ps_inv_def)
  obtain l e where e: "handle_irq k (fst (hw i)) (snd (hw i)) (ps_objects s ! this) = Some (l, e)" "ep_inv e"
    using handle_irq_ok [OF obj(3)] by blast
  then have "ep_instance e = Some i" using handle_irq_instance obj(2) by fastforce
  with inv obj e(2) have "ps_inv (s\<lparr>ps_objects := (ps_objects s)[this := e]\<rparr>)"
    using set_update_subset_insert [of "ps_objects s" this e]
    by (auto simp: ps_inv_def nth_list_update)
  with inv n Some obj e(1) show ?thesis
    by (simp add: irq_dispatch_def ps_inv_def ub_simps split_beta)
qed


definition two_endpoints :: pico_state where
  "two_endpoints = \<lparr>ps_objects = [I2cPeripheralEndpoint, I2cPeripheralEndpoint],
     ps_endpoints = [None, None]\<rparr>"

lemma ps_inv_two_endpoints: "ps_inv two_endpoints"
  by (simp add: ps_inv_def two_endpoints_def ep_inv_start)


text \<open>
  An endpoint that is attached to a second controller keeps its entry for the first,
  but its handler then reads the registers of the second: the interrupts of the first
  controller are no longer served.
\<close>

theorem reattached_endpoint_misrouted:
  assumes "ps_inv s" and "this < length (ps_objects s)"
    and "ep_begin enable s this (Some I2c0) address = Some (True, calls, t)"
    and "ep_begin enable t this (Some I2c1) address' = Some (True, calls', u)"
    and "hw I2c1 = hw' I2c1"
  shows "ps_endpoints u = [Some this, Some this] \<and> irq_dispatch k hw 0 u = irq_dispatch k hw' 0 u"
proof -
  have len: "length (ps_endpoints s) = 2" using assms(1) by (simp add: ps_inv_def)
  have t: "t = \<lparr>ps_objects = (ps_objects s)[this := (ps_objects s ! this)
        \<lparr>ep_instance := Some I2c0, ep_instance_index := 0\<rparr>],
      ps_endpoints = (ps_endpoints s)[0 := Some this]\<rparr>"
    using assms(3) ep_begin_cases [OF assms(1,2), of enable I2c0 address]
    by (auto simp: controller_def split: if_splits)
  have inv: "ps_inv t" unfolding t by (rule ps_inv_attach) (use assms in simp_all)
  have at: "this < length (ps_objects t)" using assms(2) by (simp add: t)
  have u: "ps_endpoints u = (ps_endpoints t)[1 := Some this]" "ep_instance (ps_objects u ! this) = Some I2c1"
    "length (ps_objects u) = length (ps_objects t)"
    using assms(4) ep_begin_cases [OF inv at, of enable I2c1 address'] at
    by (auto simp: controller_def split: if_splits)
  have "ps_endpoints u = [Some this, Some this]"
    using len u(1) by (auto simp: t length_Suc_conv numeral_2_eq_2)
  with u(2,3) at assms(5) show ?thesis by (simp add: irq_dispatch_def ub_simps)
qed

theorem reattached_endpoint_misrouted_witness:
  "let t = snd (snd (the (ep_begin 0 two_endpoints 0 (Some I2c0) 0x42)));
       u = snd (snd (the (ep_begin 0 t 0 (Some I2c1) 0x42)))
   in irq_dispatch rp2040_masks (\<lambda>i. if i = I2c0 then (0x20, 0) else (0, 0)) 0 u = irq_dispatch rp2040_masks (\<lambda>i. (0, 0)) 0 u"
proof -
  let ?r = "the (ep_begin 0 two_endpoints 0 (Some I2c0) 0x42)"
  let ?r' = "the (ep_begin 0 (snd (snd ?r)) 0 (Some I2c1) 0x42)"
  have "0 < length (ps_objects two_endpoints)"
    "ep_begin 0 two_endpoints 0 (Some I2c0) 0x42 = Some (True, fst (snd ?r), snd (snd ?r))"
    "ep_begin 0 (snd (snd ?r)) 0 (Some I2c1) 0x42 = Some (True, fst (snd ?r'), snd (snd ?r'))"
    by code_simp+
  from reattached_endpoint_misrouted [OF ps_inv_two_endpoints this, of
      "\<lambda>i. if i = I2c0 then (0x20, 0) else (0, 0)" "\<lambda>i. (0, 0)" rp2040_masks]
  show ?thesis by (simp add: Let_def)
qed

end
