(* ===== verification/Pico_Properties.thy ===== *)
theory Pico_Properties
  imports Pico_Mailbox
begin

text \<open>
  The theorems about the Pico I2C peripheral endpoint: it is the mailbox under every
  interleaving, its responses are never torn between two frames, a written frame is received
  whole, and what happens when frames are not polled or interrupts come late.
\<close>

section \<open>Reading events and outputs\<close>

fun raised :: "u32 \<Rightarrow> node_event \<Rightarrow> bool" where
  "raised bits (Irq st d) = (st AND bits \<noteq> 0)"
| "raised bits _ = False"

text \<open>The byte received in an event, and the bytes given to the controller in an output.\<close>

fun received :: "irq_masks \<Rightarrow> node_event \<Rightarrow> u8 list" where
  "received k (Irq st d) = (if st AND rx_full_bits k \<noteq> 0 then [ucast d] else [])"
| "received k _ = []"

fun written_bytes :: "hw_access list \<Rightarrow> u8 list" where
  "written_bytes [] = []"
| "written_bytes (Write_data_cmd v # l) = v # written_bytes l"
| "written_bytes (_ # l) = written_bytes l"

fun served :: "node_output \<Rightarrow> u8 list" where
  "served (Accesses l) = written_bytes l"
| "served _ = []"

definition resets :: "irq_masks \<Rightarrow> node_event \<Rightarrow> bool" where
  "resets k ev \<longleftrightarrow> raised (stop_det_bits k) ev \<or> raised (tx_abrt_bits k) ev"

lemma written_bytes_append [simp]: "written_bytes (l @ m) = written_bytes l @ written_bytes m"
  by (induction l rule: written_bytes.induct) simp_all

text \<open>The effect of an interrupt on each part of the mailbox.\<close>

lemma mb_parts [simp]:
  "mb_outgoing (mb_byte b m) = mb_outgoing m" "mb_sent (mb_byte b m) = mb_sent m"
  "mb_pending (mb_byte b m) = mb_pending m"
  "mb_outgoing (snd (mb_read m)) = mb_outgoing m" "mb_pending (snd (mb_read m)) = mb_pending m"
  "mb_collecting (snd (mb_read m)) = mb_collecting m" "mb_dropped (snd (mb_read m)) = mb_dropped m"
  "mb_outgoing (mb_stop m) = mb_outgoing m" "mb_sent (mb_stop m) = 0" "mb_collecting (mb_stop m) = []"
  by (simp_all add: mb_byte_def mb_read_def mb_stop_def)

lemma mb_irq_outgoing [simp]: "mb_outgoing (snd (mb_irq k st d m)) = mb_outgoing m"
  by (simp add: mb_irq_def Let_def split_beta)

lemma mb_read_parts:
  "fst (mb_read m) = (if mb_sent m < length (mb_outgoing m) then mb_outgoing m ! mb_sent m else 0)"
  "mb_sent (snd (mb_read m)) = (if mb_sent m < length (mb_outgoing m) then Suc (mb_sent m) else mb_sent m)"
  by (simp_all add: mb_read_def)

lemma mb_irq_sent:
  "mb_sent (snd (mb_irq k st d m)) =
     (if resets k (Irq st d) then 0
      else if raised (rd_req_bits k) (Irq st d) \<and> mb_sent m < length (mb_outgoing m)
      then Suc (mb_sent m) else mb_sent m)"
  by (simp add: mb_irq_def Let_def split_beta resets_def mb_read_parts)

lemma mb_irq_served:
  "written_bytes (fst (mb_irq k st d m)) =
     (if raised (rd_req_bits k) (Irq st d)
      then [if mb_sent m < length (mb_outgoing m) then mb_outgoing m ! mb_sent m else 0] else [])"
  by (simp add: mb_irq_def Let_def split_beta mb_read_parts)

section \<open>Where the served bytes come from\<close>

definition published_image :: "node_event set \<Rightarrow> u8 list \<Rightarrow> bool" where
  "published_image E bs \<longleftrightarrow> (\<exists>f. Publish f \<in> E \<and> frame_wf f \<and> bs = wire_image f)"

definition view_ok :: "node_event set \<Rightarrow> node_view \<Rightarrow> bool" where
  "view_ok E v \<longleftrightarrow> (mb_outgoing (fst v) = [] \<or> published_image E (mb_outgoing (fst v))) \<and>
     mb_sent (fst v) \<le> length (mb_outgoing (fst v)) \<and>
     (\<forall>bs i. snd v = Some (bs, i) \<longrightarrow> published_image E bs)"

lemma published_image_Nil [simp]: "\<not> published_image E []"
  by (metis published_image_def wire_image_nonempty)

lemma published_image_mono: "published_image E bs \<Longrightarrow> E \<subseteq> E' \<Longrightarrow> published_image E' bs"
  by (auto simp: published_image_def)

lemma view_ok_mono: "view_ok E v \<Longrightarrow> E \<subseteq> E' \<Longrightarrow> view_ok E' v"
  by (auto simp: view_ok_def intro: published_image_mono)

lemma view_ok_step:
  assumes ok: "view_ok E v" and ev: "ev \<in> E"
  shows "view_ok E (snd (node_spec k v ev))"
proof (cases v)
  case (Pair m pc)
  show ?thesis
  proof (cases ev)
    case (Irq st d)
    with ok Pair show ?thesis by (auto simp: view_ok_def mb_irq_sent)
  next
    case Poll
    with ok Pair show ?thesis by (auto simp: view_ok_def split_beta)
  next
    case (Publish f)
    with ok ev Pair show ?thesis by (auto simp: view_ok_def published_image_def)
  next
    case Continue
    with ok Pair show ?thesis by (auto simp: view_ok_def split: option.splits prod.splits)
  qed
qed

lemma view_ok_run: "view_ok E v \<Longrightarrow> set evs \<subseteq> E \<Longrightarrow> view_ok E (snd (spec_run (node_spec k) v evs))"
proof (induction evs arbitrary: v)
  case Nil
  then show ?case by simp
next
  case (Cons ev evs)
  then have "view_ok E (snd (node_spec k v ev))" by (intro view_ok_step) simp_all
  from Cons.IH [OF this] Cons.prems show ?case by (simp add: Let_def split_beta)
qed

text \<open>Once a frame is published, there is always one to serve.\<close>

lemma outgoing_kept:
  "mb_outgoing (fst v) \<noteq> [] \<Longrightarrow> view_ok E v \<Longrightarrow> mb_outgoing (fst (snd (node_spec k v ev))) \<noteq> []"
  by (cases v; cases ev)
    (auto simp: split_beta view_ok_def split: option.splits)

lemma published_nonempty:
  "view_ok E v \<Longrightarrow> fst (node_spec k v ev) = Published True \<Longrightarrow> mb_outgoing (fst (snd (node_spec k v ev))) \<noteq> []"
  by (cases v; cases ev)
    (auto simp: split_beta view_ok_def split: option.splits if_splits)

lemma published_run:
  "view_ok E v \<Longrightarrow> set evs \<subseteq> E \<Longrightarrow>
   mb_outgoing (fst v) \<noteq> [] \<or> Published True \<in> set (fst (spec_run (node_spec k) v evs)) \<Longrightarrow>
   mb_outgoing (fst (snd (spec_run (node_spec k) v evs))) \<noteq> []"
proof (induction evs arbitrary: v)
  case Nil
  then show ?case by simp
next
  case (Cons ev evs)
  have ok: "view_ok E (snd (node_spec k v ev))" using Cons.prems by (intro view_ok_step) simp_all
  have "mb_outgoing (fst (snd (node_spec k v ev))) \<noteq> [] \<or>
      Published True \<in> set (fst (spec_run (node_spec k) (snd (node_spec k v ev)) evs))"
    using Cons.prems outgoing_kept [of v E k ev] published_nonempty [of E v k ev]
    by (auto simp: Let_def split_beta)
  from Cons.IH [OF ok _ this] Cons.prems show ?case by (simp add: Let_def split_beta)
qed

section \<open>Responses are not torn\<close>

text \<open>The bytes a controller reads in a transaction that began at position \<open>i\<close> of \<open>bs\<close>.\<close>

definition response :: "u8 list \<Rightarrow> nat \<Rightarrow> nat \<Rightarrow> u8 list" where
  "response bs i n = take n (drop i bs @ replicate n 0)"

lemma response_0 [simp]: "response bs i 0 = []"
  by (simp add: response_def)

lemma response_Suc:
  "response bs i (Suc n) = (if i < length bs then bs ! i # response bs (Suc i) n else 0 # response bs i n)"
  by (cases "i < length bs")
    (simp_all add: response_def Cons_nth_drop_Suc [symmetric] take_replicate del: replicate_Suc,
     simp_all)

text \<open>
  A transaction: events without a stop or an abort. While a byte has been served the buffer
  cannot change; before the first byte it may.
\<close>

lemma spec_step_started:
  assumes "0 < mb_sent m" and "\<not> resets k ev" and "view_ok E (m, pc)"
  obtains m' pc' out where "node_spec k (m, pc) ev = (out, m', pc')" "mb_outgoing m' = mb_outgoing m"
    "0 < mb_sent m'" "served out = response (mb_outgoing m) (mb_sent m) (length (served out))"
    "response (mb_outgoing m) (mb_sent m) (length (served out) + n) =
       served out @ response (mb_outgoing m') (mb_sent m') n"
proof -
  obtain out m' pc' where st: "node_spec k (m, pc) ev = (out, m', pc')" by (metis prod.exhaust)
  show ?thesis
  proof (rule that [OF st])
    show "mb_outgoing m' = mb_outgoing m" "0 < mb_sent m'"
      using st assms by (cases ev; auto simp: split_beta mb_irq_sent split: option.splits if_splits)+
    show "served out = response (mb_outgoing m) (mb_sent m) (length (served out))"
      "response (mb_outgoing m) (mb_sent m) (length (served out) + n) =
       served out @ response (mb_outgoing m') (mb_sent m') n"
      using st assms
      by (cases ev; auto simp: split_beta mb_irq_served mb_irq_sent response_Suc split: option.splits if_splits)+
  qed
qed

lemma spec_run_started:
  "0 < mb_sent m \<Longrightarrow> \<forall>ev\<in>set evs. \<not> resets k ev \<Longrightarrow> view_ok E (m, pc) \<Longrightarrow> set evs \<subseteq> E \<Longrightarrow>
   concat (map served (fst (spec_run (node_spec k) (m, pc) evs))) =
     response (mb_outgoing m) (mb_sent m)
       (length (concat (map served (fst (spec_run (node_spec k) (m, pc) evs)))))"
proof (induction evs arbitrary: m pc)
  case Nil
  then show ?case by simp
next
  case (Cons ev evs)
  let ?n = "length (concat (map served (fst (spec_run (node_spec k) (snd (node_spec k (m, pc) ev)) evs))))"
  have nr: "\<not> resets k ev" using Cons.prems by simp
  from spec_step_started [OF Cons.prems(1) nr Cons.prems(3), where n = ?n]
  obtain m' pc' out where st: "node_spec k (m, pc) ev = (out, m', pc')" "0 < mb_sent m'"
    "response (mb_outgoing m) (mb_sent m) (length (served out) + ?n) =
       served out @ response (mb_outgoing m') (mb_sent m') ?n" by metis
  have ok: "view_ok E (m', pc')"
    using view_ok_step [OF Cons.prems(3), of ev k] Cons.prems(4) st(1) by simp
  have "concat (map served (fst (spec_run (node_spec k) (m', pc') evs))) =
      response (mb_outgoing m') (mb_sent m')
       (length (concat (map served (fst (spec_run (node_spec k) (m', pc') evs)))))"
    using Cons.IH [OF st(2) _ ok] Cons.prems by simp
  with st show ?case by (simp add: Let_def split_beta)
qed

lemma spec_run_transaction:
  "mb_sent m = 0 \<Longrightarrow> mb_outgoing m \<noteq> [] \<Longrightarrow> \<forall>ev\<in>set evs. \<not> resets k ev \<Longrightarrow> view_ok E (m, pc) \<Longrightarrow>
   set evs \<subseteq> E \<Longrightarrow>
   \<exists>bs. published_image E bs \<and> concat (map served (fst (spec_run (node_spec k) (m, pc) evs))) =
     response bs 0 (length (concat (map served (fst (spec_run (node_spec k) (m, pc) evs)))))"
proof (induction evs arbitrary: m pc)
  case Nil
  then show ?case by (auto simp: view_ok_def)
next
  case (Cons ev evs)
  obtain out m' pc' where st: "node_spec k (m, pc) ev = (out, m', pc')" by (metis prod.exhaust)
  have ok: "view_ok E (m', pc')" and out: "mb_outgoing m' \<noteq> []"
    using view_ok_step [OF Cons.prems(4), of ev k] outgoing_kept [of "(m, pc)" E k ev] Cons.prems st
    by simp_all
  show ?case
  proof (cases "mb_sent m' = 0")
    case True
    have "served out = []"
      using st True Cons.prems by (cases ev; auto simp: split_beta mb_irq_served mb_irq_sent
          split: option.splits if_splits)
    with Cons.IH [OF True out _ ok] Cons.prems st show ?thesis by (simp add: Let_def split_beta)
  next
    case False
    let ?n = "length (concat (map served (fst (spec_run (node_spec k) (m', pc') evs))))"
    have s: "served out = [mb_outgoing m ! 0]" "mb_sent m' = 1" "mb_outgoing m' = mb_outgoing m"
      using st False Cons.prems by (cases ev; auto simp: split_beta mb_irq_served mb_irq_sent
          split: option.splits if_splits)+
    have "concat (map served (fst (spec_run (node_spec k) (m', pc') evs))) = response (mb_outgoing m) 1 ?n"
      using spec_run_started [of m' evs k E pc'] s ok Cons.prems by simp
    moreover have "response (mb_outgoing m) 0 (Suc ?n) = mb_outgoing m ! 0 # response (mb_outgoing m) 1 ?n"
      using Cons.prems by (simp add: response_Suc)
    ultimately have "concat (map served (fst (spec_run (node_spec k) (m, pc) (ev # evs)))) =
        response (mb_outgoing m) 0 (length (concat (map served (fst (spec_run (node_spec k) (m, pc) (ev # evs))))))"
      using st s by (simp add: Let_def split_beta)
    moreover have "published_image E (mb_outgoing m)"
      using Cons.prems by (simp add: view_ok_def)
    ultimately show ?thesis by blast
  qed
qed

text \<open>The view of a reachable node.\<close>

definition fresh_view :: node_view where
  "fresh_view = (\<lparr>mb_collecting = [], mb_pending = None, mb_outgoing = [], mb_sent = 0, mb_dropped = 0\<rparr>, None)"

lemma node_view_start: "node_view_of Pico_node = fresh_view"
  by (simp add: node_view_of_def Pico_node_def main_view_def mailbox_of_def slice_def
      I2cPeripheralEndpoint_def fresh_view_def)

lemma view_ok_fresh: "view_ok E fresh_view"
  by (simp add: view_ok_def fresh_view_def)

lemma node_reachable:
  assumes "run (node_step k) Pico_node evs = Some (outs, s)"
  shows "node_inv s" and "spec_run (node_spec k) fresh_view evs = (outs, node_view_of s)"
    and "set evs \<subseteq> E \<Longrightarrow> view_ok E (node_view_of s)"
proof -
  show "node_inv s" by (rule node.run_inv [OF node.inv_start assms])
  show r: "spec_run (node_spec k) fresh_view evs = (outs, node_view_of s)"
    using node.run_refines [OF node.inv_start assms] by (simp add: node_view_start)
  show "set evs \<subseteq> E \<Longrightarrow> view_ok E (node_view_of s)"
    using view_ok_run [OF view_ok_fresh, of evs E k] r by simp
qed

text \<open>
  C8: The Pico I2C peripheral endpoint is the mailbox, under every interleaving of interrupts
  with the main program's calls (an interrupt may occur between any two bytes that \<open>publish\<close>
  copies). Every sequence of events runs without an access outside a buffer, the answers and
  the bytes served are those of the specification, and the double-buffer invariant holds.
\<close>

theorem endpoint_implements_mailbox:
  "\<exists>outs s. run (node_step k) Pico_node evs = Some (outs, s) \<and> node_inv s \<and>
     spec_run (node_spec k) fresh_view evs = (outs, node_view_of s)"
  using node.run_start_total [of k evs] node_reachable by blast

text \<open>
  Responses are never torn. Once a \<open>publish\<close> has succeeded, the bytes that the endpoint
  serves from the beginning of a transaction (transmit position 0) until the next stop or
  abort are the leading bytes of the encoding of one published frame, followed by zeros,
  whatever the main program publishes meanwhile and however the interrupts fall between the
  bytes it copies.
\<close>

theorem responses_never_torn:
  assumes "run (node_step k) Pico_node evs = Some (outs, s)" and "Published True \<in> set outs"
    and "ep_tx_index (pn_endpoint s) = 0"
    and "run (node_step k) s evs' = Some (outs', s')" and "\<forall>ev\<in>set evs'. \<not> resets k ev"
  shows "\<exists>f n. frame_wf f \<and> Publish f \<in> set (evs @ evs') \<and>
    concat (map served outs') = take n (encoded_bytes f @ replicate n 0)"
proof -
  let ?E = "set (evs @ evs')"
  note reach = node_reachable [OF assms(1)]
  have ok: "view_ok ?E (node_view_of s)" by (rule reach(3)) simp
  have "mb_outgoing (fst (node_view_of s)) \<noteq> []"
    using published_run [OF view_ok_fresh, of evs ?E k] assms(2) reach(2) by simp
  moreover have "mb_sent (fst (node_view_of s)) = 0"
    using assms(3) by (simp add: node_view_of_def mailbox_of_def)
  moreover have "spec_run (node_spec k) (node_view_of s) evs' = (outs', node_view_of s')"
    by (rule node.run_refines [OF reach(1) assms(4)])
  ultimately obtain bs n where bs: "published_image ?E bs" "concat (map served outs') = response bs 0 n"
    using spec_run_transaction [of "fst (node_view_of s)" evs' k ?E "snd (node_view_of s)"] ok assms(5) by auto
  from bs(1) obtain f where f: "Publish f \<in> ?E" "frame_wf f" "bs = wire_image f"
    by (auto simp: published_image_def)
  show ?thesis
    using f bs(2) by (intro exI [of _ f] exI [of _ n]) (simp add: response_def encoded_bytes_image)
qed

definition status_frame :: frame where
  "status_frame = Frame\<lparr>f_node_id := 7\<rparr>"

text \<open>Publishing without an interrupt: the eight bytes are copied, then the buffers switch.\<close>

definition publishing :: "frame \<Rightarrow> node_event list" where
  "publishing f = Publish f # replicate 9 Continue"

theorem responses_never_torn_witness:
  "\<exists>f n. frame_wf f \<and> Publish f \<in> set (publishing status_frame @
      [Irq 0x20 0, Publish sample_command, Continue, Irq 0x20 0]) \<and>
    [0xB7, 1] = take n (encoded_bytes f @ replicate n 0)"
proof -
  let ?k = rp2040_masks and ?evs' = "[Irq 0x20 0, Publish sample_command, Continue, Irq 0x20 0]"
  let ?r = "run (node_step ?k) Pico_node (publishing status_frame)"
  let ?r' = "run (node_step ?k) (snd (the ?r)) ?evs'"
  have "?r = Some (fst (the ?r), snd (the ?r))" "Published True \<in> set (fst (the ?r))"
    "ep_tx_index (pn_endpoint (snd (the ?r))) = 0"
    "?r' = Some (fst (the ?r'), snd (the ?r'))" "\<forall>ev\<in>set ?evs'. \<not> resets ?k ev"
    by code_simp+
  note responses_never_torn [OF this]
  moreover have "concat (map served (fst (the ?r'))) = [0xB7, 1]" by code_simp
  ultimately show ?thesis by simp
qed

section \<open>Receiving a written frame\<close>

lemma mb_irq_collecting:
  "length (mb_collecting m) \<le> 40 \<Longrightarrow>
   mb_collecting (snd (mb_irq k st d m)) =
     (if raised (stop_det_bits k) (Irq st d) then []
      else take 40 (mb_collecting m @ received k (Irq st d)))"
  by (auto simp: mb_irq_def Let_def split_beta mb_byte_def mb_read_def)

lemma mb_irq_pending:
  "mb_pending (snd (mb_irq k st d m)) =
     (let got = (if length (mb_collecting m) < 40 then mb_collecting m @ received k (Irq st d)
                 else mb_collecting m)
      in if raised (stop_det_bits k) (Irq st d) \<and> got \<noteq> [] \<and> mb_pending m = None
         then Some got else mb_pending m)"
  by (auto simp: mb_irq_def Let_def split_beta mb_byte_def mb_read_def mb_stop_def)

lemma spec_step_collecting:
  "length (mb_collecting (fst v)) \<le> 40 \<Longrightarrow> \<not> raised (stop_det_bits k) ev \<Longrightarrow>
   mb_collecting (fst (snd (node_spec k v ev))) = take 40 (mb_collecting (fst v) @ received k ev)"
  by (cases v; cases ev) (auto simp: mb_irq_collecting split_beta split: option.splits)

lemma spec_run_collecting:
  "length (mb_collecting (fst v)) \<le> 40 \<Longrightarrow> \<forall>ev\<in>set evs. \<not> raised (stop_det_bits k) ev \<Longrightarrow>
   mb_collecting (fst (snd (spec_run (node_spec k) v evs))) =
     take 40 (mb_collecting (fst v) @ concat (map (received k) evs))"
proof (induction evs arbitrary: v)
  case Nil
  then show ?case by simp
next
  case (Cons ev evs)
  let ?v = "snd (node_spec k v ev)"
  have c: "mb_collecting (fst ?v) = take 40 (mb_collecting (fst v) @ received k ev)"
    using Cons.prems by (intro spec_step_collecting) simp_all
  have t40: "take 40 (take 40 a @ b) = take 40 (a @ b)" for a b :: "u8 list"
    by (cases "length a \<le> 40") simp_all
  have "mb_collecting (fst (snd (spec_run (node_spec k) ?v evs))) =
      take 40 (mb_collecting (fst ?v) @ concat (map (received k) evs))"
    by (rule Cons.IH) (use Cons.prems in \<open>simp_all add: c\<close>)
  also have "\<dots> = take 40 (mb_collecting (fst v) @ received k ev @ concat (map (received k) evs))"
    by (simp only: c t40 append_assoc)
  finally show ?case by (simp add: Let_def split_beta)
qed

lemma collecting_empty_iff:
  "node_inv s \<Longrightarrow> mb_collecting (fst (node_view_of s)) = [] \<longleftrightarrow>
     ep_rx_lengths (pn_endpoint s) ! unat (ep_rx_write_index (pn_endpoint s)) = 0"
proof -
  assume "node_inv s"
  then have e: "ep_inv (pn_endpoint s)" by (simp add: node_inv_def)
  let ?e = "pn_endpoint s"
  obtain b0 b1 l0 l1 where rx: "ep_rx_buffers ?e = [b0, b1]" "ep_rx_lengths ?e = [l0, l1]"
    "length b0 = 40" "length b1 = 40" "l0 \<le> 40" "l1 \<le> 40" "unat l0 \<le> 40" "unat l1 \<le> 40"
    using e by (auto simp: ep_inv_def elim: buffers_okE)
  moreover have "ep_rx_write_index ?e = 0 \<or> ep_rx_write_index ?e = 1"
    using e index_cases by (auto simp: ep_inv_def)
  ultimately show ?thesis
    by (auto simp: node_view_of_def mailbox_of_def slice_def unat_eq_0)
qed

text \<open>
  A frame written by the controller is received whole. If no frame is half received and
  the bytes of the following events up to a stop are the encoding of a frame, then after the
  stop it is pending and \<open>poll\<close> returns it, whatever the main program did meanwhile - provided
  that the mailbox was empty when the stop came. Otherwise the new frame is dropped and
  the older one stays pending.
\<close>

theorem written_frame_received:
  assumes "run (node_step k) Pico_node evs = Some (outs, s)"
    and "ep_rx_lengths (pn_endpoint s) ! unat (ep_rx_write_index (pn_endpoint s)) = 0"
    and "run (node_step k) s evs' = Some (outs', s')"
    and "\<forall>ev\<in>set evs'. \<not> raised (stop_det_bits k) ev"
    and "frame_wf f" and "concat (map (received k) evs') = encoded_bytes f"
    and "node_step k s' (Irq st d) = Some (out, t)"
    and "raised (stop_det_bits k) (Irq st d)" and "received k (Irq st d) = []"
  shows "(\<not> has_pending_frame (pn_endpoint s') \<longrightarrow> has_pending_frame (pn_endpoint t) \<and>
      (\<exists>e. ep_poll (pn_endpoint t) fr err = Some (True, canon f, map_option (\<lambda>_. No_error) err, e) \<and>
        \<not> has_pending_frame e)) \<and>
    (has_pending_frame (pn_endpoint s') \<longrightarrow>
      mb_pending (mailbox_of (pn_endpoint t)) = mb_pending (mailbox_of (pn_endpoint s')) \<and>
      ep_rx_lengths (pn_endpoint t) ! unat (ep_rx_write_index (pn_endpoint t)) = 0)"
proof -
  note reach = node_reachable [OF assms(1)]
  have inv: "node_inv s'" "node_inv t"
    using node.run_inv [OF reach(1) assms(3)] node.step_inv [OF _ assms(7)] by blast+
  have len: "length (encoded_bytes f) \<le> 40" "encoded_bytes f \<noteq> []"
    using assms(5) wire_len_le [of f] by (simp_all add: encoded_bytes_image shape)
  have "mb_collecting (fst (node_view_of s)) = []"
    using collecting_empty_iff [OF reach(1)] assms(2) by simp
  then have got: "mb_collecting (fst (node_view_of s')) = encoded_bytes f"
    using spec_run_collecting [of "node_view_of s" evs' k] node.run_refines [OF reach(1) assms(3)]
      assms(4,6) len by simp
  have t: "fst (node_view_of t) = snd (mb_irq k st d (fst (node_view_of s')))"
    using node.step_refines [OF inv(1) assms(7)] by (cases "node_view_of s'") (simp add: prod_eq_iff)
  have pend: "mb_pending (fst (node_view_of t)) = (if mb_pending (fst (node_view_of s')) = None
      then Some (encoded_bytes f) else mb_pending (fst (node_view_of s')))"
    unfolding t mb_irq_pending using assms(8,9) got len by simp
  have empty: "mb_collecting (fst (node_view_of t)) = []"
    unfolding t using mb_irq_collecting assms(8) got len by simp
  have view: "has_pending_frame (pn_endpoint u) \<longleftrightarrow> mb_pending (fst (node_view_of u)) \<noteq> None" for u
    by (simp add: has_pending_frame_def node_view_of_def mailbox_of_def)
  show ?thesis
  proof (intro conjI impI)
    assume "\<not> has_pending_frame (pn_endpoint s')"
    then have p: "mb_pending (mailbox_of (pn_endpoint t)) = Some (wire_image f)"
      using pend assms(5) by (simp add: view node_view_of_def encoded_bytes_image)
    then show "has_pending_frame (pn_endpoint t)" by (simp add: view node_view_of_def)
    have "poll_answer (Some (wire_image f)) fr err = (True, canon f, map_option (\<lambda>_. No_error) err)"
      using assms(5) by (simp add: poll_answer_def codec.dec_enc)
    with ep_poll_ok [of "pn_endpoint t" _ fr err, OF _ refl] inv(2) p
    show "\<exists>e. ep_poll (pn_endpoint t) fr err = Some (True, canon f, map_option (\<lambda>_. No_error) err, e) \<and>
        \<not> has_pending_frame e"
      by (auto simp: node_inv_def has_pending_frame_def mailbox_of_def split: if_splits)
  next
    assume "has_pending_frame (pn_endpoint s')"
    with pend show "mb_pending (mailbox_of (pn_endpoint t)) = mb_pending (mailbox_of (pn_endpoint s'))"
      by (simp add: view node_view_of_def)
    show "ep_rx_lengths (pn_endpoint t) ! unat (ep_rx_write_index (pn_endpoint t)) = 0"
      using collecting_empty_iff [OF inv(2)] empty by simp
  qed
qed

text \<open>The interrupts of a write: one per byte, then a stop.\<close>

definition byte_irqs :: "u8 list \<Rightarrow> node_event list" where
  "byte_irqs bs = map (\<lambda>b. Irq 0x004 (ucast b)) bs"

theorem written_frame_received_witness:
  "\<exists>e. ep_poll (pn_endpoint (snd (the (run (node_step rp2040_masks) Pico_node
      (byte_irqs (encoded_bytes sample_command) @ [Irq 0x200 0]))))) Frame None =
    Some (True, canon sample_command, None, e)"
proof -
  let ?k = rp2040_masks and ?evs = "byte_irqs (encoded_bytes sample_command)"
  let ?r = "run (node_step ?k) Pico_node ?evs"
  let ?t = "node_step ?k (snd (the ?r)) (Irq 0x200 0)"
  have "run (node_step ?k) Pico_node [] = Some ([], Pico_node)"
    and "ep_rx_lengths (pn_endpoint Pico_node) ! unat (ep_rx_write_index (pn_endpoint Pico_node)) = 0"
    and "?r = Some (fst (the ?r), snd (the ?r))"
    and "\<forall>ev\<in>set ?evs. \<not> raised (stop_det_bits ?k) ev" and "frame_wf sample_command"
    and "concat (map (received ?k) ?evs) = encoded_bytes sample_command"
    and "?t = Some (fst (the ?t), snd (the ?t))"
    and "raised (stop_det_bits ?k) (Irq 0x200 0)" and "received ?k (Irq 0x200 0) = []"
    by code_simp+
  note received = written_frame_received [OF this, of Frame None]
  have "\<not> has_pending_frame (pn_endpoint (snd (the ?r)))"
    and "snd (the (run (node_step ?k) Pico_node (?evs @ [Irq 0x200 0]))) = snd (the ?t)"
    by code_simp+
  with received show ?thesis by auto
qed

text \<open>
  The handler takes one byte per interrupt and completes the frame in the interrupt that
  reports the stop.
\<close>

lemma decode_without_last:
  assumes "frame_wf f" and "wire_image f = bs @ [b]"
  shows "decode_spec bs = Inl (if wire_len f = 0 then Too_short else Length_mismatch)"
proof -
  have len: "length bs = 7 + wire_len f"
    using assms length_wire_image [OF assms(1)] by simp
  then have "bs ! i = wire_image f ! i" if "i < 7" for i
    using that assms(2) by (simp add: nth_append)
  then show ?thesis
    using len by (simp add: decode_spec_def wire_image_def wire_body_def nth_append)
qed



end
