(* ===== verification/Node_Application.thy ===== *)
theory Node_Application
  imports Pico_Attach Pico_Properties
begin

text \<open>
  The peripheral program of the Pico port, \<open>examples/PicoSdkI2cNode/main.cpp\<close>: the start of
  \<open>main\<close>, a turn of its loop, and runs of turns and interrupts of the I2C controller.

  The SDK's clock is an argument of each step (\<open>time_us_64()\<close>), pin set-up and printing are
  left out. Interrupts occur between turns here; \<open>Pico_Mailbox\<close> has the finer interleaving
  of interrupts with the endpoint's functions, \<open>Node_Interleaving\<close> that with the whole program.
\<close>

section \<open>The program\<close>

definition kNodeId :: u8 where "kNodeId = 0"
definition kI2cAddress :: u8 where "kI2cAddress = 0x42"

record node_app =
  na_endpoint :: i2c_endpoint
  na_sequence :: u8
  na_last_heartbeat_ms :: u64

definition publish_heartbeat :: "u64 \<Rightarrow> i2c_endpoint \<times> u8 \<Rightarrow> (i2c_endpoint \<times> u8) option" where
  "publish_heartbeat time_us = publish_uptime ep_publish kNodeId (ucast (time_us div 1000))"

text \<open>
  Up to the loop: \<open>Inl\<close> is the exit code after a failed \<open>begin\<close>. The interrupt mask that
  \<open>begin\<close> writes is a constant of the SDK.
\<close>

definition node_main_start :: "u32 \<Rightarrow> u64 \<Rightarrow> (int + node_app) option" where
  "node_main_start enable time_us = do {
     (ok, _, s) \<leftarrow> ep_begin enable
       \<lparr>ps_objects = [I2cPeripheralEndpoint], ps_endpoints = [None, None]\<rparr> 0 (Some I2c0) kI2cAddress;
     if \<not> ok then Some (Inl 1)
     else do {
       e \<leftarrow> rd (ps_objects s) 0;
       (e, sequence_number) \<leftarrow> publish_heartbeat time_us (e, 0);
       Some (Inr \<lparr>na_endpoint = e, na_sequence = sequence_number, na_last_heartbeat_ms = 0\<rparr>)
     }
   }"

text \<open>One turn: the clock is read at its beginning and, for a heartbeat, again.\<close>

definition node_loop_body :: "u64 \<Rightarrow> u64 \<Rightarrow> node_app \<Rightarrow> (frame option \<times> node_app) option" where
  "node_loop_body time_us time_us' a = do {
     let now_ms = time_us div 1000;
     let due = now_ms - na_last_heartbeat_ms a \<ge> 1000;
     let a = (if due then a\<lparr>na_last_heartbeat_ms := now_ms\<rparr> else a);
     (received, e, sequence_number) \<leftarrow> node_turn ep_publish ep_poll kNodeId due (ucast (time_us' div 1000))
       (na_endpoint a, na_sequence a);
     Some (received, a\<lparr>na_endpoint := e, na_sequence := sequence_number\<rparr>)
   }"

text \<open>The program with its interrupt handler: a turn, or an interrupt with the registers' values.\<close>

datatype app_event = Turn u64 u64 | Interrupt u32 u32
datatype app_output = Received "frame option" | Handled "hw_access list"

fun app_step :: "irq_masks \<Rightarrow> node_app \<Rightarrow> app_event \<Rightarrow> (app_output \<times> node_app) option" where
  "app_step k a (Turn t t') = do {
     (received, a) \<leftarrow> node_loop_body t t' a;
     Some (Received received, a)
   }"
| "app_step k a (Interrupt st d) = do {
     (l, e) \<leftarrow> handle_irq k st d (na_endpoint a);
     Some (Handled l, a\<lparr>na_endpoint := e\<rparr>)
   }"

section \<open>The Pico endpoint keeps the contract\<close>

lemma publish_effect:
  assumes "ep_inv e" and "frame_wf f"
  shows "\<exists>e'. ep_publish e f = Some (ep_tx_index e = 0, e') \<and> ep_inv e' \<and> ep_tx_index e' = ep_tx_index e \<and>
    mailbox_of e' = (if ep_tx_index e = 0 then (mailbox_of e)\<lparr>mb_outgoing := wire_image f\<rparr> else mailbox_of e)"
proof -
  obtain enc where enc: "pub_begin e f = Some (Some (enc, ep_tx_active_index e XOR 1))"
    "staged e enc (ep_tx_active_index e XOR 1) 0" "take (ef_length enc) (ef_bytes enc) = wire_image f"
    using pub_begin_ok [OF assms(2)] by blast
  obtain e1 where e1: "pub_copy_loop enc (ep_tx_active_index e XOR 1) 0 (ef_length enc) e = Some e1"
    "ep_inv e1" "mailbox_of e1 = mailbox_of e" "staged e1 enc (ep_tx_active_index e XOR 1) (ef_length enc)"
    using pub_copy_loop_ok [OF assms(1) enc(2)] by auto
  obtain e2 where e2: "pub_commit enc (ep_tx_active_index e XOR 1) e1 = Some (mb_sent (mailbox_of e1) = 0, e2)"
    "ep_inv e2" "mailbox_of e2 = (if mb_sent (mailbox_of e1) = 0
      then (mailbox_of e1)\<lparr>mb_outgoing := take (ef_length enc) (ef_bytes enc)\<rparr> else mailbox_of e1)"
    using pub_commit_ok [OF e1(2,4)] by blast
  have sent: "mb_sent (mailbox_of e) = 0 \<longleftrightarrow> ep_tx_index e = 0" by (simp add: mailbox_of_def unat_eq_0)
  have "mb_sent (mailbox_of e2) = mb_sent (mailbox_of e)" by (simp add: e2(3) e1(3))
  then have "ep_tx_index e2 = ep_tx_index e" by (simp add: mailbox_of_def)
  with enc e1 e2 sent show ?thesis by (simp add: ep_publish_def)
qed

text \<open>The contract holds whatever is being received meanwhile (\<open>c\<close>), and leaves it alone.\<close>

interpretation pico: endpoint "\<lambda>e. ep_inv e \<and> mb_collecting (mailbox_of e) = c"
  "\<lambda>e. mb_pending (mailbox_of e)" "\<lambda>e. mb_outgoing (mailbox_of e)" "\<lambda>e. ep_tx_index e = 0" ep_publish ep_poll for c
proof
  show "\<exists>e'. ep_publish e f = Some (ep_tx_index e = 0, e') \<and> (ep_inv e' \<and> mb_collecting (mailbox_of e') = c) \<and>
      (ep_tx_index e' = 0) = (ep_tx_index e = 0) \<and> mb_pending (mailbox_of e') = mb_pending (mailbox_of e) \<and>
      mb_outgoing (mailbox_of e') = (if ep_tx_index e = 0 then wire_image f else mb_outgoing (mailbox_of e))"
    if "ep_inv e \<and> mb_collecting (mailbox_of e) = c" "frame_wf f" for c e f
    using publish_effect [of e f] that by (auto split: if_splits)
  show "\<exists>e'. ep_poll e fr err = Some (fst r, fst (snd r), snd (snd r), e') \<and>
      (ep_inv e' \<and> mb_collecting (mailbox_of e') = c) \<and>
      (ep_tx_index e' = 0) = (ep_tx_index e = 0) \<and> mb_pending (mailbox_of e') = None \<and>
      mb_outgoing (mailbox_of e') = mb_outgoing (mailbox_of e)"
    if "ep_inv e \<and> mb_collecting (mailbox_of e) = c" "r = poll_answer (mb_pending (mailbox_of e)) fr err"
    for c e r fr err
    using ep_poll_ok [of e r fr err] that by auto
qed

section \<open>Runs of the program\<close>

definition na_inv :: "node_app \<Rightarrow> bool" where
  "na_inv a \<longleftrightarrow> ep_inv (na_endpoint a)"

lemma node_loop_body_effect:
  assumes "na_inv a"
  shows "\<exists>a'. node_loop_body t t' a = Some (incoming_frame (mb_pending (mailbox_of (na_endpoint a))), a') \<and> na_inv a' \<and>
    mb_pending (mailbox_of (na_endpoint a')) = None \<and>
    mb_collecting (mailbox_of (na_endpoint a')) = mb_collecting (mailbox_of (na_endpoint a)) \<and>
    (ep_tx_index (na_endpoint a') = 0) = (ep_tx_index (na_endpoint a) = 0)"
  using pico.node_turn_effect(1) [where e = "na_endpoint a" and c = "mb_collecting (mailbox_of (na_endpoint a))" and
      n = kNodeId and due = "t div 1000 - na_last_heartbeat_ms a \<ge> 1000" and t = "ucast (t' div 1000)" and
      s = "na_sequence a"] assms
  by (auto simp: node_loop_body_def Let_def na_inv_def)

lemma node_loop_body_answers:
  assumes "na_inv a" and "ep_tx_index (na_endpoint a) = 0"
    and "incoming_frame (mb_pending (mailbox_of (na_endpoint a))) = Some f" and "wants_ack (Some f)"
  shows "\<exists>a' s ack. node_loop_body t t' a = Some (Some f, a') \<and> na_inv a' \<and>
    mb_pending (mailbox_of (na_endpoint a')) = None \<and> ep_tx_index (na_endpoint a') = 0 \<and>
    mb_collecting (mailbox_of (na_endpoint a')) = mb_collecting (mailbox_of (na_endpoint a)) \<and>
    make_ack_frame kNodeId s (f_sequence f) ack_accepted = Some ack \<and>
    mb_outgoing (mailbox_of (na_endpoint a')) = encoded_bytes ack"
proof -
  let ?c = "mb_collecting (mailbox_of (na_endpoint a))"
  have inv: "ep_inv (na_endpoint a) \<and> mb_collecting (mailbox_of (na_endpoint a)) = ?c"
    using assms(1) by (simp add: na_inv_def)
  obtain e' s' s'' ack where r: "node_turn ep_publish ep_poll kNodeId (t div 1000 - na_last_heartbeat_ms a \<ge> 1000)
      (ucast (t' div 1000)) (na_endpoint a, na_sequence a) = Some (Some f, e', s')"
    "make_ack_frame kNodeId s'' (f_sequence f) ack_accepted = Some ack" "ep_inv e'" "ep_tx_index e' = 0"
    "mb_collecting (mailbox_of e') = ?c" "mb_pending (mailbox_of e') = None" "mb_outgoing (mailbox_of e') = wire_image ack"
    using pico.node_turn_effect(2) [OF inv assms(2), unfolded assms(3), OF assms(4), where n = kNodeId and
        due = "t div 1000 - na_last_heartbeat_ms a \<ge> 1000" and t = "ucast (t' div 1000)" and s = "na_sequence a"] by auto
  then show ?thesis
    using ack_canonical [OF r(2)]
    by (auto simp: node_loop_body_def Let_def na_inv_def encoded_bytes_image
        intro!: exI [of _ s''] exI [of _ ack])
qed

text \<open>The static objects before \<open>main\<close>.\<close>

definition Node_app :: node_app where
  "Node_app = \<lparr>na_endpoint = I2cPeripheralEndpoint, na_sequence = 0, na_last_heartbeat_ms = 0\<rparr>"

interpretation app: safe_component "app_step k" na_inv Node_app for k
proof
  show "na_inv Node_app" using ep_inv_start by (simp add: na_inv_def Node_app_def)
  have "\<exists>x t. app_step k s i = Some (x, t) \<and> na_inv t" if "na_inv s" for s i
  proof (cases i)
    case (Turn t t')
    with node_loop_body_effect [OF that, of t t'] show ?thesis by auto
  next
    case (Interrupt st d)
    with that handle_irq_ok [of "na_endpoint s" k st d] show ?thesis by (auto simp: na_inv_def)
  qed
  note total = this
  show "\<exists>x t. app_step k s i = Some (x, t)" if "na_inv s" for s i using total [OF that] by blast
  show "na_inv t" if "na_inv s" "app_step k s i = Some (x, t)" for s i x t
    using total [OF that(1), of i] that(2) by auto
qed

lemma node_main_start_ok:
  "\<exists>a f. node_main_start enable t = Some (Inr a) \<and> na_inv a \<and>
     heartbeat_frame kNodeId 0 (ucast (t div 1000)) = Some f \<and>
     mailbox_of (na_endpoint a) = (mailbox_of I2cPeripheralEndpoint)\<lparr>mb_outgoing := encoded_bytes f\<rparr>"
proof -
  let ?s = "\<lparr>ps_objects = [I2cPeripheralEndpoint], ps_endpoints = [None, None]\<rparr>"
  let ?e = "I2cPeripheralEndpoint\<lparr>ep_instance := Some I2c0, ep_instance_index := 0\<rparr>"
  have "ps_inv ?s" using ep_inv_start by (simp add: ps_inv_def)
  from ep_begin_cases [OF this, of 0 enable I2c0 kI2cAddress]
  obtain calls t' where b: "ep_begin enable ?s 0 (Some I2c0) kI2cAddress = Some (True, calls, t')"
    "ps_objects t' = [?e]"
    by (auto simp: controller_def kI2cAddress_def)
  have e: "ep_inv ?e" "ep_tx_index ?e = 0" "mailbox_of ?e = mailbox_of I2cPeripheralEndpoint"
    using ep_inv_attach [OF ep_inv_start] by (simp_all add: I2cPeripheralEndpoint_def mailbox_of_def slice_def)
  obtain f where f: "heartbeat_frame kNodeId 0 (ucast (t div 1000)) = Some f" "frame_wf f"
    using heartbeat_frame_eq by blast
  from publish_effect [OF e(1) f(2)] e(2,3) b f show ?thesis
    by (auto simp: node_main_start_def publish_heartbeat_def publish_uptime_def na_inv_def ub_simps
        encoded_bytes_image)
qed

text \<open>
  The node program starts and keeps running. \<open>main\<close> attaches its endpoint and publishes a
  first heartbeat; after that no sequence of loop turns and interrupts, whatever the clock and
  the registers deliver, leaves a buffer, and each turn hands over the frame that was pending
  - if it decodes - and leaves none.
\<close>

theorem node_program_never_fails:
  "\<exists>a f outs b received c. node_main_start enable t0 = Some (Inr a) \<and>
     heartbeat_frame kNodeId 0 (ucast (t0 div 1000)) = Some f \<and>
     mb_outgoing (mailbox_of (na_endpoint a)) = encoded_bytes f \<and>
     run (app_step k) a evs = Some (outs, b) \<and>
     app_step k b (Turn t t') = Some (Received (incoming_frame (mb_pending (mailbox_of (na_endpoint b)))), c) \<and>
     \<not> has_pending_frame (na_endpoint c)"
proof -
  obtain a f where a: "node_main_start enable t0 = Some (Inr a)" "na_inv a"
    "heartbeat_frame kNodeId 0 (ucast (t0 div 1000)) = Some f"
    "mb_outgoing (mailbox_of (na_endpoint a)) = encoded_bytes f"
    using node_main_start_ok [of enable t0] by auto
  obtain outs b where b: "run (app_step k) a evs = Some (outs, b)" "na_inv b"
    using app.run_total [OF a(2)] by blast
  from node_loop_body_effect [OF b(2), of t t'] a b(1) show ?thesis
    by (auto simp: has_pending_frame_def mailbox_of_def split: if_splits)
qed

section \<open>A command and its answer on the bus\<close>

text \<open>
  The interrupts of a bus transaction with the RP2040's masks: one per byte that the controller
  writes or reads, and a stop. What a run serves is what it writes to the data register.
\<close>

definition write_irqs :: "u8 list \<Rightarrow> app_event list" where
  "write_irqs bs = map (\<lambda>b. Interrupt 0x004 (ucast b)) bs @ [Interrupt 0x200 0]"

definition read_irqs :: "nat \<Rightarrow> app_event list" where
  "read_irqs n = replicate n (Interrupt 0x020 0) @ [Interrupt 0x200 0]"

fun app_served :: "app_output \<Rightarrow> u8 list" where
  "app_served (Handled l) = written_bytes l"
| "app_served (Received f) = []"

lemma ucast_byte [simp]: "ucast (ucast (b :: u8) :: u32) = b"
  by (simp add: bit_eq_iff bit_simps)

lemma irq_step:
  assumes "na_inv a"
  obtains a' where "app_step k a (Interrupt st d) = Some (Handled (fst (mb_irq k st d (mailbox_of (na_endpoint a)))), a')"
    "na_inv a'" "mailbox_of (na_endpoint a') = snd (mb_irq k st d (mailbox_of (na_endpoint a)))"
  using assms handle_irq_ok [of "na_endpoint a" k st d] by (auto simp: na_inv_def)

lemma bus_byte:
  "length (mb_collecting m) < 40 \<Longrightarrow> mb_irq rp2040_masks 0x004 (ucast b) m =
     ([Read_raw_intr_stat, Read_data_cmd], m\<lparr>mb_collecting := mb_collecting m @ [b]\<rparr>)"
  by (simp add: mb_irq_def rp2040_masks_def mb_byte_def)

lemma bus_stop:
  "mb_irq rp2040_masks 0x200 d m = ([Read_raw_intr_stat, Read_clr_stop_det], mb_stop m)"
  by (simp add: mb_irq_def rp2040_masks_def)

lemma bus_read:
  "mb_irq rp2040_masks 0x020 d m =
     ([Read_raw_intr_stat, Read_clr_rd_req, Write_data_cmd (fst (mb_read m))], snd (mb_read m))"
  by (simp add: mb_irq_def rp2040_masks_def split_beta)

lemma run_written:
  "na_inv a \<Longrightarrow> length (mb_collecting (mailbox_of (na_endpoint a))) + length bs \<le> 40 \<Longrightarrow>
   \<exists>outs a'. run (app_step rp2040_masks) a (map (\<lambda>b. Interrupt 0x004 (ucast b)) bs) = Some (outs, a') \<and> na_inv a' \<and>
     concat (map app_served outs) = [] \<and>
     mailbox_of (na_endpoint a') = (mailbox_of (na_endpoint a))
       \<lparr>mb_collecting := mb_collecting (mailbox_of (na_endpoint a)) @ bs\<rparr>"
proof (induction bs arbitrary: a)
  case Nil
  then show ?case by simp
next
  case (Cons b bs)
  let ?m = "mailbox_of (na_endpoint a)"
  have room: "length (mb_collecting ?m) < 40" using Cons.prems by simp
  obtain a1 where a1: "app_step rp2040_masks a (Interrupt 0x004 (ucast b)) =
      Some (Handled [Read_raw_intr_stat, Read_data_cmd], a1)" "na_inv a1"
    "mailbox_of (na_endpoint a1) = ?m\<lparr>mb_collecting := mb_collecting ?m @ [b]\<rparr>"
    by (rule irq_step [OF Cons.prems(1), of rp2040_masks "0x004" "ucast b"]) (simp add: bus_byte [OF room])
  with Cons.IH [OF a1(2)] Cons.prems show ?case by auto
qed

lemma run_requests:
  "na_inv a \<Longrightarrow> \<exists>outs a'. run (app_step rp2040_masks) a (replicate n (Interrupt 0x020 0)) = Some (outs, a') \<and> na_inv a' \<and>
     mb_collecting (mailbox_of (na_endpoint a')) = mb_collecting (mailbox_of (na_endpoint a)) \<and>
     mb_pending (mailbox_of (na_endpoint a')) = mb_pending (mailbox_of (na_endpoint a)) \<and>
     concat (map app_served outs) =
       response (mb_outgoing (mailbox_of (na_endpoint a))) (mb_sent (mailbox_of (na_endpoint a))) n"
proof (induction n arbitrary: a)
  case 0
  then show ?case by simp
next
  case (Suc n)
  let ?m = "mailbox_of (na_endpoint a)"
  obtain a1 where a1: "app_step rp2040_masks a (Interrupt 0x020 0) =
      Some (Handled [Read_raw_intr_stat, Read_clr_rd_req, Write_data_cmd (fst (mb_read ?m))], a1)" "na_inv a1"
    "mailbox_of (na_endpoint a1) = snd (mb_read ?m)"
    by (rule irq_step [OF Suc.prems, of rp2040_masks "0x020" 0]) (simp add: bus_read)
  have same: "mb_collecting (snd (mb_read ?m)) = mb_collecting ?m" "mb_pending (snd (mb_read ?m)) = mb_pending ?m"
    by (simp_all add: mb_read_def)
  obtain outs a' where "run (app_step rp2040_masks) a1 (replicate n (Interrupt 0x020 0)) = Some (outs, a')" "na_inv a'"
    "mb_collecting (mailbox_of (na_endpoint a')) = mb_collecting ?m"
    "mb_pending (mailbox_of (na_endpoint a')) = mb_pending ?m"
    "concat (map app_served outs) = response (mb_outgoing (snd (mb_read ?m))) (mb_sent (snd (mb_read ?m))) n"
    using Suc.IH [OF a1(2)] unfolding a1(3) same by blast
  with a1(1) show ?case by (auto simp: response_Suc mb_read_def)
qed

lemma stop_step:
  assumes "na_inv a"
  obtains a' where "app_step rp2040_masks a (Interrupt 0x200 0) = Some (Handled [Read_raw_intr_stat, Read_clr_stop_det], a')"
    "na_inv a'" "mailbox_of (na_endpoint a') = mb_stop (mailbox_of (na_endpoint a))" "ep_tx_index (na_endpoint a') = 0"
proof (rule irq_step [OF assms, of rp2040_masks "0x200" 0])
  fix a' assume a': "app_step rp2040_masks a (Interrupt 0x200 0) =
      Some (Handled (fst (mb_irq rp2040_masks 0x200 0 (mailbox_of (na_endpoint a)))), a')" "na_inv a'"
    "mailbox_of (na_endpoint a') = snd (mb_irq rp2040_masks 0x200 0 (mailbox_of (na_endpoint a)))"
  then have "mb_sent (mailbox_of (na_endpoint a')) = 0" by (simp add: bus_stop mb_stop_def)
  then have "ep_tx_index (na_endpoint a') = 0" by (simp add: mailbox_of_def unat_eq_0)
  with a' show thesis by (intro that [of a']) (simp_all add: bus_stop)
qed

lemma run_read:
  assumes "na_inv a"
  shows "\<exists>outs a'. run (app_step rp2040_masks) a (read_irqs n) = Some (outs, a') \<and> na_inv a' \<and>
    ep_tx_index (na_endpoint a') = 0 \<and> mb_collecting (mailbox_of (na_endpoint a')) = [] \<and>
    (mb_collecting (mailbox_of (na_endpoint a)) = [] \<longrightarrow>
       mb_pending (mailbox_of (na_endpoint a')) = mb_pending (mailbox_of (na_endpoint a))) \<and>
    concat (map app_served outs) =
       response (mb_outgoing (mailbox_of (na_endpoint a))) (mb_sent (mailbox_of (na_endpoint a))) n"
proof -
  obtain outs a1 where a1: "run (app_step rp2040_masks) a (replicate n (Interrupt 0x020 0)) = Some (outs, a1)" "na_inv a1"
    "mb_collecting (mailbox_of (na_endpoint a1)) = mb_collecting (mailbox_of (na_endpoint a))"
    "mb_pending (mailbox_of (na_endpoint a1)) = mb_pending (mailbox_of (na_endpoint a))"
    "concat (map app_served outs) =
       response (mb_outgoing (mailbox_of (na_endpoint a))) (mb_sent (mailbox_of (na_endpoint a))) n"
    using run_requests [OF assms] by blast
  obtain a' where a': "app_step rp2040_masks a1 (Interrupt 0x200 0) =
      Some (Handled [Read_raw_intr_stat, Read_clr_stop_det], a')" "na_inv a'"
    "mailbox_of (na_endpoint a') = mb_stop (mailbox_of (na_endpoint a1))" "ep_tx_index (na_endpoint a') = 0"
    by (rule stop_step [OF a1(2)])
  have "run (app_step rp2040_masks) a (read_irqs n) = Some (outs @ [Handled [Read_raw_intr_stat, Read_clr_stop_det]], a')"
    using a1(1) a'(1) by (simp add: read_irqs_def run_append del: app_step.simps)
  with a'(2,4) a1(3-5) show ?thesis
    by (intro exI [of _ "outs @ [Handled [Read_raw_intr_stat, Read_clr_stop_det]]"] exI [of _ a'])
      (simp add: a'(3) mb_stop_def)
qed

text \<open>The node is idle: nothing is half received, waiting, or half served.\<close>

definition node_idle :: "node_app \<Rightarrow> bool" where
  "node_idle a \<longleftrightarrow> mb_collecting (mailbox_of (na_endpoint a)) = [] \<and> \<not> has_pending_frame (na_endpoint a) \<and>
     ep_tx_index (na_endpoint a) = 0"

lemma node_idle_mailbox:
  "node_idle a \<longleftrightarrow> mb_collecting (mailbox_of (na_endpoint a)) = [] \<and> mb_pending (mailbox_of (na_endpoint a)) = None \<and>
     ep_tx_index (na_endpoint a) = 0"
  by (simp add: node_idle_def has_pending_frame_def mailbox_of_def)

text \<open>A write that comes in whole.\<close>

lemma run_written_command:
  assumes "na_inv a" and "node_idle a" and "frame_wf f"
  shows "\<exists>outs b. run (app_step rp2040_masks) a (write_irqs (encoded_bytes f)) = Some (outs, b) \<and> na_inv b \<and>
    concat (map app_served outs) = [] \<and> ep_tx_index (na_endpoint b) = 0 \<and>
    mb_collecting (mailbox_of (na_endpoint b)) = [] \<and> mb_pending (mailbox_of (na_endpoint b)) = Some (encoded_bytes f)"
proof -
  let ?m = "mailbox_of (na_endpoint a)"
  have idle: "mb_collecting ?m = []" "mb_pending ?m = None" using assms(2) by (simp_all add: node_idle_mailbox)
  have len: "length (encoded_bytes f) \<le> 40" "encoded_bytes f \<noteq> []"
    using assms(3) wire_len_le [of f] by (simp_all add: encoded_bytes_image shape)
  obtain outs1 a1 where a1: "run (app_step rp2040_masks) a (map (\<lambda>b. Interrupt 0x004 (ucast b)) (encoded_bytes f)) =
      Some (outs1, a1)" "na_inv a1" "concat (map app_served outs1) = []"
    "mailbox_of (na_endpoint a1) = ?m\<lparr>mb_collecting := encoded_bytes f\<rparr>"
    using run_written [OF assms(1), of "encoded_bytes f"] idle len by auto
  obtain b where b: "app_step rp2040_masks a1 (Interrupt 0x200 0) =
      Some (Handled [Read_raw_intr_stat, Read_clr_stop_det], b)" "na_inv b"
    "mailbox_of (na_endpoint b) = mb_stop (mailbox_of (na_endpoint a1))" "ep_tx_index (na_endpoint b) = 0"
    by (rule stop_step [OF a1(2)])
  have "mailbox_of (na_endpoint b) = ?m\<lparr>mb_collecting := [], mb_pending := Some (encoded_bytes f), mb_sent := 0\<rparr>"
    using b(3) a1(4) idle len by (simp add: mb_stop_def)
  with a1(1,3) b(1,2,4) show ?thesis
    unfolding write_irqs_def by (intro exI [of _ "outs1 @ [Handled [Read_raw_intr_stat, Read_clr_stop_det]]"] exI [of _ b])
      (simp add: run_append del: app_step.simps)
qed

text \<open>The turn that receives a command, and the read that fetches its acknowledgement.\<close>

lemma run_answer:
  assumes "na_inv a" and "mb_collecting (mailbox_of (na_endpoint a)) = []" and "ep_tx_index (na_endpoint a) = 0"
    and "mb_pending (mailbox_of (na_endpoint a)) = Some (encoded_bytes f)"
    and "frame_wf f" and "f_flags f AND kFlagAckRequired \<noteq> 0"
  shows "\<exists>outs b s ack. run (app_step rp2040_masks) a (Turn t t' # read_irqs n) = Some (outs, b) \<and>
    na_inv b \<and> node_idle b \<and> outs ! 0 = Received (Some (canon f)) \<and>
    make_ack_frame kNodeId s (f_sequence f) ack_accepted = Some ack \<and>
    concat (map app_served outs) = take n (encoded_bytes ack @ replicate n 0)"
proof -
  have f: "incoming_frame (mb_pending (mailbox_of (na_endpoint a))) = Some (canon f)"
    "wants_ack (Some (canon f))" "f_sequence (canon f) = f_sequence f"
    using assms(5,6) by (simp_all add: assms(4) incoming_encoded wants_ack_def canon_def)
  obtain a2 s ack where a2: "node_loop_body t t' a = Some (Some (canon f), a2)" "na_inv a2"
    "mb_pending (mailbox_of (na_endpoint a2)) = None" "mb_collecting (mailbox_of (na_endpoint a2)) = []"
    "mb_sent (mailbox_of (na_endpoint a2)) = 0" "make_ack_frame kNodeId s (f_sequence f) ack_accepted = Some ack"
    "mb_outgoing (mailbox_of (na_endpoint a2)) = encoded_bytes ack"
    using node_loop_body_answers [OF assms(1,3) f(1,2), of t t'] f(3) assms(2) by (auto simp: mailbox_of_def)
  obtain outs b where b: "run (app_step rp2040_masks) a2 (read_irqs n) = Some (outs, b)" "na_inv b"
    "ep_tx_index (na_endpoint b) = 0" "mb_collecting (mailbox_of (na_endpoint b)) = []"
    "mb_pending (mailbox_of (na_endpoint b)) = None"
    "concat (map app_served outs) = response (encoded_bytes ack) 0 n"
    using run_read [OF a2(2), of n] a2(3-5,7) by auto
  with a2(1,6) show ?thesis
    by (intro exI [of _ "Received (Some (canon f)) # outs"] exI [of _ b] exI [of _ s] exI [of _ ack])
      (simp add: response_def node_idle_mailbox)
qed

text \<open>
  A command is acknowledged on the bus. When a running node is idle and the controller
  writes the encoding of a frame that asks for an acknowledgement, the next turn of the main
  loop receives this frame, and a following read of \<open>n\<close> bytes returns an acknowledgement from
  node 0 for its sequence, with status \<open>accepted\<close>, padded with zeros - also when a heartbeat
  falls due in that turn. Afterwards the node is idle again.
\<close>

theorem node_acknowledges_commands:
  assumes "node_main_start enable t0 = Some (Inr a0)" and "run (app_step rp2040_masks) a0 evs = Some (outs0, a)"
    and "node_idle a" and "frame_wf f" and "f_flags f AND kFlagAckRequired \<noteq> 0"
  shows "\<exists>outs outs' b ack.
    run (app_step rp2040_masks) a (write_irqs (encoded_bytes f) @ Turn t t' # read_irqs n) = Some (outs @ outs', b) \<and>
    length outs = Suc (length (encoded_bytes f)) \<and> concat (map app_served outs) = [] \<and>
    outs' ! 0 = Received (Some (canon f)) \<and>
    concat (map app_served outs') = take n (encoded_bytes ack @ replicate n 0) \<and>
    f_node_id ack = kNodeId \<and> parse_ack_frame ack = Some (Some (f_sequence f, ack_accepted)) \<and> node_idle b"
proof -
  have "na_inv a0" using node_main_start_ok [of enable t0] assms(1) by auto
  then have inv: "na_inv a" using app.run_inv assms(2) by blast
  obtain outs a1 where a1: "run (app_step rp2040_masks) a (write_irqs (encoded_bytes f)) = Some (outs, a1)"
    "na_inv a1" "concat (map app_served outs) = []" "ep_tx_index (na_endpoint a1) = 0"
    "mb_collecting (mailbox_of (na_endpoint a1)) = []"
    "mb_pending (mailbox_of (na_endpoint a1)) = Some (encoded_bytes f)"
    using run_written_command [OF inv assms(3,4)] by blast
  obtain outs' b s ack where b: "run (app_step rp2040_masks) a1 (Turn t t' # read_irqs n) = Some (outs', b)"
    "node_idle b" "outs' ! 0 = Received (Some (canon f))" "make_ack_frame kNodeId s (f_sequence f) ack_accepted = Some ack"
    "concat (map app_served outs') = take n (encoded_bytes ack @ replicate n 0)"
    using run_answer [OF a1(2,5,4,6) assms(4,5), of t t' n] by blast
  have "run (app_step rp2040_masks) a (write_irqs (encoded_bytes f) @ Turn t t' # read_irqs n) = Some (outs @ outs', b)"
    using a1(1) b(1) by (simp add: run_append del: app_step.simps run.simps)
  moreover have "length outs = Suc (length (encoded_bytes f))"
    using run_length [OF a1(1)] by (simp add: write_irqs_def)
  ultimately show ?thesis using a1(3) b(2,3,5) ack_parsed [OF b(4)] by blast
qed

theorem node_acknowledges_commands_witness:
  "\<exists>a ack outs outs' b. node_main_start 0 2000 = Some (Inr a) \<and>
    run (app_step rp2040_masks) a (write_irqs (encoded_bytes ack_command) @ Turn 1000000 1000004 # read_irqs 40) =
      Some (outs @ outs', b) \<and> length outs = 9 \<and>
    concat (map app_served outs') = take 40 (encoded_bytes ack @ replicate 40 0) \<and>
    parse_ack_frame ack = Some (Some (5, ack_accepted)) \<and> node_idle b"
proof -
  define a where "a = projr (the (node_main_start 0 2000))"
  have start: "node_main_start 0 2000 = Some (Inr a)" "run (app_step rp2040_masks) a [] = Some ([], a)" "node_idle a"
    unfolding a_def by code_simp+
  have f: "frame_wf ack_command" "f_flags ack_command AND kFlagAckRequired \<noteq> 0" "f_sequence ack_command = 5"
    "length (encoded_bytes ack_command) = 8"
    by code_simp+
  from node_acknowledges_commands [OF start f(1,2), of 1000000 1000004 40] start(1) f(3,4) show ?thesis by fastforce
qed
end
