(* ===== verification/Pico_Bus.thy ===== *)
theory Pico_Bus
  imports Command_System Node_Application
begin

text \<open>
  The controller sketch and the node program on one bus: a driver of \<open>Wire\<close> whose world is a
  running node. It instantiates the parameter of \<open>Wire_Transport\<close>: a write interrupts the node
  once per byte and once for the stop; a request lets the node's main loop take one turn and
  then reads the bytes. It satisfies \<open>fifo_wire\<close>, and the node at its end is a \<open>command_partner\<close>.
\<close>

record pico_bus =
  pb_node :: node_app
  pb_rx :: "u8 list"
  pb_log :: "app_output list"

text \<open>Events at the node; it never fails (\<open>app\<close>), so the other branch is never taken.\<close>

definition at_node :: "app_event list \<Rightarrow> pico_bus \<Rightarrow> app_output list \<times> pico_bus" where
  "at_node evs w = (case run (app_step rp2040_masks) (pb_node w) evs of
     Some (outs, a) \<Rightarrow> (outs, w\<lparr>pb_node := a, pb_log := pb_log w @ outs\<rparr>)
   | None \<Rightarrow> ([], w))"

definition bus_driver :: "u64 \<Rightarrow> u64 \<Rightarrow> pico_bus two_wire" where
  "bus_driver t t' =
     \<lparr>tw_beginTransmission = (\<lambda>a w. w),
      tw_write = (\<lambda>bs w. (length bs, snd (at_node (write_irqs bs) w))),
      tw_endTransmission = (\<lambda>w. (0, w)),
      tw_requestFrom = (\<lambda>a n w. let (outs, w) = at_node (Turn t t' # read_irqs (unat n)) w;
                                    rx = take (unat n) (concat (map app_served outs))
                                in (length rx, w\<lparr>pb_rx := rx\<rparr>)),
      tw_available = (\<lambda>w. int (length (pb_rx w))),
      tw_read = (\<lambda>w. case pb_rx w of [] \<Rightarrow> (-1, w) | b # r \<Rightarrow> (int (unat b), w\<lparr>pb_rx := r\<rparr>))\<rparr>"

lemma fifo_bus_driver: "fifo_wire (bus_driver t t') pb_rx"
  by (auto simp: fifo_wire_def bus_driver_def split_beta Let_def)

text \<open>The driver's buffer is not the node: reading from it leaves the node alone, and a receive is
  one request at the node.\<close>

definition node_of :: "pico_bus \<Rightarrow> node_app \<times> app_output list" where
  "node_of w = (pb_node w, pb_log w)"

lemma bus_receive_node:
  assumes "receive_frame (wire_receive (bus_driver t t') addr) w = Some (r, n, w')"
  shows "pb_node w' = pb_node (snd (at_node (Turn t t' # read_irqs 40) w)) \<and>
    pb_log w' = pb_log (snd (at_node (Turn t t' # read_irqs 40) w))"
proof -
  have "node_of (snd (tw_read (bus_driver t t') w)) = node_of w" for w
    by (simp add: bus_driver_def node_of_def split: list.split)
  from wire_receive_frame_keeps [where view = node_of, OF fifo_bus_driver this assms] show ?thesis
    by (auto simp: node_of_def bus_driver_def split_beta Let_def)
qed

section \<open>A command settled in one turn\<close>

lemma bus_send:
  "frame_wf f \<Longrightarrow> send_frame (wire_send (bus_driver t t') addr) w f = Some (True, snd (at_node (write_irqs (encoded_bytes f)) w))"
  by (simp add: wire_send_frame bus_driver_def)

text \<open>The node's side of one turn of the controller: a command written, then its answer read.\<close>

lemma bus_exchange:
  assumes inv: "na_inv (pb_node w)" "node_idle (pb_node w)" and f: "frame_wf f" "f_flags f AND kFlagAckRequired \<noteq> 0"
  obtains w1 w2 ack where "snd (at_node (write_irqs (encoded_bytes f)) w) = w1"
    "receive_frame (wire_receive (bus_driver t t') addr) w1 =
       Some (\<lparr>dr_frame = ack, dr_error = No_error\<rparr>, length (encoded_bytes ack), w2)"
    "parse_ack_frame ack = Some (Some (f_sequence f, ack_accepted))" "f_node_id ack = kNodeId" "f_type ack = acknowledgement"
    "na_inv (pb_node w2)" "node_idle (pb_node w2)" "Received (Some (canon f)) \<in> set (pb_log w2)"
proof -
  obtain outs a1 where a1: "run (app_step rp2040_masks) (pb_node w) (write_irqs (encoded_bytes f)) = Some (outs, a1)"
    "na_inv a1" "ep_tx_index (na_endpoint a1) = 0" "mb_collecting (mailbox_of (na_endpoint a1)) = []"
    "mb_pending (mailbox_of (na_endpoint a1)) = Some (encoded_bytes f)"
    using run_written_command [OF inv f(1)] by blast
  define w1 where "w1 = snd (at_node (write_irqs (encoded_bytes f)) w)"
  have n1: "pb_node w1 = a1" by (simp add: w1_def at_node_def a1(1))
  obtain outs' b s ack where b: "run (app_step rp2040_masks) (pb_node w1) (Turn t t' # read_irqs 40) = Some (outs', b)"
    "na_inv b" "node_idle b" "outs' ! 0 = Received (Some (canon f))"
    "make_ack_frame kNodeId s (f_sequence f) ack_accepted = Some ack"
    "concat (map app_served outs') = take 40 (encoded_bytes ack @ replicate 40 0)"
    using run_answer [OF a1(2,4,3,5) f, of t t' 40] unfolding n1 by blast
  note ack = ack_canonical [OF b(5)]
  let ?w' = "snd (at_node (Turn t t' # read_irqs 40) w1)"
  let ?rx = "take 40 (concat (map app_served outs'))"
  have at: "at_node (Turn t t' # read_irqs 40) w1 = (outs', w1\<lparr>pb_node := b, pb_log := pb_log w1 @ outs'\<rparr>)"
    using b(1) by (simp add: at_node_def del: run.simps)
  have req: "tw_requestFrom (bus_driver t t') addr (of_nat kMaxEncodedFrameSize) w1 = (length ?rx, ?w'\<lparr>pb_rx := ?rx\<rparr>)"
    by (simp add: bus_driver_def at)
  have "length (encoded_bytes ack) \<le> 40"
    using ack wire_len_le [of ack] by (simp add: encoded_bytes_image shape)
  then have rx: "pb_rx (?w'\<lparr>pb_rx := ?rx\<rparr>) = encoded_bytes ack @ replicate (40 - length (encoded_bytes ack)) 0"
    by (simp add: b(6))
  obtain w2 where w2: "receive_frame (wire_receive (bus_driver t t') addr) w1 =
      Some (\<lparr>dr_frame = canon ack, dr_error = No_error\<rparr>, length (encoded_bytes ack), w2)"
    using wire_receive_frame_padded [OF fifo_bus_driver conjunct2 [OF ack] req rx] by blast
  have "pb_node w2 = b" "pb_log w2 = pb_log w1 @ outs'" using bus_receive_node [OF w2] by (simp_all add: at)
  moreover have "canon ack = ack" using ack by (simp add: canon_canonical)
  moreover have "Received (Some (canon f)) \<in> set outs'"
    using b(4) run_length [OF b(1)] by (metis length_Cons nth_mem zero_less_Suc)
  ultimately show thesis
    using that [of w1 ack w2] w2 b(2,3) ack_parsed [OF b(5)] by (simp add: w1_def)
qed

text \<open>Reading an idle node leaves it idle.\<close>

lemma idle_poll:
  assumes "na_inv (pb_node w)" and "node_idle (pb_node w)"
    and "receive_frame (wire_receive (bus_driver t t') addr) w = Some (r, n, w')"
  shows "na_inv (pb_node w') \<and> node_idle (pb_node w')"
proof -
  obtain a where a: "node_loop_body t t' (pb_node w) = Some (incoming_frame (mb_pending (mailbox_of (na_endpoint (pb_node w)))), a)"
    "na_inv a" "mb_pending (mailbox_of (na_endpoint a)) = None"
    "mb_collecting (mailbox_of (na_endpoint a)) = []"
    using node_loop_body_effect [OF assms(1), of t t'] assms(2) by (auto simp: node_idle_mailbox)
  obtain outs b where b: "run (app_step rp2040_masks) a (read_irqs 40) = Some (outs, b)" "na_inv b"
    "ep_tx_index (na_endpoint b) = 0" "mb_collecting (mailbox_of (na_endpoint b)) = []"
    "mb_pending (mailbox_of (na_endpoint b)) = None"
    using run_read [OF a(2), of 40] a(3,4) by auto
  have "pb_node (snd (at_node (Turn t t' # read_irqs 40) w)) = b" using a(1) b(1) by (simp add: at_node_def)
  with b bus_receive_node [OF assms(3)] show ?thesis by (simp add: node_idle_mailbox)
qed

section \<open>The node is the controller's partner\<close>

definition pico_ready :: "pico_bus \<Rightarrow> bool" where
  "pico_ready w \<longleftrightarrow> na_inv (pb_node w) \<and> node_idle (pb_node w)"

definition pico_got :: "pico_bus \<Rightarrow> frame set" where
  "pico_got w = {f. Received (Some f) \<in> set (pb_log w)}"

interpretation pico_partner: command_partner "\<lambda>i. bus_driver (fst i) (snd i)" pb_rx pico_ready pico_got
proof
  show "fifo_wire (bus_driver (fst i) (snd i)) pb_rx" for i by (rule fifo_bus_driver)
  show "\<exists>w1 w2 ack n.
      send_frame (wire_send (bus_driver (fst i) (snd i)) kNodeAddress_rcc) w f = Some (True, w1) \<and>
      receive_frame (wire_receive (bus_driver (fst i) (snd i)) kNodeAddress_rcc) w1 =
        Some (\<lparr>dr_frame = ack, dr_error = No_error\<rparr>, n, w2) \<and>
      parse_ack_frame ack = Some (Some (f_sequence f, ack_accepted)) \<and> f_node_id ack = kNodeId_rcc \<and>
      f_type ack = acknowledgement \<and> pico_ready w2 \<and> f \<in> pico_got w2"
    if "pico_ready w" "frame_wf f" "canonical f" "f_flags f AND kFlagAckRequired \<noteq> 0" for i w f
  proof -
    have w: "na_inv (pb_node w)" "node_idle (pb_node w)" using that(1) by (simp_all add: pico_ready_def)
    from bus_exchange [OF w that(2,4), where t = "fst i" and t' = "snd i" and addr = kNodeAddress_rcc]
    obtain w1 w2 ack where x: "snd (at_node (write_irqs (encoded_bytes f)) w) = w1"
      "receive_frame (wire_receive (bus_driver (fst i) (snd i)) kNodeAddress_rcc) w1 =
         Some (\<lparr>dr_frame = ack, dr_error = No_error\<rparr>, length (encoded_bytes ack), w2)"
      "parse_ack_frame ack = Some (Some (f_sequence f, ack_accepted))" "f_node_id ack = kNodeId"
      "f_type ack = acknowledgement" "na_inv (pb_node w2)" "node_idle (pb_node w2)"
      "Received (Some (canon f)) \<in> set (pb_log w2)" by blast
    have "f_node_id ack = kNodeId_rcc" using x(4) by (simp add: kNodeId_def kNodeId_rcc_def)
    moreover have "pico_ready w2 \<and> f \<in> pico_got w2"
      using x(6-8) that(3) by (simp add: pico_ready_def pico_got_def canon_canonical)
    ultimately show ?thesis using x(1-3,5) bus_send [OF that(2)] by blast
  qed
  show "pico_ready w'" if "pico_ready w"
    "receive_frame (wire_receive (bus_driver (fst i) (snd i)) kNodeAddress_rcc) w = Some (r, n, w')" for i w r n w'
    using idle_poll [OF _ _ that(2)] that(1) by (simp add: pico_ready_def)
qed

text \<open>A node that has started is ready.\<close>

lemma started_ready:
  assumes "node_main_start enable t = Some (Inr a)"
  shows "pico_ready \<lparr>pb_node = a, pb_rx = bs, pb_log = []\<rparr>"
proof -
  obtain f where a: "na_inv a" "mailbox_of (na_endpoint a) = (mailbox_of I2cPeripheralEndpoint)\<lparr>mb_outgoing := encoded_bytes f\<rparr>"
    using node_main_start_ok [of enable t] assms by auto
  then have "mb_sent (mailbox_of (na_endpoint a)) = 0" by (simp add: mailbox_of_def I2cPeripheralEndpoint_def)
  then show ?thesis
    using a by (simp add: pico_ready_def node_idle_mailbox mailbox_of_def slice_def I2cPeripheralEndpoint_def unat_eq_0)
qed

end
