(* ===== verification/Wire_Endpoint.thy ===== *)
theory Wire_Endpoint
  imports Wire_Transport Endpoint_Client
begin

text \<open>
  The Arduino peripheral endpoint (class \<open>WirePeripheralEndpoint\<close> of
  \<open>src/arduino/wire_transport.h\<close> and \<open>.cpp\<close>): its state, callbacks and calls, and the mailbox
  it implements when callbacks interrupt the sketch.
\<close>

section \<open>The code\<close>

record wire_endpoint =
  we_wire :: "nat option"
  we_rx_bytes :: "u8 list"
  we_rx_length :: u8
  we_rx_ready :: bool
  we_tx_bytes :: "u8 list"
  we_tx_length :: u8

definition WirePeripheralEndpoint :: wire_endpoint where
  "WirePeripheralEndpoint =
     \<lparr>we_wire = None, we_rx_bytes = replicate kMaxEncodedFrameSize 0, we_rx_length = 0, we_rx_ready = False,
      we_tx_bytes = replicate kMaxEncodedFrameSize 0, we_tx_length = 0\<rparr>"

definition receive_from_isr ::
  "'w two_wire \<Rightarrow> int \<Rightarrow> wire_endpoint \<Rightarrow> 'w \<Rightarrow> (wire_endpoint \<times> 'w) option" where
  "receive_from_isr tw n e w = do {
     (len, rx, w) \<leftarrow> wire_fill tw kMaxEncodedFrameSize 0 (nat n) (we_rx_bytes e) w;
     w \<leftarrow> wire_drain tw w;
     Some (e\<lparr>we_rx_bytes := rx, we_rx_length := of_nat len, we_rx_ready := len > 0\<rparr>, w)
   }"

text \<open>The bytes that the callback passes to \<open>wire_->write\<close>, if it calls it.\<close>

definition request_from_isr :: "wire_endpoint \<Rightarrow> u8 list option option" where
  "request_from_isr e =
     (if we_tx_length e > 0
      then map_option Some (pass_bytes (we_tx_bytes e) (unat (we_tx_length e))) else Some None)"

definition we_publish :: "wire_endpoint \<Rightarrow> frame \<Rightarrow> (bool \<times> wire_endpoint) option" where
  "we_publish e f = do {
     encoded \<leftarrow> encode_frame f;
     if ef_length encoded = 0 \<or> ef_length encoded > kMaxEncodedFrameSize then Some (False, e)
     else do {
       tx \<leftarrow> copy_n (ef_bytes encoded) 0 (ef_length encoded) (we_tx_bytes e) 0;
       Some (True, e\<lparr>we_tx_bytes := tx, we_tx_length := of_nat (ef_length encoded)\<rparr>)
     }
   }"

text \<open>
  \<open>poll\<close> tests the flag with interrupts enabled and takes the frame in a critical section; a
  callback may run between the two.
\<close>

definition we_take ::
  "wire_endpoint \<Rightarrow> frame \<Rightarrow> decode_error option \<Rightarrow>
   (bool \<times> frame \<times> decode_error option \<times> wire_endpoint) option" where
  "we_take e frame err = do {
     let local_length = unat (we_rx_length e);
     local_bytes \<leftarrow> copy_n (we_rx_bytes e) 0 local_length (replicate kMaxEncodedFrameSize 0) 0;
     let e = e\<lparr>we_rx_ready := False, we_rx_length := 0\<rparr>;
     decoded \<leftarrow> decode_frame (Some local_bytes) local_length;
     if \<not> decode_ok decoded then Some (False, frame, map_option (\<lambda>_. dr_error decoded) err, e)
     else Some (True, dr_frame decoded, map_option (\<lambda>_. No_error) err, e)
   }"

definition we_poll ::
  "wire_endpoint \<Rightarrow> frame \<Rightarrow> decode_error option \<Rightarrow>
   (bool \<times> frame \<times> decode_error option \<times> wire_endpoint) option" where
  "we_poll e frame err = (if \<not> we_rx_ready e then Some (False, frame, err, e) else we_take e frame err)"

definition we_has_pending_frame :: "wire_endpoint \<Rightarrow> bool" where
  "we_has_pending_frame e = we_rx_ready e"

text \<open>
  Endpoint objects, and the \<open>TwoWire\<close> objects that \<open>wire_\<close> points to, are numbered; \<open>active\<close> is
  the static pointer \<open>active_\<close>. The calls on the \<open>TwoWire\<close> object are a log.
\<close>

datatype wire_call = Wire_begin nat u8 | Wire_onReceive nat | Wire_onRequest nat

definition we_begin ::
  "nat option \<Rightarrow> wire_endpoint list \<Rightarrow> nat \<Rightarrow> u8 \<Rightarrow> nat \<Rightarrow>
   (bool \<times> wire_call list \<times> nat option \<times> wire_endpoint list) option" where
  "we_begin active objs this address wire =
     (if active \<noteq> None \<and> active \<noteq> Some this then Some (False, [], active, objs)
      else do {
        e \<leftarrow> rd objs this;
        objs \<leftarrow> wr objs this (e\<lparr>we_wire := Some wire\<rparr>);
        Some (True, [Wire_begin wire address, Wire_onReceive wire, Wire_onRequest wire], Some this, objs)
      })"

text \<open>The callbacks go to the active endpoint, if there is one.\<close>

definition receive_callback ::
  "'w two_wire \<Rightarrow> int \<Rightarrow> nat option \<Rightarrow> wire_endpoint list \<Rightarrow> 'w \<Rightarrow> (wire_endpoint list \<times> 'w) option" where
  "receive_callback tw n active objs w = (case active of
     None \<Rightarrow> Some (objs, w)
   | Some this \<Rightarrow> do {
       e \<leftarrow> rd objs this;
       (e, w) \<leftarrow> receive_from_isr tw n e w;
       objs \<leftarrow> wr objs this e;
       Some (objs, w)
     })"

definition request_callback :: "nat option \<Rightarrow> wire_endpoint list \<Rightarrow> u8 list option option" where
  "request_callback active objs = (case active of
     None \<Rightarrow> Some None
   | Some this \<Rightarrow> do { e \<leftarrow> rd objs this; request_from_isr e })"

section \<open>The mailbox\<close>

definition we_inv :: "wire_endpoint \<Rightarrow> bool" where
  "we_inv e \<longleftrightarrow> length (we_rx_bytes e) = 40 \<and> length (we_tx_bytes e) = 40 \<and>
     we_rx_length e \<le> 40 \<and> we_tx_length e \<le> 40 \<and> (we_rx_ready e \<longleftrightarrow> we_rx_length e \<noteq> 0)"

definition we_pending :: "wire_endpoint \<Rightarrow> u8 list" where
  "we_pending e = take (unat (we_rx_length e)) (we_rx_bytes e)"

definition we_outgoing :: "wire_endpoint \<Rightarrow> u8 list" where
  "we_outgoing e = take (unat (we_tx_length e)) (we_tx_bytes e)"

lemma we_inv_start: "we_inv WirePeripheralEndpoint"
  by (simp add: we_inv_def WirePeripheralEndpoint_def)

lemma we_lengths:
  assumes "we_inv e"
  shows "unat (we_rx_length e) \<le> 40" "unat (we_tx_length e) \<le> 40"
    "we_pending e = [] \<longleftrightarrow> \<not> we_rx_ready e" "we_outgoing e = [] \<longleftrightarrow> we_tx_length e = 0"
  using assms by (auto simp: we_inv_def we_pending_def we_outgoing_def word_le_nat_alt unat_eq_0)

lemma receive_from_isr_ok:
  assumes tw: "fifo_wire tw buf" and inv: "we_inv e"
  shows "\<exists>e' w'. receive_from_isr tw n e w = Some (e', w') \<and> we_inv e' \<and>
    we_pending e' = take 40 (take (nat n) (buf w)) \<and> we_outgoing e' = we_outgoing e \<and> buf w' = []"
proof -
  define got where "got = take 40 (take (nat n) (buf w))"
  have got40: "length got \<le> 40" by (simp add: got_def)
  have rx: "length (we_rx_bytes e) = 40" using inv by (simp add: we_inv_def)
  obtain w1 where w1: "wire_fill tw 40 0 (nat n) (we_rx_bytes e) w =
      Some (length got, got @ drop (length got) (we_rx_bytes e), w1)"
    using wire_fill_fifo [OF tw, of 40 "we_rx_bytes e" 0 "nat n" w] rx by (auto simp: got_def)
  obtain w2 where w2: "wire_drain tw w1 = Some w2" "buf w2 = []"
    using wire_drain_fifo [OF tw] by blast
  have len: "unat (of_nat (length got) :: u8) = length got"
    by (rule unat_of_nat_u8) (use got40 in simp)
  then have le: "(of_nat (length got) :: u8) \<le> 40" using got40 by (simp add: word_le_nat_alt)
  have nz: "(of_nat (length got) :: u8) \<noteq> 0 \<longleftrightarrow> got \<noteq> []"
    using len by (metis length_0_conv unat_eq_0)
  let ?e = "e\<lparr>we_rx_bytes := got @ drop (length got) (we_rx_bytes e),
    we_rx_length := of_nat (length got), we_rx_ready := 0 < length got\<rparr>"
  have "receive_from_isr tw n e w = Some (?e, w2)"
    using w1 w2 by (simp add: receive_from_isr_def)
  moreover have "we_inv ?e" using inv le nz got40 by (simp add: we_inv_def)
  moreover have "we_pending ?e = got" using len by (simp add: we_pending_def)
  ultimately show ?thesis unfolding got_def [symmetric] using w2 by (auto simp: we_outgoing_def)
qed

lemma request_from_isr_ok:
  "we_inv e \<Longrightarrow> request_from_isr e = Some (if we_outgoing e = [] then None else Some (we_outgoing e))"
  using we_lengths [of e] by (auto simp: request_from_isr_def pass_bytes_def we_outgoing_def we_inv_def
      word_neq_0_conv unat_gt_0)

lemma we_publish_ok:
  assumes inv: "we_inv e" and wf: "frame_wf f"
  shows "\<exists>e'. we_publish e f = Some (True, e') \<and> we_inv e' \<and> we_pending e' = we_pending e \<and>
    we_outgoing e' = wire_image f"
proof -
  obtain enc where enc: "encode_frame f = Some enc" using encode_frame_spec [OF wf] by blast
  note img = encode_frame_take [OF wf enc]
  then have t: "take (ef_length enc) (ef_bytes enc) = wire_image f" and l40: "length (ef_bytes enc) = 40"
    by blast+
  have "ef_length enc = 8 + wire_len f" using img length_wire_image [OF wf] by simp
  then have len: "0 < ef_length enc" "ef_length enc \<le> 40" using wire_len_le [of f] by linarith+
  have u: "unat (of_nat (ef_length enc) :: u8) = ef_length enc"
    by (rule unat_of_nat_u8) (use len in simp)
  then have le: "(of_nat (ef_length enc) :: u8) \<le> 40" using len by (simp add: word_le_nat_alt)
  have tx: "length (we_tx_bytes e) = 40" using inv by (simp add: we_inv_def)
  have "copy_n (ef_bytes enc) 0 (ef_length enc) (we_tx_bytes e) 0 =
      Some (wire_image f @ drop (ef_length enc) (we_tx_bytes e))"
    using t l40 tx len by (simp add: copy_n_in)
  then show ?thesis
    using inv enc len u le img tx
    by (auto simp: we_publish_def we_inv_def we_pending_def we_outgoing_def)
qed

lemma we_take_ok:
  assumes inv: "we_inv e" and r: "r = poll_answer (Some (we_pending e)) fr err"
  shows "\<exists>e'. we_take e fr err = Some (fst r, fst (snd r), snd (snd r), e') \<and> we_inv e' \<and>
    we_pending e' = [] \<and> we_outgoing e' = we_outgoing e"
proof -
  let ?n = "unat (we_rx_length e)"
  have n: "?n \<le> 40" "length (we_rx_bytes e) = 40" using inv we_lengths by (simp_all add: we_inv_def)
  have "copy_n (we_rx_bytes e) 0 ?n (replicate 40 0) 0 = Some (we_pending e @ replicate (40 - ?n) 0)"
    using n by (simp add: copy_n_in we_pending_def)
  moreover have "length (we_pending e) = ?n" using n by (simp add: we_pending_def)
  then have "decode_frame (Some (we_pending e @ replicate (40 - ?n) 0)) ?n =
      Some (decode_outcome (decode_spec (we_pending e)))"
    by (simp add: decode_frame_spec)
  moreover have "decode_spec (we_pending e) \<noteq> Inl No_error" by (rule decode_spec_not_No_error)
  ultimately show ?thesis
    using inv by (cases "decode_spec (we_pending e)")
      (auto simp: we_take_def r poll_answer_def decode_ok_def we_inv_def we_pending_def we_outgoing_def)
qed

section \<open>Callbacks and calls, interleaved\<close>

text \<open>
  A sketch: the endpoint and whether its main loop is inside \<open>poll\<close> after the test of the
  flag. A receive event carries the driver's state when the callback is entered and its count.
\<close>

record wire_node =
  wn_endpoint :: wire_endpoint
  wn_polling :: bool

datatype 'w wire_event = W_receive 'w int | W_request | W_publish frame | W_poll | W_take

datatype wire_output =
    W_done | W_write "u8 list option" | W_published bool | W_polled bool frame "decode_error option"
  | W_running | W_busy

definition Wire_node :: wire_node where
  "Wire_node = \<lparr>wn_endpoint = WirePeripheralEndpoint, wn_polling = False\<rparr>"

fun wire_step :: "'w two_wire \<Rightarrow> wire_node \<Rightarrow> 'w wire_event \<Rightarrow> (wire_output \<times> wire_node) option" where
  "wire_step tw s (W_receive w n) = do {
     (e, w) \<leftarrow> receive_from_isr tw n (wn_endpoint s) w;
     Some (W_done, s\<lparr>wn_endpoint := e\<rparr>)
   }"
| "wire_step tw s W_request = do {
     out \<leftarrow> request_from_isr (wn_endpoint s);
     Some (W_write out, s)
   }"
| "wire_step tw s (W_publish f) =
     (if \<not> wn_polling s \<and> frame_wf f then do {
        (ok, e) \<leftarrow> we_publish (wn_endpoint s) f;
        Some (W_published ok, s\<lparr>wn_endpoint := e\<rparr>)
      }
      else Some (W_busy, s))"
| "wire_step tw s W_poll =
     (if wn_polling s then Some (W_busy, s)
      else if \<not> we_rx_ready (wn_endpoint s) then Some (W_polled False Frame (Some No_error), s)
      else Some (W_running, s\<lparr>wn_polling := True\<rparr>))"
| "wire_step tw s W_take =
     (if wn_polling s then do {
        (ok, f, err, e) \<leftarrow> we_take (wn_endpoint s) Frame (Some No_error);
        Some (W_polled ok f err, \<lparr>wn_endpoint = e, wn_polling = False\<rparr>)
      }
      else Some (W_busy, s))"

text \<open>The specification: the last write, the last published frame, and where the loop is.\<close>

record wire_mailbox =
  wm_pending :: "u8 list"
  wm_outgoing :: "u8 list"
  wm_polling :: bool

fun wire_spec :: "('w \<Rightarrow> u8 list) \<Rightarrow> wire_mailbox \<Rightarrow> 'w wire_event \<Rightarrow> wire_output \<times> wire_mailbox" where
  "wire_spec buf m (W_receive w n) = (W_done, m\<lparr>wm_pending := take 40 (take (nat n) (buf w))\<rparr>)"
| "wire_spec buf m W_request =
     (W_write (if wm_outgoing m = [] then None else Some (wm_outgoing m)), m)"
| "wire_spec buf m (W_publish f) =
     (if \<not> wm_polling m \<and> frame_wf f then (W_published True, m\<lparr>wm_outgoing := wire_image f\<rparr>)
      else (W_busy, m))"
| "wire_spec buf m W_poll =
     (if wm_polling m then (W_busy, m)
      else if wm_pending m = [] then (W_polled False Frame (Some No_error), m)
      else (W_running, m\<lparr>wm_polling := True\<rparr>))"
| "wire_spec buf m W_take =
     (if wm_polling m
      then let (ok, f, err) = poll_answer (Some (wm_pending m)) Frame (Some No_error)
           in (W_polled ok f err, m\<lparr>wm_pending := [], wm_polling := False\<rparr>)
      else (W_busy, m))"

definition wire_mailbox_of :: "wire_node \<Rightarrow> wire_mailbox" where
  "wire_mailbox_of s = \<lparr>wm_pending = we_pending (wn_endpoint s), wm_outgoing = we_outgoing (wn_endpoint s),
     wm_polling = wn_polling s\<rparr>"

definition wire_node_inv :: "wire_node \<Rightarrow> bool" where
  "wire_node_inv s \<longleftrightarrow> we_inv (wn_endpoint s)"

lemma wire_step_ok:
  assumes tw: "fifo_wire tw buf" and inv: "wire_node_inv s"
  shows "\<exists>t. wire_step tw s ev = Some (fst (wire_spec buf (wire_mailbox_of s) ev), t) \<and> wire_node_inv t \<and>
    wire_mailbox_of t = snd (wire_spec buf (wire_mailbox_of s) ev)"
proof -
  have e: "we_inv (wn_endpoint s)" using inv by (simp add: wire_node_inv_def)
  note defs = wire_node_inv_def wire_mailbox_of_def
  show ?thesis
  proof (cases ev)
    case (W_receive w n)
    with receive_from_isr_ok [OF tw e, of n w] show ?thesis by (auto simp: defs)
  next
    case W_request
    with request_from_isr_ok [OF e] e show ?thesis by (simp add: defs)
  next
    case (W_publish f)
    with we_publish_ok [OF e, of f] e show ?thesis
      by (cases "\<not> wn_polling s \<and> frame_wf f") (auto simp: defs)
  next
    case W_poll
    with we_lengths [OF e] e show ?thesis by (simp add: defs)
  next
    case W_take
    with we_take_ok [OF e refl, of Frame "Some No_error"] e show ?thesis
      by (cases "wn_polling s") (auto simp: defs split_beta)
  qed
qed

lemma wire_node_refined:
  assumes tw: "fifo_wire tw buf"
  shows "refined_component (wire_step tw) wire_node_inv Wire_node (wire_spec buf) wire_mailbox_of"
proof
  show "wire_node_inv Wire_node" by (simp add: wire_node_inv_def Wire_node_def we_inv_start)
  show "\<exists>x t. wire_step tw s i = Some (x, t)" if "wire_node_inv s" for s i
    using wire_step_ok [OF tw that] by blast
  show "wire_node_inv t" if "wire_node_inv s" "wire_step tw s i = Some (x, t)" for s i x t
    using wire_step_ok [OF tw that(1), of i] that(2) by auto
  show "wire_spec buf (wire_mailbox_of s) i = (x, wire_mailbox_of t)"
    if "wire_node_inv s" "wire_step tw s i = Some (x, t)" for s i x t
    using wire_step_ok [OF tw that(1), of i] that(2) by (auto simp: prod_eq_iff)
qed

lemma wire_mailbox_start:
  "wire_mailbox_of Wire_node = \<lparr>wm_pending = [], wm_outgoing = [], wm_polling = False\<rparr>"
  by (simp add: wire_mailbox_of_def Wire_node_def we_pending_def we_outgoing_def WirePeripheralEndpoint_def)

section \<open>Theorems\<close>

text \<open>
  C30: The Arduino peripheral endpoint holds the last write and serves the last published
  frame, under every interleaving of its callbacks with the sketch, also when a callback runs
  between the test and the critical section of \<open>poll\<close>. No access leaves a buffer and every
  callback returns, provided that the driver's receive buffer behaves as documented.
\<close>

theorem wire_endpoint_implements_mailbox:
  assumes "fifo_wire tw buf"
  shows "\<exists>outs s. run (wire_step tw) Wire_node evs = Some (outs, s) \<and> we_inv (wn_endpoint s) \<and>
    spec_run (wire_spec buf) \<lparr>wm_pending = [], wm_outgoing = [], wm_polling = False\<rparr> evs =
      (outs, wire_mailbox_of s)"
proof -
  note r = wire_node_refined [OF assms]
  note safe = refined_component.axioms(1) [OF r]
  obtain outs s where run: "run (wire_step tw) Wire_node evs = Some (outs, s)" "wire_node_inv s"
    using safe_component.run_start_total [OF safe] by blast
  with refined_component.run_refines [OF r safe_component.inv_start [OF safe] run(1)] show ?thesis
    by (simp add: wire_mailbox_start wire_node_inv_def)
qed

theorem wire_endpoint_implements_mailbox_witness:
  "\<exists>s. run (wire_step (list_driver [])) Wire_node
      [W_publish sample_command, W_request, W_receive (encoded_bytes sample_command) 11, W_poll, W_take] =
    Some ([W_published True, W_write (Some (encoded_bytes sample_command)), W_done, W_running,
      W_polled True (canon sample_command) (Some No_error)], s)"
proof -
  let ?evs = "[W_publish sample_command, W_request, W_receive (encoded_bytes sample_command) 11, W_poll, W_take]"
  have "fst (spec_run (wire_spec (\<lambda>w. w)) \<lparr>wm_pending = [], wm_outgoing = [], wm_polling = False\<rparr> ?evs) =
      [W_published True, W_write (Some (encoded_bytes sample_command)), W_done, W_running,
       W_polled True (canon sample_command) (Some No_error)]"
    by code_simp
  with wire_endpoint_implements_mailbox [OF fifo_list_driver, of "[]" ?evs] show ?thesis by auto
qed

text \<open>Facts of the specification for the end-to-end claims.\<close>

lemma wire_reachable:
  assumes "fifo_wire tw buf" and "run (wire_step tw) Wire_node evs = Some (outs, s)"
  shows "wire_node_inv s" and "wire_step tw s ev = Some (out, t) \<Longrightarrow>
      wire_spec buf (wire_mailbox_of s) ev = (out, wire_mailbox_of t) \<and> wire_node_inv t"
proof -
  note r = wire_node_refined [OF assms(1)]
  note safe = refined_component.axioms(1) [OF r]
  show inv: "wire_node_inv s"
    by (rule safe_component.run_inv [OF safe safe_component.inv_start [OF safe] assms(2)])
  show "wire_step tw s ev = Some (out, t) \<Longrightarrow>
      wire_spec buf (wire_mailbox_of s) ev = (out, wire_mailbox_of t) \<and> wire_node_inv t"
    using refined_component.step_refines [OF r inv] safe_component.step_inv [OF safe inv] by blast
qed

text \<open>
  What the sketch polls is the newest write. After a write of the encoding of a frame (its
  byte count at least its length, at most 40 bytes in the driver's buffer), \<open>poll\<close> returns
  that frame, whatever was pending before, unless another write came in between; the endpoint
  keeps serving the last published frame.
\<close>

theorem newest_write_polled:
  assumes "fifo_wire tw buf" and "run (wire_step tw) Wire_node evs = Some (outs, s)"
    and "wn_polling s = False" and "frame_wf f" and "buf w = encoded_bytes f" and "int (length (buf w)) \<le> n"
  shows "\<exists>t. run (wire_step tw) s [W_receive w n, W_poll, W_take] =
      Some ([W_done, W_running, W_polled True (canon f) (Some No_error)], t) \<and>
    we_outgoing (wn_endpoint t) = we_outgoing (wn_endpoint s)"
proof -
  note r = wire_node_refined [OF assms(1)]
  note inv = wire_reachable(1) [OF assms(1,2)]
  have "length (encoded_bytes f) \<le> 40" "encoded_bytes f \<noteq> []"
    using assms(4) wire_len_le [of f] by (simp_all add: encoded_bytes_image shape)
  then have got: "take 40 (take (nat n) (buf w)) = wire_image f" "wire_image f \<noteq> []"
    using assms(4-6) by (simp_all add: encoded_bytes_image)
  have "spec_run (wire_spec buf) (wire_mailbox_of s) [W_receive w n, W_poll, W_take] =
      ([W_done, W_running, W_polled True (canon f) (Some No_error)],
       (wire_mailbox_of s)\<lparr>wm_pending := []\<rparr>)"
    using assms(3,4) got by (simp add: wire_mailbox_of_def poll_answer_def codec.dec_enc del: take_take)
  with refined_component.run_spec [OF r inv, of "[W_receive w n, W_poll, W_take]"]
  show ?thesis by (auto simp: wire_mailbox_of_def)
qed

theorem newest_write_polled_witness:
  "\<exists>t. run (wire_step (list_driver [])) Wire_node
      [W_receive (encoded_bytes sample_command) 11, W_poll, W_take] =
    Some ([W_done, W_running, W_polled True (canon sample_command) (Some No_error)], t)"
proof -
  have "int (length (encoded_bytes sample_command)) \<le> 11" "run (wire_step (list_driver [])) Wire_node [] = Some ([], Wire_node)"
    "wn_polling Wire_node = False" by code_simp+
  with newest_write_polled [OF fifo_list_driver, of "[]" "[]" "[]" Wire_node sample_command "encoded_bytes sample_command" 11]
  show ?thesis by auto
qed

text \<open>
  C31: An empty write erases a waiting frame. A receive callback without bytes, such as a bus
  scan that only addresses the node causes, leaves the endpoint with no pending frame: the next
  \<open>poll\<close> finds nothing, and a \<open>poll\<close> interrupted by it reports a frame that is too short.
\<close>

theorem empty_write_erases_pending:
  assumes "fifo_wire tw buf" and "run (wire_step tw) Wire_node evs = Some (outs, s)"
    and "buf w = [] \<or> n \<le> 0"
  shows "\<exists>t. wire_step tw s (W_receive w n) = Some (W_done, t) \<and> \<not> we_has_pending_frame (wn_endpoint t) \<and>
    (\<exists>u. wire_step tw t W_poll = Some (if wn_polling s then W_busy else W_polled False Frame (Some No_error), u)) \<and>
    (\<exists>u. wire_step tw t W_take = Some (if wn_polling s then W_polled False Frame (Some Too_short) else W_busy, u))"
proof -
  note r = wire_node_refined [OF assms(1)]
  note safe = refined_component.axioms(1) [OF r]
  note inv = wire_reachable(1) [OF assms(1,2)]
  obtain x t where t: "wire_step tw s (W_receive w n) = Some (x, t)" "wire_node_inv t"
    using safe_component.step_total [OF safe inv] by blast
  with wire_reachable(2) [OF assms(1,2) t(1)] have x: "x = W_done" and
    m: "wire_mailbox_of t = (wire_mailbox_of s)\<lparr>wm_pending := []\<rparr>" using assms(3) by auto
  have step: "\<exists>u. wire_step tw t ev = Some (fst (wire_spec buf (wire_mailbox_of t) ev), u)" for ev
    using wire_step_ok [OF assms(1) t(2)] by blast
  have np: "\<not> we_has_pending_frame (wn_endpoint t)"
    using m we_lengths(3) [of "wn_endpoint t"] t(2)
    by (simp add: we_has_pending_frame_def wire_mailbox_of_def wire_node_inv_def)
  have p: "fst (wire_spec buf (wire_mailbox_of t) W_poll) =
      (if wn_polling s then W_busy else W_polled False Frame (Some No_error))"
    and q: "fst (wire_spec buf (wire_mailbox_of t) W_take) =
      (if wn_polling s then W_polled False Frame (Some Too_short) else W_busy)"
    unfolding m by (simp_all add: wire_mailbox_of_def poll_answer_def decode_spec_def)
  from t(1) x np step [of W_poll, unfolded p] step [of W_take, unfolded q] show ?thesis by blast
qed

theorem empty_write_erases_pending_witness:
  "\<exists>t. run (wire_step (list_driver [])) Wire_node
      [W_receive (encoded_bytes sample_command) 11, W_receive [] 0] = Some ([W_done, W_done], t) \<and>
    \<not> we_has_pending_frame (wn_endpoint t)"
proof -
  have "\<exists>s. run (wire_step (list_driver [])) Wire_node [W_receive (encoded_bytes sample_command) 11] =
      Some ([W_done], s)"
    using wire_endpoint_implements_mailbox [OF fifo_list_driver, of "[]" "[W_receive (encoded_bytes sample_command) 11]"]
    by auto
  then obtain s where s: "run (wire_step (list_driver [])) Wire_node [W_receive (encoded_bytes sample_command) 11] =
      Some ([W_done], s)" by blast
  have "([] :: u8 list) = [] \<or> (0::int) \<le> 0" by simp
  from empty_write_erases_pending [OF fifo_list_driver s this] s show ?thesis
    by (auto split: Option.bind_splits)
qed

end
