(* ===== verification/Arduino_Node.thy ===== *)
theory Arduino_Node
  imports Wire_Endpoint
begin

text \<open>
  The peripheral sketch \<open>examples/ArduinoHeartbeatNode\<close>: \<open>setup\<close>, \<open>loop\<close>, and runs of loop turns
  and \<open>Wire\<close> callbacks.

  \<open>millis()\<close> is an argument of each step, printing is left out. Callbacks occur between turns
  here; \<open>Wire_Endpoint\<close> has the interleaving with the calls that a turn makes, and
  \<open>Sketch_Interleaving\<close> that with the whole sketch.
\<close>

section \<open>The sketch\<close>

definition kNodeId_ino :: u8 where "kNodeId_ino = 0"
definition kI2cAddress_ino :: u8 where "kI2cAddress_ino = 0x42"

record node_sketch =
  ns_active :: "nat option"
  ns_objects :: "wire_endpoint list"
  ns_sequence :: u8
  ns_last_heartbeat_ms :: u32

text \<open>The endpoint is object 0, \<open>Wire\<close> is \<open>TwoWire\<close> object 0.\<close>

definition Node_sketch :: node_sketch where
  "Node_sketch = \<lparr>ns_active = None, ns_objects = [WirePeripheralEndpoint], ns_sequence = 0,
     ns_last_heartbeat_ms = 0\<rparr>"

definition publishHeartbeat :: "u32 \<Rightarrow> wire_endpoint \<times> u8 \<Rightarrow> (wire_endpoint \<times> u8) option" where
  "publishHeartbeat uptime = publish_uptime we_publish kNodeId_ino uptime"

definition node_setup :: "u32 \<Rightarrow> node_sketch \<Rightarrow> node_sketch option" where
  "node_setup uptime s = do {
     (_, _, active, objs) \<leftarrow> we_begin (ns_active s) (ns_objects s) 0 kI2cAddress_ino 0;
     e \<leftarrow> rd objs 0;
     (e, sequence_number) \<leftarrow> publishHeartbeat uptime (e, ns_sequence s);
     objs \<leftarrow> wr objs 0 e;
     Some (s\<lparr>ns_active := active, ns_objects := objs, ns_sequence := sequence_number\<rparr>)
   }"

text \<open>The clock is read at the beginning of \<open>loop\<close> and, for a heartbeat, again.\<close>

definition node_loop :: "u32 \<Rightarrow> u32 \<Rightarrow> node_sketch \<Rightarrow> (frame option \<times> node_sketch) option" where
  "node_loop now uptime s = do {
     let due = now - ns_last_heartbeat_ms s \<ge> 1000;
     let s = (if due then s\<lparr>ns_last_heartbeat_ms := now\<rparr> else s);
     e \<leftarrow> rd (ns_objects s) 0;
     (received, e, sequence_number) \<leftarrow> node_turn we_publish we_poll kNodeId_ino due uptime (e, ns_sequence s);
     objs \<leftarrow> wr (ns_objects s) 0 e;
     Some (received, s\<lparr>ns_objects := objs, ns_sequence := sequence_number\<rparr>)
   }"

datatype 'w sketch_event = Loop u32 u32 | On_receive 'w int | On_request
datatype sketch_output = Loop_received "frame option" | Receive_done | Requested "u8 list option"

fun sketch_step :: "'w two_wire \<Rightarrow> node_sketch \<Rightarrow> 'w sketch_event \<Rightarrow> (sketch_output \<times> node_sketch) option" where
  "sketch_step tw s (Loop now uptime) = do {
     (received, s) \<leftarrow> node_loop now uptime s;
     Some (Loop_received received, s)
   }"
| "sketch_step tw s (On_receive w n) = do {
     (objs, _) \<leftarrow> receive_callback tw n (ns_active s) (ns_objects s) w;
     Some (Receive_done, s\<lparr>ns_objects := objs\<rparr>)
   }"
| "sketch_step tw s On_request = do {
     out \<leftarrow> request_callback (ns_active s) (ns_objects s);
     Some (Requested out, s)
   }"

section \<open>The Arduino endpoint keeps the contract\<close>

definition we_waiting :: "wire_endpoint \<Rightarrow> u8 list option" where
  "we_waiting e = (if we_rx_ready e then Some (we_pending e) else None)"

interpretation arduino: endpoint we_inv we_waiting we_outgoing "\<lambda>e. True" we_publish we_poll
proof
  have waiting: "we_waiting e = (if we_pending e = [] then None else Some (we_pending e))" if "we_inv e" for e
    using that we_lengths(3) by (auto simp: we_waiting_def)
  show "\<exists>e'. we_publish e f = Some (True, e') \<and> we_inv e' \<and> True = True \<and> we_waiting e' = we_waiting e \<and>
      we_outgoing e' = (if True then wire_image f else we_outgoing e)" if "we_inv e" "frame_wf f" for e f
    using we_publish_ok [OF that] waiting that(1) by auto
  show "\<exists>e'. we_poll e fr err = Some (fst r, fst (snd r), snd (snd r), e') \<and> we_inv e' \<and> True = True \<and>
      we_waiting e' = None \<and> we_outgoing e' = we_outgoing e"
    if "we_inv e" "r = poll_answer (we_waiting e) fr err" for e r fr err
  proof (cases "we_rx_ready e")
    case False
    with that show ?thesis by (simp add: we_poll_def we_waiting_def poll_answer_def)
  next
    case True
    then have "r = poll_answer (Some (we_pending e)) fr err" using that(2) by (simp add: we_waiting_def)
    from we_take_ok [OF that(1) this] True waiting show ?thesis by (auto simp: we_poll_def)
  qed
qed

section \<open>Runs of the sketch\<close>

text \<open>After \<open>setup\<close> the sketch's one endpoint is the active one.\<close>

definition ns_inv :: "node_sketch \<Rightarrow> bool" where
  "ns_inv s \<longleftrightarrow> ns_active s = Some 0 \<and> (\<exists>e. ns_objects s = [e] \<and> we_inv e)"

definition ns_endpoint :: "node_sketch \<Rightarrow> wire_endpoint" where
  "ns_endpoint s = hd (ns_objects s)"

lemma node_setup_ok:
  "\<exists>s f. node_setup uptime Node_sketch = Some s \<and> ns_inv s \<and> heartbeat_frame kNodeId_ino 0 uptime = Some f \<and>
     we_outgoing (ns_endpoint s) = encoded_bytes f \<and> we_waiting (ns_endpoint s) = None"
proof -
  have inv: "we_inv (WirePeripheralEndpoint\<lparr>we_wire := Some 0\<rparr>)" using we_inv_start by (simp add: we_inv_def)
  have "we_waiting (WirePeripheralEndpoint\<lparr>we_wire := Some 0\<rparr>) = None" by (simp add: we_waiting_def WirePeripheralEndpoint_def)
  note none = this
  obtain f where f: "heartbeat_frame kNodeId_ino 0 uptime = Some f" "frame_wf f"
    using heartbeat_frame_eq by blast
  from arduino.publish_uptime_effect [OF inv, of kNodeId_ino uptime 0] f none show ?thesis
    by (auto simp: node_setup_def we_begin_def Node_sketch_def publishHeartbeat_def ns_inv_def ns_endpoint_def
        ub_simps encoded_bytes_image)
qed

lemma node_loop_effect:
  assumes "ns_inv s"
  shows "\<exists>t. node_loop now uptime s = Some (incoming_frame (we_waiting (ns_endpoint s)), t) \<and> ns_inv t"
    and "wants_ack (incoming_frame (we_waiting (ns_endpoint s))) \<Longrightarrow>
      \<exists>t i ack. node_loop now uptime s = Some (incoming_frame (we_waiting (ns_endpoint s)), t) \<and> ns_inv t \<and>
        make_ack_frame kNodeId_ino i (f_sequence (the (incoming_frame (we_waiting (ns_endpoint s))))) ack_accepted = Some ack \<and>
        we_outgoing (ns_endpoint t) = encoded_bytes ack"
proof -
  obtain e where e: "ns_active s = Some 0" "ns_objects s = [e]" "we_inv e" "ns_endpoint s = e"
    using assms by (auto simp: ns_inv_def ns_endpoint_def)
  define due where "due \<longleftrightarrow> now - ns_last_heartbeat_ms s \<ge> 1000"
  note loop = node_loop_def Let_def due_def [symmetric] ns_inv_def ns_endpoint_def ub_simps
  show "\<exists>t. node_loop now uptime s = Some (incoming_frame (we_waiting (ns_endpoint s)), t) \<and> ns_inv t"
    using arduino.node_turn_effect(1) [OF e(3), of kNodeId_ino due uptime "ns_sequence s"] e
    by (cases due) (auto simp: loop)
  assume "wants_ack (incoming_frame (we_waiting (ns_endpoint s)))"
  then obtain e' s' i ack where t: "node_turn we_publish we_poll kNodeId_ino due uptime (e, ns_sequence s) =
      Some (incoming_frame (we_waiting e), e', s')" "we_inv e'" "we_outgoing e' = wire_image ack"
    "make_ack_frame kNodeId_ino i (f_sequence (the (incoming_frame (we_waiting e)))) ack_accepted = Some ack"
    using arduino.node_turn_effect(2) [OF e(3) TrueI, of kNodeId_ino due uptime "ns_sequence s"] e(4) by auto
  define t where "t = (if due then s\<lparr>ns_last_heartbeat_ms := now\<rparr> else s)\<lparr>ns_objects := [e'], ns_sequence := s'\<rparr>"
  have "node_loop now uptime s = Some (incoming_frame (we_waiting (ns_endpoint s)), t)"
    using t(1) e by (cases due) (simp_all add: loop t_def)
  moreover have "ns_inv t" "we_outgoing (ns_endpoint t) = encoded_bytes ack"
    using t(2,3) e(1) ack_canonical [OF t(4)]
    by (simp_all add: t_def ns_inv_def ns_endpoint_def encoded_bytes_image)
  ultimately show "\<exists>t i ack. node_loop now uptime s = Some (incoming_frame (we_waiting (ns_endpoint s)), t) \<and> ns_inv t \<and>
        make_ack_frame kNodeId_ino i (f_sequence (the (incoming_frame (we_waiting (ns_endpoint s))))) ack_accepted = Some ack \<and>
        we_outgoing (ns_endpoint t) = encoded_bytes ack" using t(4) e(4) by blast
qed

lemma on_receive_effect:
  assumes "fifo_wire tw buf" and "ns_inv s"
  shows "\<exists>t. sketch_step tw s (On_receive w n) = Some (Receive_done, t) \<and> ns_inv t \<and>
    we_pending (ns_endpoint t) = take 40 (take (nat n) (buf w)) \<and> we_outgoing (ns_endpoint t) = we_outgoing (ns_endpoint s)"
  using assms(2) receive_from_isr_ok [OF assms(1), of _ n w]
  by (fastforce simp: ns_inv_def ns_endpoint_def receive_callback_def ub_simps)

lemma on_request_effect:
  "ns_inv s \<Longrightarrow> sketch_step tw s On_request =
     Some (Requested (if we_outgoing (ns_endpoint s) = [] then None else Some (we_outgoing (ns_endpoint s))), s)"
  using request_from_isr_ok by (auto simp: ns_inv_def ns_endpoint_def request_callback_def ub_simps)

lemma sketch_step_ok:
  assumes "fifo_wire tw buf" and "ns_inv s"
  shows "\<exists>x t. sketch_step tw s ev = Some (x, t) \<and> ns_inv t"
proof (cases ev)
  case (Loop now uptime)
  with node_loop_effect(1) [OF assms(2), of now uptime] show ?thesis by auto
next
  case (On_receive w n)
  with on_receive_effect [OF assms, of w n] show ?thesis by auto
next
  case On_request
  with on_request_effect [OF assms(2), of tw] assms(2) show ?thesis by auto
qed

lemma sketch_safe:
  assumes "fifo_wire tw buf"
  shows "safe_component (sketch_step tw) ns_inv (the (node_setup t0 Node_sketch))"
proof
  show "ns_inv (the (node_setup t0 Node_sketch))" using node_setup_ok [of t0] by auto
  show "\<exists>x t. sketch_step tw s ev = Some (x, t)" if "ns_inv s" for s ev
    using sketch_step_ok [OF assms that] by blast
  show "ns_inv t" if "ns_inv s" "sketch_step tw s ev = Some (x, t)" for s ev x t
    using sketch_step_ok [OF assms that(1), of ev] that(2) by auto
qed

text \<open>A written command is received in the next turn, and its answer is served to the next request.\<close>

lemma written_command_answered:
  assumes tw: "fifo_wire tw buf" and inv: "ns_inv s"
    and f: "frame_wf f" "f_flags f AND kFlagAckRequired \<noteq> 0"
    and w: "buf w = encoded_bytes f" "int (length (buf w)) \<le> n"
  obtains s1 s2 i ack where "sketch_step tw s (On_receive w n) = Some (Receive_done, s1)" "ns_inv s1"
    "run (sketch_step tw) s1 [Loop now uptime, On_request] =
       Some ([Loop_received (Some (canon f)), Requested (Some (encoded_bytes ack))], s2)" "ns_inv s2"
    "make_ack_frame kNodeId_ino i (f_sequence f) ack_accepted = Some ack"
proof -
  have len: "length (encoded_bytes f) \<le> 40" "encoded_bytes f \<noteq> []"
    using f(1) wire_len_le [of f] by (simp_all add: encoded_bytes_image shape)
  obtain s1 where s1: "sketch_step tw s (On_receive w n) = Some (Receive_done, s1)" "ns_inv s1"
    "we_pending (ns_endpoint s1) = encoded_bytes f"
    using on_receive_effect [OF tw inv, of w n] w len by auto
  have "we_inv (ns_endpoint s1)" using s1(2) by (auto simp: ns_inv_def ns_endpoint_def)
  then have "we_rx_ready (ns_endpoint s1)" using we_lengths(3) [of "ns_endpoint s1"] s1(3) len by simp
  then have waiting: "incoming_frame (we_waiting (ns_endpoint s1)) = Some (canon f)"
    using s1(3) f(1) by (simp add: we_waiting_def incoming_encoded)
  obtain s2 i ack where s2: "node_loop now uptime s1 = Some (Some (canon f), s2)" "ns_inv s2"
    "make_ack_frame kNodeId_ino i (f_sequence f) ack_accepted = Some ack"
    "we_outgoing (ns_endpoint s2) = encoded_bytes ack"
    using node_loop_effect(2) [OF s1(2), of now uptime] f(2) by (auto simp: waiting wants_ack_def canon_def)
  have "encoded_bytes ack \<noteq> []" using ack_canonical [OF s2(3)] by (auto simp: encoded_bytes_image shape)
  then have "sketch_step tw s2 On_request = Some (Requested (Some (encoded_bytes ack)), s2)"
    using on_request_effect [OF s2(2)] s2(4) by simp
  with s2(1) have "run (sketch_step tw) s1 [Loop now uptime, On_request] =
      Some ([Loop_received (Some (canon f)), Requested (Some (encoded_bytes ack))], s2)"
    by (simp del: sketch_step.simps(2,3))
  with that s1(1,2) s2(2,3) show thesis by blast
qed

text \<open>
  The Arduino node acknowledges commands. At any time after \<open>setup\<close>, when the controller has
  written the encoding of a frame that asks for an acknowledgement, the next turn of \<open>loop\<close>
  receives that frame, and the next request is served the encoding of an acknowledgement from
  node 0 for its sequence, with status \<open>accepted\<close>, also when a heartbeat falls due in that turn.
\<close>

theorem arduino_node_acknowledges_commands:
  assumes "fifo_wire tw buf" and "node_setup t0 Node_sketch = Some s0"
    and "run (sketch_step tw) s0 evs = Some (outs0, s)"
    and "frame_wf f" and "f_flags f AND kFlagAckRequired \<noteq> 0"
    and "buf w = encoded_bytes f" and "int (length (buf w)) \<le> n"
  shows "\<exists>t ack. run (sketch_step tw) s [On_receive w n, Loop now uptime, On_request] =
      Some ([Receive_done, Loop_received (Some (canon f)), Requested (Some (encoded_bytes ack))], t) \<and>
    f_node_id ack = kNodeId_ino \<and> parse_ack_frame ack = Some (Some (f_sequence f, ack_accepted))"
proof -
  have "ns_inv s0" using node_setup_ok [of t0] assms(2) by auto
  then have inv: "ns_inv s" by (rule safe_component.run_inv [OF sketch_safe [OF assms(1)] _ assms(3)])
  obtain s1 s2 i ack where "sketch_step tw s (On_receive w n) = Some (Receive_done, s1)"
    "run (sketch_step tw) s1 [Loop now uptime, On_request] =
       Some ([Loop_received (Some (canon f)), Requested (Some (encoded_bytes ack))], s2)"
    and ack: "make_ack_frame kNodeId_ino i (f_sequence f) ack_accepted = Some ack"
    by (rule written_command_answered [OF assms(1) inv assms(4-7)])
  then have "run (sketch_step tw) s [On_receive w n, Loop now uptime, On_request] =
      Some ([Receive_done, Loop_received (Some (canon f)), Requested (Some (encoded_bytes ack))], s2)"
    by (simp add: run.simps(2) [of _ s] del: sketch_step.simps run.simps)
  with ack_parsed [OF ack] show ?thesis by blast
qed

theorem arduino_node_acknowledges_commands_witness:
  "\<exists>s t ack. node_setup 3 Node_sketch = Some s \<and>
    run (sketch_step (list_driver [])) s [On_receive (encoded_bytes ack_command) 8, Loop 5000 5001, On_request] =
      Some ([Receive_done, Loop_received (Some (canon ack_command)), Requested (Some (encoded_bytes ack))], t) \<and>
    parse_ack_frame ack = Some (Some (5, ack_accepted))"
proof -
  define s where "s = the (node_setup 3 Node_sketch)"
  have start: "node_setup 3 Node_sketch = Some s" "run (sketch_step (list_driver [])) s [] = Some ([], s)"
    unfolding s_def by code_simp+
  have f: "frame_wf ack_command" "f_flags ack_command AND kFlagAckRequired \<noteq> 0" "f_sequence ack_command = 5"
    "int (length (encoded_bytes ack_command)) \<le> 8"
    by code_simp+
  from arduino_node_acknowledges_commands [OF fifo_list_driver start f(1,2) refl f(4), of 5000 5001] start(1) f(3)
  show ?thesis by auto
qed

text \<open>
  One active endpoint per sketch. An endpoint that \<open>begin\<close> has attached stays the receiver of
  every callback: any other object is refused without a call on \<open>Wire\<close>, the same one may
  attach again, also to another bus, and no callback touches another object.
\<close>

theorem active_endpoint_kept:
  assumes "this < length objs" and "other \<noteq> this"
    and "we_begin active objs this address wire = Some (True, calls, active', objs')"
  shows "we_begin active' objs' other address' wire' = Some (False, [], active', objs') \<and>
    (\<exists>calls' objs''. we_begin active' objs' this address' wire' = Some (True, calls', active', objs'')) \<and>
    we_wire (objs' ! this) = Some wire \<and>
    request_callback active' objs' = request_from_isr (objs' ! this) \<and>
    (receive_callback tw n active' objs' w = Some (objs3, w') \<longrightarrow>
       (\<forall>i. i \<noteq> this \<longrightarrow> objs3 ! i = objs' ! i))"
proof -
  have a: "active' = Some this" "objs' = objs[this := (objs ! this)\<lparr>we_wire := Some wire\<rparr>]"
    using assms by (auto simp: we_begin_def ub_simps split: if_splits)
  have "\<forall>i. i \<noteq> this \<longrightarrow> objs3 ! i = objs' ! i" if "receive_callback tw n active' objs' w = Some (objs3, w')"
    using that assms(1) by (auto simp: a receive_callback_def ub_simps split: Option.bind_splits)
  with assms(1,2) show ?thesis by (auto simp: a we_begin_def request_callback_def ub_simps)
qed

theorem active_endpoint_kept_witness:
  "\<exists>calls active objs. we_begin None [WirePeripheralEndpoint, WirePeripheralEndpoint] 0 0x42 0 = Some (True, calls, active, objs) \<and>
    we_begin active objs 1 0x43 1 = Some (False, [], active, objs)"
proof -
  let ?objs = "[WirePeripheralEndpoint, WirePeripheralEndpoint]"
  let ?r = "the (we_begin None ?objs 0 0x42 0)"
  have b: "0 < length ?objs" "(1 :: nat) \<noteq> 0"
    "we_begin None ?objs 0 0x42 0 = Some (True, fst (snd ?r), fst (snd (snd ?r)), snd (snd (snd ?r)))"
    by code_simp+
  from active_endpoint_kept [OF b, where tw = "list_driver []" and address' = "0x43" and wire' = "1"] b(3) show ?thesis by blast
qed
end
