(* ===== verification/Arduino_Bus.thy ===== *)
theory Arduino_Bus
  imports Command_System Arduino_Node
begin

text \<open>
  The command controller and the Arduino node sketch on one bus. A write runs the node's receive
  callback with the bytes in its driver's buffer; at a request the node's \<open>loop\<close> takes one turn,
  then its request callback writes the answer, and the controller reads the bytes of an idle bus
  behind it.
\<close>

record ino_bus =
  ib_node :: node_sketch
  ib_rx :: "u8 list"
  ib_log :: "sketch_output list"

definition at_sketch :: "u8 list sketch_event list \<Rightarrow> ino_bus \<Rightarrow> sketch_output list \<times> ino_bus" where
  "at_sketch evs w = (case run (sketch_step (list_driver [])) (ib_node w) evs of
     Some (outs, s) \<Rightarrow> (outs, w\<lparr>ib_node := s, ib_log := ib_log w @ outs\<rparr>)
   | None \<Rightarrow> ([], w))"

fun sketch_served :: "sketch_output \<Rightarrow> u8 list" where
  "sketch_served (Requested (Some bs)) = bs"
| "sketch_served _ = []"

definition ino_driver :: "u8 \<Rightarrow> u32 \<Rightarrow> u32 \<Rightarrow> ino_bus two_wire" where
  "ino_driver idle t t' =
     \<lparr>tw_beginTransmission = (\<lambda>a w. w),
      tw_write = (\<lambda>bs w. (length bs, snd (at_sketch [On_receive bs (int (length bs))] w))),
      tw_endTransmission = (\<lambda>w. (0, w)),
      tw_requestFrom = (\<lambda>a n w. let (outs, w) = at_sketch [Loop t t', On_request] w;
                                    rx = take (unat n) (concat (map sketch_served outs) @ replicate (unat n) idle)
                                in (length rx, w\<lparr>ib_rx := rx\<rparr>)),
      tw_available = (\<lambda>w. int (length (ib_rx w))),
      tw_read = (\<lambda>w. case ib_rx w of [] \<Rightarrow> (-1, w) | b # r \<Rightarrow> (int (unat b), w\<lparr>ib_rx := r\<rparr>))\<rparr>"

lemma fifo_ino_driver: "fifo_wire (ino_driver idle t t') ib_rx"
  by (auto simp: fifo_wire_def ino_driver_def split_beta Let_def)

lemma at_sketch_run:
  "run (sketch_step (list_driver [])) (ib_node w) evs = Some (outs, s) \<Longrightarrow>
   at_sketch evs w = (outs, w\<lparr>ib_node := s, ib_log := ib_log w @ outs\<rparr>)"
  by (simp add: at_sketch_def)

text \<open>Reading the driver's buffer leaves the node alone: a receive is one request at the node.\<close>

lemma ino_receive_node:
  assumes "receive_frame (wire_receive (ino_driver idle t t') addr) w = Some (r, n, w')"
  shows "ib_node w' = ib_node (snd (at_sketch [Loop t t', On_request] w)) \<and>
    ib_log w' = ib_log (snd (at_sketch [Loop t t', On_request] w))"
proof -
  let ?view = "\<lambda>w :: ino_bus. (ib_node w, ib_log w)"
  have "?view (snd (tw_read (ino_driver idle t t') w)) = ?view w" for w
    by (simp add: ino_driver_def split: list.split)
  from wire_receive_frame_keeps [where view = ?view, OF fifo_ino_driver this assms] show ?thesis
    by (auto simp: ino_driver_def split_beta Let_def)
qed

section \<open>The node is the controller's partner\<close>

definition ino_ready :: "ino_bus \<Rightarrow> bool" where
  "ino_ready w \<longleftrightarrow> ns_inv (ib_node w)"

definition ino_got :: "ino_bus \<Rightarrow> frame set" where
  "ino_got w = {f. Loop_received (Some f) \<in> set (ib_log w)}"

lemma ino_request_ready:
  assumes "ino_ready w"
  shows "ino_ready (snd (at_sketch evs w))"
proof -
  note safe = sketch_safe [OF fifo_list_driver, of "[]" 0]
  have "ns_inv (ib_node w)" using assms by (simp add: ino_ready_def)
  from safe_component.run_total [OF safe this, of evs] show ?thesis
    by (auto simp: ino_ready_def at_sketch_def)
qed

lemma ino_exchange:
  assumes w: "ino_ready w" and f: "frame_wf f" "f_flags f AND kFlagAckRequired \<noteq> 0"
  obtains w1 w2 ack where
    "send_frame (wire_send (ino_driver idle t t') addr) w f = Some (True, w1)"
    "receive_frame (wire_receive (ino_driver idle t t') addr) w1 =
       Some (\<lparr>dr_frame = ack, dr_error = No_error\<rparr>, length (encoded_bytes ack), w2)"
    "parse_ack_frame ack = Some (Some (f_sequence f, ack_accepted))" "f_node_id ack = kNodeId_ino" "f_type ack = acknowledgement"
    "ino_ready w2" "Loop_received (Some (canon f)) \<in> set (ib_log w2)"
proof -
  obtain s1 s2 i ack where s: "sketch_step (list_driver []) (ib_node w)
      (On_receive (encoded_bytes f) (int (length (encoded_bytes f)))) = Some (Receive_done, s1)" "ns_inv s1"
    "run (sketch_step (list_driver [])) s1 [Loop t t', On_request] =
       Some ([Loop_received (Some (canon f)), Requested (Some (encoded_bytes ack))], s2)" "ns_inv s2"
    "make_ack_frame kNodeId_ino i (f_sequence f) ack_accepted = Some ack"
    using written_command_answered [OF fifo_list_driver _ f refl order_refl] w unfolding ino_ready_def by metis
  define w1 where "w1 = w\<lparr>ib_node := s1, ib_log := ib_log w @ [Receive_done]\<rparr>"
  have "at_sketch [On_receive (encoded_bytes f) (int (length (encoded_bytes f)))] w = ([Receive_done], w1)"
    unfolding w1_def by (rule at_sketch_run) (use s(1) in \<open>simp del: sketch_step.simps\<close>)
  then have sent: "send_frame (wire_send (ino_driver idle t t') addr) w f = Some (True, w1)"
    by (simp add: wire_send_frame [OF f(1)] ino_driver_def)
  note ack = ack_canonical [OF s(5)]
  let ?outs = "[Loop_received (Some (canon f)), Requested (Some (encoded_bytes ack))]"
  let ?w = "w1\<lparr>ib_node := s2, ib_log := ib_log w1 @ ?outs\<rparr>"
  let ?rx = "take 40 (encoded_bytes ack @ replicate 40 idle)"
  have at: "at_sketch [Loop t t', On_request] w1 = (?outs, ?w)"
    by (rule at_sketch_run) (use s(3) in \<open>simp add: w1_def del: run.simps\<close>)
  have req: "tw_requestFrom (ino_driver idle t t') addr (of_nat kMaxEncodedFrameSize) w1 = (length ?rx, ?w\<lparr>ib_rx := ?rx\<rparr>)"
    by (simp add: ino_driver_def at)
  have "length (encoded_bytes ack) \<le> 40"
    using ack wire_len_le [of ack] by (simp add: encoded_bytes_image shape)
  then have rx: "ib_rx (?w\<lparr>ib_rx := ?rx\<rparr>) = encoded_bytes ack @ take (40 - length (encoded_bytes ack)) (replicate 40 idle)"
    by simp
  obtain w2 where w2: "receive_frame (wire_receive (ino_driver idle t t') addr) w1 =
      Some (\<lparr>dr_frame = canon ack, dr_error = No_error\<rparr>, length (encoded_bytes ack), w2)"
    using wire_receive_frame_padded [OF fifo_ino_driver conjunct2 [OF ack] req rx] by blast
  have "ib_node w2 = s2" "Loop_received (Some (canon f)) \<in> set (ib_log w2)"
    using ino_receive_node [OF w2] by (simp_all add: at)
  moreover have "canon ack = ack" using ack by (simp add: canon_canonical)
  ultimately show thesis
    using that [OF sent] w2 s(4) ack_parsed [OF s(5)] by (simp add: ino_ready_def)
qed

interpretation ino_partner: command_partner "\<lambda>i. ino_driver idle (fst i) (snd i)" ib_rx ino_ready ino_got for idle
proof
  show "fifo_wire (ino_driver idle (fst i) (snd i)) ib_rx" for i by (rule fifo_ino_driver)
  show "\<exists>w1 w2 ack n.
      send_frame (wire_send (ino_driver idle (fst i) (snd i)) kNodeAddress_rcc) w f = Some (True, w1) \<and>
      receive_frame (wire_receive (ino_driver idle (fst i) (snd i)) kNodeAddress_rcc) w1 =
        Some (\<lparr>dr_frame = ack, dr_error = No_error\<rparr>, n, w2) \<and>
      parse_ack_frame ack = Some (Some (f_sequence f, ack_accepted)) \<and> f_node_id ack = kNodeId_rcc \<and>
      f_type ack = acknowledgement \<and> ino_ready w2 \<and> f \<in> ino_got w2"
    if "ino_ready w" "frame_wf f" "canonical f" "f_flags f AND kFlagAckRequired \<noteq> 0" for i w f
  proof (rule ino_exchange [OF that(1,2,4), where idle = idle and t = "fst i" and t' = "snd i" and addr = kNodeAddress_rcc])
    fix w1 w2 ack
    assume x: "send_frame (wire_send (ino_driver idle (fst i) (snd i)) kNodeAddress_rcc) w f = Some (True, w1)"
      "receive_frame (wire_receive (ino_driver idle (fst i) (snd i)) kNodeAddress_rcc) w1 =
         Some (\<lparr>dr_frame = ack, dr_error = No_error\<rparr>, length (encoded_bytes ack), w2)"
      "parse_ack_frame ack = Some (Some (f_sequence f, ack_accepted))" "f_node_id ack = kNodeId_ino"
      "f_type ack = acknowledgement" "ino_ready w2" "Loop_received (Some (canon f)) \<in> set (ib_log w2)"
    have "f_node_id ack = kNodeId_rcc" using x(4) by (simp add: kNodeId_ino_def kNodeId_rcc_def)
    moreover have "f \<in> ino_got w2" using x(7) that(3) by (simp add: ino_got_def canon_canonical)
    ultimately show ?thesis using x(1-3,5,6) by blast
  qed
  show "ino_ready w'" if "ino_ready w"
    "receive_frame (wire_receive (ino_driver idle (fst i) (snd i)) kNodeAddress_rcc) w = Some (r, n, w')" for i w r n w'
    using ino_receive_node [OF that(2)] ino_request_ready [OF that(1), of "[Loop (fst i) (snd i), On_request]"]
    by (simp add: ino_ready_def)
qed



end
