(* ===== verification/Node_Interleaving.thy ===== *)
theory Node_Interleaving
  imports Node_Application
begin

text \<open>
  The node program of the Pico port statement by statement: \<open>main\<close> of
  \<open>examples/PicoSdkI2cNode/main.cpp\<close> with a program counter, and the interrupt handler between
  any two of its steps, also between the bytes that \<open>publish\<close> copies. \<open>Node_Application\<close> takes
  a turn of the loop as one step; here the clock may be read, and the bus may move, anywhere.

  A step of the main program is what it does with interrupts enabled between two points where
  the handler may run: reading the clock, choosing the buffer of a \<open>publish\<close>, copying one byte,
  the critical section of \<open>publish\<close>, and \<open>poll\<close> (whose access to the buffers is one critical
  section).
\<close>

section \<open>The program and its interrupt handler\<close>

text \<open>
  Where \<open>main\<close> is; a running \<open>publish\<close> has its local variables \<open>'p\<close> and the point it returns to.
\<close>

datatype return_to = To_poll | To_top

datatype 'p program_pc =
  At_top | At_heartbeat return_to | At_poll | At_ack u8 | In_publish return_to 'p

fun after :: "return_to \<Rightarrow> 'p program_pc" where
  "after To_poll = At_poll"
| "after To_top = At_top"

record live_node =
  lv_endpoint :: i2c_endpoint
  lv_pc :: "(encoded_frame \<times> u8 \<times> nat) program_pc"
  lv_sequence :: u8
  lv_last_heartbeat_ms :: u64

text \<open>An event: an interrupt with the values of the registers, or a step of \<open>main\<close> with the clock.\<close>

datatype live_event = Bus_irq u32 u32 | Main_step u64

datatype live_output =
  On_bus "hw_access list" | Clock_read | Began frame | Copied | Finished bool | Took "frame option"

definition start_publish :: "return_to \<Rightarrow> frame \<Rightarrow> live_node \<Rightarrow> (live_output \<times> live_node) option" where
  "start_publish r f s = do {
     begun \<leftarrow> pub_begin (lv_endpoint s) f;
     let pc = (case begun of None \<Rightarrow> after r | Some (encoded, inactive) \<Rightarrow> In_publish r (encoded, inactive, 0));
     Some (Began f, s\<lparr>lv_pc := pc, lv_sequence := lv_sequence s + 1\<rparr>)
   }"

definition main_step :: "u64 \<Rightarrow> live_node \<Rightarrow> (live_output \<times> live_node) option" where
  "main_step time_us s = (case lv_pc s of
     At_top \<Rightarrow>
       let now_ms = time_us div 1000 in
       if now_ms - lv_last_heartbeat_ms s \<ge> 1000
       then Some (Clock_read, s\<lparr>lv_last_heartbeat_ms := now_ms, lv_pc := At_heartbeat To_poll\<rparr>)
       else Some (Clock_read, s\<lparr>lv_pc := At_poll\<rparr>)
   | At_heartbeat r \<Rightarrow> do {
       f \<leftarrow> heartbeat_frame kNodeId (lv_sequence s) (ucast (time_us div 1000));
       start_publish r f s
     }
   | At_poll \<Rightarrow> do {
       (ok, incoming, _, e) \<leftarrow> ep_poll (lv_endpoint s) Frame None;
       let pc = (if ok \<and> f_flags incoming AND kFlagAckRequired \<noteq> 0 then At_ack (f_sequence incoming) else At_top);
       Some (Took (if ok then Some incoming else None), s\<lparr>lv_endpoint := e, lv_pc := pc\<rparr>)
     }
   | At_ack acknowledged \<Rightarrow> do {
       ack \<leftarrow> make_ack_frame kNodeId (lv_sequence s) acknowledged ack_accepted;
       start_publish To_top ack s
     }
   | In_publish r (encoded, inactive, i) \<Rightarrow>
       if i < ef_length encoded then do {
         e \<leftarrow> pub_copy_byte encoded inactive i (lv_endpoint s);
         Some (Copied, s\<lparr>lv_endpoint := e, lv_pc := In_publish r (encoded, inactive, Suc i)\<rparr>)
       }
       else do {
         (ok, e) \<leftarrow> pub_commit encoded inactive (lv_endpoint s);
         Some (Finished ok, s\<lparr>lv_endpoint := e, lv_pc := after r\<rparr>)
       })"

fun live_step :: "irq_masks \<Rightarrow> live_node \<Rightarrow> live_event \<Rightarrow> (live_output \<times> live_node) option" where
  "live_step k s (Bus_irq st d) = do {
     (l, e) \<leftarrow> handle_irq k st d (lv_endpoint s);
     Some (On_bus l, s\<lparr>lv_endpoint := e\<rparr>)
   }"
| "live_step k s (Main_step time_us) = main_step time_us s"

text \<open>Up to the first \<open>publish_heartbeat()\<close>, from which on the endpoint's interrupt is enabled.\<close>

definition live_start :: "u32 \<Rightarrow> (int + live_node) option" where
  "live_start enable = do {
     (ok, _, s) \<leftarrow> ep_begin enable
       \<lparr>ps_objects = [I2cPeripheralEndpoint], ps_endpoints = [None, None]\<rparr> 0 (Some I2c0) kI2cAddress;
     if \<not> ok then Some (Inl 1)
     else do {
       e \<leftarrow> rd (ps_objects s) 0;
       Some (Inr \<lparr>lv_endpoint = e, lv_pc = At_heartbeat To_top, lv_sequence = 0, lv_last_heartbeat_ms = 0\<rparr>)
     }
   }"

section \<open>Specification: the same program over a mailbox\<close>

text \<open>
  Publishing is handing over the bytes of a frame one by one.
\<close>

record program_view =
  pv_mail :: mailbox
  pv_pc :: "(u8 list \<times> nat) program_pc"
  pv_sequence :: u8
  pv_last_heartbeat_ms :: u64

definition begin_spec :: "return_to \<Rightarrow> frame \<Rightarrow> program_view \<Rightarrow> live_output \<times> program_view" where
  "begin_spec r f v = (Began f, v\<lparr>pv_pc := In_publish r (wire_image f, 0), pv_sequence := pv_sequence v + 1\<rparr>)"

fun program_spec :: "irq_masks \<Rightarrow> program_view \<Rightarrow> live_event \<Rightarrow> live_output \<times> program_view" where
  "program_spec k v (Bus_irq st d) =
     (On_bus (fst (mb_irq k st d (pv_mail v))), v\<lparr>pv_mail := snd (mb_irq k st d (pv_mail v))\<rparr>)"
| "program_spec k v (Main_step t) = (case pv_pc v of
     At_top \<Rightarrow> (Clock_read,
       if t div 1000 - pv_last_heartbeat_ms v \<ge> 1000
       then v\<lparr>pv_last_heartbeat_ms := t div 1000, pv_pc := At_heartbeat To_poll\<rparr> else v\<lparr>pv_pc := At_poll\<rparr>)
   | At_heartbeat r \<Rightarrow> begin_spec r (uptime_frame kNodeId (pv_sequence v) (ucast (t div 1000))) v
   | At_poll \<Rightarrow>
       let incoming = incoming_frame (mb_pending (pv_mail v)) in
       (Took incoming, v\<lparr>pv_mail := (pv_mail v)\<lparr>mb_pending := None\<rparr>,
          pv_pc := if wants_ack incoming then At_ack (f_sequence (the incoming)) else At_top\<rparr>)
   | At_ack acknowledged \<Rightarrow> begin_spec To_top (answer_frame kNodeId (pv_sequence v) acknowledged) v
   | In_publish r (bs, i) \<Rightarrow>
       if i < length bs then (Copied, v\<lparr>pv_pc := In_publish r (bs, Suc i)\<rparr>)
       else (Finished (mb_sent (pv_mail v) = 0),
         v\<lparr>pv_mail := (if mb_sent (pv_mail v) = 0 then (pv_mail v)\<lparr>mb_outgoing := bs\<rparr> else pv_mail v),
           pv_pc := after r\<rparr>))"

definition publish_view :: "encoded_frame \<times> u8 \<times> nat \<Rightarrow> u8 list \<times> nat" where
  "publish_view p = (take (ef_length (fst p)) (ef_bytes (fst p)), snd (snd p))"

definition program_view_of :: "live_node \<Rightarrow> program_view" where
  "program_view_of s = \<lparr>pv_mail = mailbox_of (lv_endpoint s), pv_pc = map_program_pc publish_view (lv_pc s),
     pv_sequence = lv_sequence s, pv_last_heartbeat_ms = lv_last_heartbeat_ms s\<rparr>"

definition live_inv :: "live_node \<Rightarrow> bool" where
  "live_inv s \<longleftrightarrow> ep_inv (lv_endpoint s) \<and> (case lv_pc s of
     In_publish r (enc, inactive, i) \<Rightarrow> staged (lv_endpoint s) enc inactive i \<and> ef_length enc \<le> 12
   | _ \<Rightarrow> True)"

lemma after_view [simp]: "map_program_pc g (after r) = after r"
  by (cases r) simp_all

section \<open>The program implements the specification\<close>

lemma start_publish_ok:
  assumes "live_inv s" and "frame_wf f" and "length (wire_image f) \<le> 12"
  shows "\<exists>t. start_publish r f s = Some (fst (begin_spec r f (program_view_of s)), t) \<and> live_inv t \<and>
    program_view_of t = snd (begin_spec r f (program_view_of s))"
proof -
  let ?e = "lv_endpoint s"
  obtain enc where enc: "pub_begin ?e f = Some (Some (enc, ep_tx_active_index ?e XOR 1))"
    "staged ?e enc (ep_tx_active_index ?e XOR 1) 0" "take (ef_length enc) (ef_bytes enc) = wire_image f"
    using pub_begin_ok [OF assms(2), of ?e] by blast
  have "ef_length enc \<le> 12"
    using arg_cong [OF enc(3), of length] enc(2) assms(3) by (simp add: staged_def)
  with enc assms(1) show ?thesis
    by (simp add: start_publish_def begin_spec_def live_inv_def program_view_of_def publish_view_def)
qed

lemma live_irq_ok:
  assumes "live_inv s"
  shows "\<exists>e. live_step k s (Bus_irq st d) = Some (On_bus (fst (mb_irq k st d (mailbox_of (lv_endpoint s)))), s\<lparr>lv_endpoint := e\<rparr>) \<and>
    live_inv (s\<lparr>lv_endpoint := e\<rparr>) \<and> mailbox_of e = snd (mb_irq k st d (mailbox_of (lv_endpoint s)))"
proof -
  have "ep_inv (lv_endpoint s)" using assms by (simp add: live_inv_def)
  from handle_irq_ok [OF this, of k st d] assms show ?thesis
    by (auto simp: live_inv_def staged_same_tx split: program_pc.splits)
qed

lemma main_poll_ok:
  assumes "live_inv s" and "lv_pc s = At_poll"
  shows "\<exists>t. main_step time s = Some (fst (program_spec k (program_view_of s) (Main_step time)), t) \<and> live_inv t \<and>
    program_view_of t = snd (program_spec k (program_view_of s) (Main_step time))"
proof -
  let ?p = "mb_pending (mailbox_of (lv_endpoint s))" and ?r = "poll_answer (mb_pending (mailbox_of (lv_endpoint s))) Frame None"
  have "ep_inv (lv_endpoint s)" using assms by (simp add: live_inv_def)
  from ep_poll_ok [OF this refl, of Frame None] obtain e where
    e: "ep_poll (lv_endpoint s) Frame None = Some (fst ?r, fst (snd ?r), snd (snd ?r), e)" "ep_inv e"
    "mailbox_of e = (mailbox_of (lv_endpoint s))\<lparr>mb_pending := None\<rparr>" by blast
  note answer = poll_answer_incoming [of ?p]
  show ?thesis
  proof (cases "incoming_frame ?p")
    case None
    with answer(1) [of Frame None] e assms show ?thesis
      by (simp add: main_step_def program_view_of_def wants_ack_def live_inv_def)
  next
    case (Some f)
    with answer(1) [of Frame None] answer(2) [OF Some, of Frame None] e assms show ?thesis
      by (simp add: main_step_def program_view_of_def wants_ack_def live_inv_def)
  qed
qed

lemma main_copy_ok:
  assumes "live_inv s" and "lv_pc s = In_publish r p"
  shows "\<exists>t. main_step time s = Some (fst (program_spec k (program_view_of s) (Main_step time)), t) \<and> live_inv t \<and>
    program_view_of t = snd (program_spec k (program_view_of s) (Main_step time))"
proof -
  obtain enc inactive i where p: "p = (enc, inactive, i)" by (metis prod.exhaust)
  with assms have e: "ep_inv (lv_endpoint s)" and st: "staged (lv_endpoint s) enc inactive i" and len: "ef_length enc \<le> 12"
    by (simp_all add: live_inv_def)
  show ?thesis
  proof (cases "i < ef_length enc")
    case True
    with pub_copy_byte_ok [OF e st True] st len p assms(2) show ?thesis
      by (auto simp: main_step_def live_inv_def program_view_of_def publish_view_def staged_def)
  next
    case False
    with st have i: "i = ef_length enc" "length (take (ef_length enc) (ef_bytes enc)) = ef_length enc"
      by (simp_all add: staged_def)
    obtain e' where e': "pub_commit enc inactive (lv_endpoint s) = Some (mb_sent (mailbox_of (lv_endpoint s)) = 0, e')"
      "ep_inv e'" "mailbox_of e' = (if mb_sent (mailbox_of (lv_endpoint s)) = 0
        then (mailbox_of (lv_endpoint s))\<lparr>mb_outgoing := take (ef_length enc) (ef_bytes enc)\<rparr>
        else mailbox_of (lv_endpoint s))"
      using pub_commit_ok [OF e] st unfolding i(1) by blast
    from i e' p assms(2) show ?thesis
      by (cases r) (simp_all add: main_step_def live_inv_def program_view_of_def publish_view_def)
  qed
qed

lemma live_step_ok:
  assumes inv: "live_inv s"
  shows "\<exists>t. live_step k s ev = Some (fst (program_spec k (program_view_of s) ev), t) \<and> live_inv t \<and>
    program_view_of t = snd (program_spec k (program_view_of s) ev)"
proof (cases ev)
  case (Bus_irq st d)
  with live_irq_ok [OF inv, of k st d] show ?thesis by (auto simp: program_view_of_def)
next
  case (Main_step t)
  show ?thesis
  proof (cases "lv_pc s")
    case At_top
    with inv Main_step show ?thesis by (simp add: main_step_def program_view_of_def live_inv_def Let_def)
  next
    case (At_heartbeat r)
    with start_publish_ok [OF inv program_frames(1), of kNodeId "lv_sequence s" "ucast (t div 1000)" r] Main_step
    show ?thesis by (simp add: main_step_def heartbeat_frame_uptime program_view_of_def program_frames)
  next
    case At_poll
    with main_poll_ok [OF inv] Main_step show ?thesis by simp
  next
    case (At_ack sq)
    with start_publish_ok [OF inv program_frames(3), of kNodeId "lv_sequence s" sq To_top] Main_step
    show ?thesis by (simp add: main_step_def make_ack_frame_answer program_view_of_def program_frames)
  next
    case (In_publish r p)
    with main_copy_ok [OF inv] Main_step show ?thesis by simp
  qed
qed


text \<open>The node after \<open>begin\<close>: its endpoint is empty, and knows its controller.\<close>

definition Live_node :: live_node where
  "Live_node = \<lparr>lv_endpoint = I2cPeripheralEndpoint\<lparr>ep_instance := Some I2c0, ep_instance_index := 0\<rparr>,
     lv_pc = At_heartbeat To_top, lv_sequence = 0, lv_last_heartbeat_ms = 0\<rparr>"

definition fresh_program :: program_view where
  "fresh_program = \<lparr>pv_mail = fst fresh_view, pv_pc = At_heartbeat To_top, pv_sequence = 0, pv_last_heartbeat_ms = 0\<rparr>"

lemma live_start_eq: "live_start enable = Some (Inr Live_node)"
proof -
  have "ps_inv \<lparr>ps_objects = [I2cPeripheralEndpoint], ps_endpoints = [None, None]\<rparr>"
    using ep_inv_start by (simp add: ps_inv_def)
  from ep_begin_cases [OF this, of 0 enable I2c0 kI2cAddress] show ?thesis
    by (auto simp: live_start_def Live_node_def controller_def kI2cAddress_def ub_simps)
qed

lemma live_inv_start: "live_inv Live_node"
  using ep_inv_attach [OF ep_inv_start] by (simp add: live_inv_def Live_node_def)

lemma live_view_start: "program_view_of Live_node = fresh_program"
  by (simp add: program_view_of_def Live_node_def fresh_program_def fresh_view_def mailbox_of_def slice_def
      I2cPeripheralEndpoint_def)

interpretation live: refined_component "live_step k" live_inv Live_node "program_spec k" program_view_of for k
proof
  show "live_inv Live_node" by (rule live_inv_start)
  show "\<exists>x t. live_step k s i = Some (x, t)" if "live_inv s" for s i
    using live_step_ok [OF that] by blast
  show "live_inv t" if "live_inv s" "live_step k s i = Some (x, t)" for s i x t
    using live_step_ok [OF that(1), of k i] that(2) by auto
  show "program_spec k (program_view_of s) i = (x, program_view_of t)"
    if "live_inv s" "live_step k s i = Some (x, t)" for s i x t
    using live_step_ok [OF that(1), of k i] that(2) by (auto simp: prod_eq_iff)
qed

section \<open>Reachable states with their history\<close>

text \<open>
  \<open>node_history k enable outs s\<close>: the program was started and has come to state \<open>s\<close>, having
  given the outputs \<open>outs\<close>.
\<close>

inductive node_history :: "irq_masks \<Rightarrow> u32 \<Rightarrow> live_output list \<Rightarrow> live_node \<Rightarrow> bool" for k enable where
  started: "live_start enable = Some (Inr s) \<Longrightarrow> node_history k enable [] s"
| moved: "node_history k enable outs s \<Longrightarrow> live_step k s ev = Some (out, t) \<Longrightarrow>
    node_history k enable (outs @ [out]) t"

lemma history_run:
  "node_history k enable outs s \<Longrightarrow> run (live_step k) s evs = Some (outs', t) \<Longrightarrow>
   node_history k enable (outs @ outs') t"
proof (induction evs arbitrary: outs s outs')
  case Nil
  then show ?case by simp
next
  case (Cons ev evs)
  from Cons.prems(2) obtain out u rest where u: "live_step k s ev = Some (out, u)"
    "run (live_step k) u evs = Some (rest, t)" "outs' = out # rest"
    by (auto split: Option.bind_splits)
  from Cons.IH [OF moved [OF Cons.prems(1) u(1)] u(2)] u(3) show ?case by simp
qed

lemma history_inv: "node_history k enable outs s \<Longrightarrow> live_inv s"
  by (induction rule: node_history.induct) (auto simp: live_start_eq live_inv_start live.step_inv)

text \<open>An invariant of the specification is an invariant of the histories.\<close>

lemma history_invariant:
  assumes "node_history k enable outs s"
    and "P [] fresh_program"
    and "\<And>outs v ev. P outs v \<Longrightarrow> P (outs @ [fst (program_spec k v ev)]) (snd (program_spec k v ev))"
  shows "P outs (program_view_of s)"
  using assms(1)
proof (induction rule: node_history.induct)
  case (started s)
  with assms(2) show ?case by (simp add: live_start_eq live_view_start)
next
  case (moved outs s ev out t)
  have "program_spec k (program_view_of s) ev = (out, program_view_of t)"
    using live.step_refines [OF history_inv [OF moved.hyps(1)] moved.hyps(2)] .
  with assms(3) [OF moved.IH, of ev] show ?case by simp
qed

end
