(* ===== verification/Node_Guarantees.thy ===== *)
theory Node_Guarantees
  imports Node_Interleaving
begin

text \<open>
  What the Pico node program guarantees under every interleaving with its interrupt handler:
  everything the controller reads is a heartbeat or the answer to a frame that was received,
  a waiting frame is polled within 30 steps of the program, and a command that asks for an
  acknowledgement is answered within 42.
\<close>

section \<open>What the program publishes\<close>

text \<open>
  Given what happened before: a heartbeat of this node, or the answer to a frame that it
  received and that asks for an acknowledgement.
\<close>

definition own_frame :: "live_output list \<Rightarrow> frame \<Rightarrow> bool" where
  "own_frame outs f \<longleftrightarrow> (\<exists>s t. f = uptime_frame kNodeId s t) \<or>
     (\<exists>s g. Took (Some g) \<in> set outs \<and> wants_ack (Some g) \<and> f = answer_frame kNodeId s (f_sequence g))"

lemma own_frame_more: "own_frame outs f \<Longrightarrow> own_frame (outs @ outs') f"
  by (auto simp: own_frame_def)

lemma own_frame_wf: "own_frame outs f \<Longrightarrow> frame_wf f"
  by (auto simp: own_frame_def program_frames)

definition publishes_own :: "live_output list \<Rightarrow> program_view \<Rightarrow> bool" where
  "publishes_own outs v \<longleftrightarrow> (\<forall>f. Began f \<in> set outs \<longrightarrow> own_frame outs f) \<and>
     (\<forall>sq. pv_pc v = At_ack sq \<longrightarrow> (\<exists>g. Took (Some g) \<in> set outs \<and> wants_ack (Some g) \<and> f_sequence g = sq))"

lemma began_own:
  "\<forall>f. Began f \<in> set outs \<longrightarrow> own_frame outs f \<Longrightarrow> (\<And>f. out = Began f \<Longrightarrow> own_frame outs f) \<Longrightarrow>
   \<forall>f. Began f \<in> set (outs @ [out]) \<longrightarrow> own_frame (outs @ [out]) f"
  by (auto intro: own_frame_more)

lemma publishes_own_step:
  assumes "publishes_own outs v"
  shows "publishes_own (outs @ [fst (program_spec k v ev)]) (snd (program_spec k v ev))"
proof -
  have own: "\<forall>f. Began f \<in> set outs \<longrightarrow> own_frame outs f" using assms by (simp add: publishes_own_def)
  have "own_frame outs f" if "fst (program_spec k v ev) = Began f" for f
    using that assms
    by (cases ev; cases "pv_pc v")
      (auto simp: begin_spec_def publishes_own_def own_frame_def Let_def split: prod.splits if_splits)
  moreover have "\<exists>g. Took (Some g) \<in> set (outs @ [fst (program_spec k v ev)]) \<and> wants_ack (Some g) \<and> f_sequence g = sq"
    if "pv_pc (snd (program_spec k v ev)) = At_ack sq" for sq
  proof (cases ev)
    case (Bus_irq st d)
    with that assms show ?thesis by (auto simp: publishes_own_def)
  next
    case (Main_step t)
    with that show ?thesis
      by (cases "pv_pc v"; cases "incoming_frame (mb_pending (pv_mail v))")
        (auto simp: begin_spec_def Let_def wants_ack_def split: prod.splits if_splits elim: after.elims)
  qed
  ultimately show ?thesis using began_own [OF own] by (simp add: publishes_own_def)
qed

lemma history_own:
  assumes "node_history k enable outs s" and "Began f \<in> set outs"
  shows "own_frame outs f"
proof -
  have "publishes_own outs (program_view_of s)"
    by (rule history_invariant [OF assms(1)])
      (simp add: publishes_own_def fresh_program_def, rule publishes_own_step)
  with assms(2) show ?thesis by (simp add: publishes_own_def)
qed

section \<open>What the controller reads\<close>

fun live_served :: "live_output \<Rightarrow> u8 list" where
  "live_served (On_bus l) = written_bytes l"
| "live_served _ = []"

fun live_raised :: "u32 \<Rightarrow> live_event \<Rightarrow> bool" where
  "live_raised bits (Bus_irq st d) = (st AND bits \<noteq> 0)"
| "live_raised bits (Main_step t) = False"

definition live_resets :: "irq_masks \<Rightarrow> live_event \<Rightarrow> bool" where
  "live_resets k ev \<longleftrightarrow> live_raised (stop_det_bits k) ev \<or> live_raised (tx_abrt_bits k) ev"

text \<open>Seen from the endpoint: the calls that the program makes, as events of \<open>Pico_Mailbox\<close>.\<close>

definition calls_view :: "program_view \<Rightarrow> node_view" where
  "calls_view v = (pv_mail v, (case pv_pc v of In_publish r p \<Rightarrow> Some p | _ \<Rightarrow> None))"

fun calls :: "program_view \<Rightarrow> live_event \<Rightarrow> node_event list" where
  "calls v (Bus_irq st d) = [Irq st d]"
| "calls v (Main_step t) = (case pv_pc v of
     At_top \<Rightarrow> []
   | At_heartbeat r \<Rightarrow> [Publish (uptime_frame kNodeId (pv_sequence v) (ucast (t div 1000)))]
   | At_poll \<Rightarrow> [Poll]
   | At_ack acknowledged \<Rightarrow> [Publish (answer_frame kNodeId (pv_sequence v) acknowledged)]
   | In_publish r p \<Rightarrow> [Continue])"

fun all_calls :: "irq_masks \<Rightarrow> program_view \<Rightarrow> live_event list \<Rightarrow> node_event list" where
  "all_calls k v [] = []"
| "all_calls k v (ev # evs) = calls v ev @ all_calls k (snd (program_spec k v ev)) evs"

lemma calls_step:
  "\<exists>outs. spec_run (node_spec k) (calls_view v) (calls v ev) = (outs, calls_view (snd (program_spec k v ev))) \<and>
     concat (map served outs) = live_served (fst (program_spec k v ev))"
proof (cases ev)
  case (Bus_irq st d)
  then show ?thesis by (simp add: calls_view_def split: program_pc.splits)
next
  case (Main_step t)
  then show ?thesis
    by (cases "pv_pc v"; cases "\<exists>r. pv_pc v = In_publish r ([], 0)")
      (auto simp: calls_view_def begin_spec_def program_frames Let_def split_beta elim!: after.elims
        split: prod.splits program_pc.splits return_to.splits)
qed

lemma calls_run:
  "\<exists>nouts. spec_run (node_spec k) (calls_view v) (all_calls k v evs) =
       (nouts, calls_view (snd (spec_run (program_spec k) v evs))) \<and>
     concat (map served nouts) = concat (map live_served (fst (spec_run (program_spec k) v evs)))"
proof (induction evs arbitrary: v)
  case Nil
  then show ?case by simp
next
  case (Cons ev evs)
  obtain o1 where o1: "spec_run (node_spec k) (calls_view v) (calls v ev) = (o1, calls_view (snd (program_spec k v ev)))"
    "concat (map served o1) = live_served (fst (program_spec k v ev))"
    using calls_step by blast
  obtain o2 where "spec_run (node_spec k) (calls_view (snd (program_spec k v ev)))
      (all_calls k (snd (program_spec k v ev)) evs) =
      (o2, calls_view (snd (spec_run (program_spec k) (snd (program_spec k v ev)) evs)))"
    "concat (map served o2) = concat (map live_served (fst (spec_run (program_spec k) (snd (program_spec k v ev)) evs)))"
    using Cons.IH by blast
  with o1 show ?case by (simp add: spec_run_append Let_def split_beta)
qed

lemma calls_published: "Publish f \<in> set (calls v ev) \<Longrightarrow> fst (program_spec k v ev) = Began f"
  by (cases ev; cases "pv_pc v") (auto simp: begin_spec_def)

lemma calls_no_reset: "\<not> live_resets k ev \<Longrightarrow> c \<in> set (calls v ev) \<Longrightarrow> \<not> resets k c"
  by (cases ev; cases "pv_pc v") (auto simp: live_resets_def resets_def)

lemma all_calls_no_reset: "\<forall>ev\<in>set evs. \<not> live_resets k ev \<Longrightarrow> \<forall>c\<in>set (all_calls k v evs). \<not> resets k c"
  by (induction evs arbitrary: v) (auto dest: calls_no_reset)

lemma all_calls_published:
  "Publish f \<in> set (all_calls k v evs) \<Longrightarrow> Began f \<in> set (fst (spec_run (program_spec k) v evs))"
proof (induction evs arbitrary: v)
  case Nil
  then show ?case by simp
next
  case (Cons ev evs)
  then show ?case using calls_published [of f v ev k] by (auto simp: Let_def split_beta)
qed

text \<open>The calls whose publications have begun.\<close>

definition begun :: "live_output list \<Rightarrow> node_event set" where
  "begun outs = {ev. \<forall>f. ev = Publish f \<longrightarrow> Began f \<in> set outs}"

definition serves_begun :: "live_output list \<Rightarrow> program_view \<Rightarrow> bool" where
  "serves_begun outs v \<longleftrightarrow> view_ok (begun outs) (calls_view v) \<and>
     (Finished True \<in> set outs \<longrightarrow> mb_outgoing (pv_mail v) \<noteq> [])"

lemma begun_mono: "begun outs \<subseteq> begun (outs @ outs')"
  by (auto simp: begun_def)

lemma program_outgoing_kept:
  assumes "view_ok E (calls_view v)" and "mb_outgoing (pv_mail v) \<noteq> [] \<or> fst (program_spec k v ev) = Finished True"
  shows "mb_outgoing (pv_mail (snd (program_spec k v ev))) \<noteq> []"
proof (cases ev)
  case (Bus_irq st d)
  with assms show ?thesis by simp
next
  case (Main_step t)
  with assms show ?thesis
    by (cases "pv_pc v")
      (auto simp: begin_spec_def Let_def view_ok_def calls_view_def split: prod.splits if_splits)
qed

lemma serves_begun_step:
  assumes "serves_begun outs v"
  shows "serves_begun (outs @ [fst (program_spec k v ev)]) (snd (program_spec k v ev))"
proof -
  let ?o = "fst (program_spec k v ev)" and ?v = "snd (program_spec k v ev)"
  have ok: "view_ok (begun (outs @ [?o])) (calls_view v)"
    using assms view_ok_mono [OF _ begun_mono] by (auto simp: serves_begun_def)
  have "set (calls v ev) \<subseteq> begun (outs @ [?o])"
    using calls_published [of _ v ev k] by (auto simp: begun_def)
  from view_ok_run [OF ok this, of k] obtain "view_ok (begun (outs @ [?o])) (calls_view ?v)"
    using calls_step [of k v ev] by auto
  moreover have "Finished True \<in> set (outs @ [?o]) \<Longrightarrow> mb_outgoing (pv_mail ?v) \<noteq> []"
    using assms program_outgoing_kept [OF ok, of k ev] by (auto simp: serves_begun_def)
  ultimately show ?thesis by (simp add: serves_begun_def)
qed

lemma history_serves:
  assumes "node_history k enable outs s"
  shows "serves_begun outs (program_view_of s)"
  by (rule history_invariant [OF assms])
    (simp add: serves_begun_def fresh_program_def fresh_view_def calls_view_def view_ok_def,
     rule serves_begun_step)

text \<open>A write on the bus with the RP2040's masks: an interrupt per byte, and one for the stop.\<close>

definition bus_write :: "u8 list \<Rightarrow> live_event list" where
  "bus_write bs = map (\<lambda>b. Bus_irq 0x004 (ucast b)) bs @ [Bus_irq 0x200 0]"

text \<open>
  C9: What the controller reads, the node program meant. At every moment of every history of the
  Pico node program - the interrupt handler running between any two of its steps, also in the
  middle of a \<open>publish\<close> - the bytes that are served from the beginning of a read transaction to
  its end are the leading bytes, followed by zeros, of the encoding of a heartbeat of this node
  or of its acknowledgement of a frame that it did receive before and that asked for one. So no
  command is ever acknowledged on the bus that the program has not taken from its endpoint.
\<close>

theorem node_serves_only_answers:
  assumes "node_history k enable outs s" and "Finished True \<in> set outs" and "ep_tx_index (lv_endpoint s) = 0"
    and "run (live_step k) s evs = Some (outs', s')" and "\<forall>ev\<in>set evs. \<not> live_resets k ev"
  shows "\<exists>f n. concat (map live_served outs') = take n (encoded_bytes f @ replicate n 0) \<and>
    ((\<exists>sq t. heartbeat_frame kNodeId sq t = Some f) \<or>
     (\<exists>sq g. Took (Some g) \<in> set (outs @ outs') \<and> f_flags g AND kFlagAckRequired \<noteq> 0 \<and>
        make_ack_frame kNodeId sq (f_sequence g) ack_accepted = Some f))"
proof -
  let ?v = "program_view_of s" and ?outs = "outs @ outs'"
  have serves: "view_ok (begun ?outs) (calls_view ?v)" "mb_outgoing (pv_mail ?v) \<noteq> []"
    using history_serves [OF assms(1)] assms(2) view_ok_mono [OF _ begun_mono [of outs outs']]
    by (auto simp: serves_begun_def)
  have "mb_sent (pv_mail ?v) = 0" using assms(3) by (simp add: program_view_of_def mailbox_of_def)
  have r: "spec_run (program_spec k) ?v evs = (outs', program_view_of s')"
    by (rule live.run_refines [OF history_inv [OF assms(1)] assms(4)])
  have "set (all_calls k ?v evs) \<subseteq> begun ?outs"
    using all_calls_published [of _ k ?v evs] r by (auto simp: begun_def)
  with spec_run_transaction [of "pv_mail ?v" "all_calls k ?v evs" k "begun ?outs" "snd (calls_view ?v)"] serves
    \<open>mb_sent (pv_mail ?v) = 0\<close> all_calls_no_reset [OF assms(5), of ?v] calls_run [of k ?v evs] r
  obtain bs n where bs: "published_image (begun ?outs) bs" "concat (map live_served outs') = response bs 0 n"
    by (auto simp: calls_view_def)
  from bs(1) obtain f where "Publish f \<in> begun ?outs" "frame_wf f" "bs = wire_image f"
    unfolding published_image_def by blast
  then have f: "Began f \<in> set ?outs" "bs = encoded_bytes f"
    by (simp_all add: begun_def encoded_bytes_image)
  have "own_frame ?outs f" by (rule history_own [OF history_run [OF assms(1,4)] f(1)])
  then have "(\<exists>sq t. heartbeat_frame kNodeId sq t = Some f) \<or>
     (\<exists>sq g. Took (Some g) \<in> set ?outs \<and> f_flags g AND kFlagAckRequired \<noteq> 0 \<and>
        make_ack_frame kNodeId sq (f_sequence g) ack_accepted = Some f)"
    unfolding own_frame_def by (simp add: heartbeat_frame_uptime make_ack_frame_answer wants_ack_def) blast
  moreover have "concat (map live_served outs') = take n (encoded_bytes f @ replicate n 0)"
    using bs(2) f(2) by (simp add: response_def)
  ultimately show ?thesis by blast
qed

theorem node_serves_only_answers_witness:
  "\<exists>outs s outs' s' f n. node_history rp2040_masks 0 outs s \<and>
     run (live_step rp2040_masks) s (replicate 10 (Bus_irq 0x020 0)) = Some (outs', s') \<and>
     concat (map live_served outs') \<noteq> [] \<and>
     concat (map live_served outs') = take n (encoded_bytes f @ replicate n 0) \<and>
     ((\<exists>sq t. heartbeat_frame kNodeId sq t = Some f) \<or>
      (\<exists>sq g. Took (Some g) \<in> set (outs @ outs') \<and> f_flags g AND kFlagAckRequired \<noteq> 0 \<and>
        make_ack_frame kNodeId sq (f_sequence g) ack_accepted = Some f))"
proof -
  let ?evs = "replicate 14 (Main_step 0) @ bus_write (encoded_bytes ack_command) @ replicate 14 (Main_step 0)"
  let ?r = "run (live_step rp2040_masks) Live_node ?evs"
  let ?q = "run (live_step rp2040_masks) (snd (the ?r)) (replicate 10 (Bus_irq 0x020 0))"
  have r: "?r = Some (fst (the ?r), snd (the ?r))" "?q = Some (fst (the ?q), snd (the ?q))"
    "Finished True \<in> set (fst (the ?r))" "ep_tx_index (lv_endpoint (snd (the ?r))) = 0"
    "\<forall>ev\<in>set (replicate 10 (Bus_irq 0x020 0)). \<not> live_resets rp2040_masks ev"
    "concat (map live_served (fst (the ?q))) \<noteq> []"
    by code_simp+
  have "node_history rp2040_masks 0 (fst (the ?r)) (snd (the ?r))"
    using history_run [OF started [OF live_start_eq] r(1)] by simp
  from node_serves_only_answers [OF this r(3,4,2,5)] this r(2,6) show ?thesis by blast
qed

section \<open>How soon a frame is taken and answered\<close>

fun is_main :: "live_event \<Rightarrow> bool" where
  "is_main (Bus_irq st d) = False"
| "is_main (Main_step t) = True"

definition main_steps :: "live_event list \<Rightarrow> nat" where
  "main_steps evs = length (filter is_main evs)"

lemma main_steps_simps [simp]:
  "main_steps [] = 0" "main_steps (Bus_irq st d # evs) = main_steps evs"
  "main_steps (Main_step t # evs) = Suc (main_steps evs)"
  by (simp_all add: main_steps_def)

lemma main_steps_Cons: "main_steps (ev # evs) = (if is_main ev then 1 else 0) + main_steps evs"
  by (simp add: main_steps_def)

text \<open>
  The steps that \<open>main\<close> has to the end of its next \<open>poll\<close>, at most: a heartbeat is 12 bytes, which
  makes 14 steps of \<open>publish\<close>, and an acknowledgement 10.
\<close>

fun from_return :: "return_to \<Rightarrow> nat" where
  "from_return To_poll = 1"
| "from_return To_top = 16"

definition steps_to_poll :: "(u8 list \<times> nat) program_pc \<Rightarrow> nat" where
  "steps_to_poll pc = (case pc of
     At_top \<Rightarrow> 16 | At_heartbeat r \<Rightarrow> 14 + from_return r | At_poll \<Rightarrow> 1 | At_ack sq \<Rightarrow> 28
   | In_publish r p \<Rightarrow> (length (fst p) - snd p) + 1 + from_return r)"

lemma steps_after [simp]: "steps_to_poll (after r) = from_return r"
  by (cases r) (simp_all add: steps_to_poll_def)

lemma steps_decrease:
  "pv_pc v = At_poll \<or> steps_to_poll (pv_pc (snd (program_spec k v (Main_step t)))) < steps_to_poll (pv_pc v)"
proof (cases "pv_pc v")
  case (In_publish r p)
  then show ?thesis
    by (cases p) (auto simp: steps_to_poll_def [of "In_publish r (_, _)"])
qed (auto simp: steps_to_poll_def begin_spec_def program_frames)

lemma steps_to_poll_pos: "0 < steps_to_poll pc"
  by (cases pc) (simp_all add: steps_to_poll_def)

lemma steps_to_poll_le:
  assumes "live_inv s"
  shows "steps_to_poll (pv_pc (program_view_of s)) \<le> 30"
proof -
  have r: "from_return r \<le> 16" for r by (cases r) simp_all
  show ?thesis
  proof (cases "lv_pc s")
    case (In_publish r p)
    then have "length (fst (publish_view p)) \<le> 12"
      using assms by (cases p) (auto simp: live_inv_def publish_view_def min_le_iff_disj)
    with In_publish r [of r] show ?thesis by (simp add: program_view_of_def steps_to_poll_def)
  qed (use r in \<open>simp_all add: program_view_of_def steps_to_poll_def\<close>)
qed

lemma mb_irq_keeps_pending: "mb_pending m = Some bs \<Longrightarrow> mb_pending (snd (mb_irq k st d m)) = Some bs"
  by (simp add: mb_irq_def Let_def split_beta mb_stop_def)

lemma main_keeps_pending:
  "pv_pc v \<noteq> At_poll \<Longrightarrow> mb_pending (pv_mail (snd (program_spec k v (Main_step t)))) = mb_pending (pv_mail v) \<and>
   (\<forall>g. Took g \<noteq> fst (program_spec k v (Main_step t)))"
  by (cases "pv_pc v") (auto simp: begin_spec_def split: prod.splits)

lemma spec_poll_reached:
  "mb_pending (pv_mail v) = Some bs \<Longrightarrow> steps_to_poll (pv_pc v) \<le> main_steps evs \<Longrightarrow>
   \<exists>evs1 t evs2 v1. evs = evs1 @ Main_step t # evs2 \<and> main_steps evs1 < steps_to_poll (pv_pc v) \<and>
     v1 = snd (spec_run (program_spec k) v evs1) \<and> pv_pc v1 = At_poll \<and> mb_pending (pv_mail v1) = Some bs \<and>
     (\<forall>g. Took g \<notin> set (fst (spec_run (program_spec k) v evs1)))"
proof (induction evs arbitrary: v)
  case Nil
  then show ?case using steps_to_poll_pos [of "pv_pc v"] by simp
next
  case (Cons ev evs)
  let ?v = "snd (program_spec k v ev)"
  show ?case
  proof (cases "is_main ev \<and> pv_pc v = At_poll")
    case True
    then obtain t where "ev = Main_step t" by (cases ev) simp_all
    with True Cons.prems(1) show ?thesis
      by - (rule exI [of _ "[]"], rule exI [of _ t], rule exI [of _ evs], rule exI [of _ v],
        simp add: steps_to_poll_def)
  next
    case False
    have "mb_pending (pv_mail ?v) = Some bs \<and> (\<forall>g. Took g \<noteq> fst (program_spec k v ev)) \<and>
        steps_to_poll (pv_pc ?v) + (if is_main ev then 1 else 0) \<le> steps_to_poll (pv_pc v)"
    proof (cases ev)
      case (Bus_irq st d)
      with Cons.prems(1) show ?thesis by (simp add: mb_irq_keeps_pending)
    next
      case (Main_step t)
      with False have pc: "pv_pc v \<noteq> At_poll" by simp
      with Main_step Cons.prems(1) main_keeps_pending [OF pc, of k t] steps_decrease [of v k t] show ?thesis by simp
    qed
    note step = this
    then have "steps_to_poll (pv_pc ?v) \<le> main_steps evs" using Cons.prems(2) by (cases ev) simp_all
    with Cons.IH [of ?v] step obtain evs1 t evs2 v1 where
      "evs = evs1 @ Main_step t # evs2" "main_steps evs1 < steps_to_poll (pv_pc ?v)"
      "v1 = snd (spec_run (program_spec k) ?v evs1)" "pv_pc v1 = At_poll" "mb_pending (pv_mail v1) = Some bs"
      "\<forall>g. Took g \<notin> set (fst (spec_run (program_spec k) ?v evs1))" by metis
    with step show ?thesis
      by - (rule exI [of _ "ev # evs1"], rule exI [of _ t], rule exI [of _ evs2], rule exI [of _ v1],
        auto simp: main_steps_Cons Let_def split_beta simp del: program_spec.simps)
  qed
qed

text \<open>
  A waiting frame is soon taken. Once a frame is pending in the endpoint, the node program
  polls it - as its first poll - within 30 of its own steps, however many interrupts come in
  between and whatever they do, and hands it on if it decodes; interrupts never replace it.
\<close>

theorem pending_frame_taken:
  assumes "node_history k enable outs s" and "mb_pending (mailbox_of (lv_endpoint s)) = Some bs"
    and "run (live_step k) s evs = Some (outs', s')" and "30 \<le> main_steps evs"
  shows "\<exists>outs1 outs2. outs' = outs1 @ Took (incoming_frame (Some bs)) # outs2 \<and> (\<forall>g. Took g \<notin> set outs1)"
proof -
  let ?v = "program_view_of s"
  note inv = history_inv [OF assms(1)]
  have "mb_pending (pv_mail ?v) = Some bs" using assms(2) by (simp add: program_view_of_def)
  moreover have "steps_to_poll (pv_pc ?v) \<le> main_steps evs"
    using steps_to_poll_le [OF inv] assms(4) by linarith
  ultimately obtain evs1 t evs2 v1 where e: "evs = evs1 @ Main_step t # evs2"
    "v1 = snd (spec_run (program_spec k) ?v evs1)" "pv_pc v1 = At_poll" "mb_pending (pv_mail v1) = Some bs"
    "\<forall>g. Took g \<notin> set (fst (spec_run (program_spec k) ?v evs1))"
    using spec_poll_reached [of ?v bs evs k] by blast
  have "fst (program_spec k v1 (Main_step t)) = Took (incoming_frame (Some bs))" using e(3,4) by (simp add: Let_def)
  then have "fst (spec_run (program_spec k) ?v evs) = fst (spec_run (program_spec k) ?v evs1) @
      Took (incoming_frame (Some bs)) # fst (spec_run (program_spec k) (snd (program_spec k v1 (Main_step t))) evs2)"
    unfolding e(1) e(2) by (simp add: spec_run_append Let_def split_beta del: program_spec.simps)
  moreover have "fst (spec_run (program_spec k) ?v evs) = outs'"
    using live.run_refines [OF inv assms(3)] by simp
  ultimately show ?thesis using e(5) by blast
qed

theorem pending_frame_taken_witness:
  "\<exists>outs s outs' s' outs1 outs2. node_history rp2040_masks 0 outs s \<and> has_pending_frame (lv_endpoint s) \<and>
     run (live_step rp2040_masks) s (replicate 30 (Main_step 2000)) = Some (outs', s') \<and>
     outs' = outs1 @ Took (Some (canon ack_command)) # outs2 \<and> (\<forall>g. Took g \<notin> set outs1)"
proof -
  let ?r = "run (live_step rp2040_masks) Live_node (Main_step 0 # bus_write (encoded_bytes ack_command))"
  let ?q = "run (live_step rp2040_masks) (snd (the ?r)) (replicate 30 (Main_step 2000))"
  have r: "?r = Some (fst (the ?r), snd (the ?r))" "?q = Some (fst (the ?q), snd (the ?q))"
    "mb_pending (mailbox_of (lv_endpoint (snd (the ?r)))) = Some (encoded_bytes ack_command)"
    "30 \<le> main_steps (replicate 30 (Main_step 2000))" "has_pending_frame (lv_endpoint (snd (the ?r)))"
    "frame_wf ack_command"
    by code_simp+
  have "node_history rp2040_masks 0 (fst (the ?r)) (snd (the ?r))"
    using history_run [OF started [OF live_start_eq] r(1)] by simp
  with pending_frame_taken [OF this r(3,2,4), unfolded incoming_encoded [OF r(6)]] r(2,5) show ?thesis
    by blast
qed

text \<open>A \<open>publish\<close> that no read disturbs, and how many steps it still takes.\<close>

definition publishing :: "u8 list \<Rightarrow> nat \<Rightarrow> program_view \<Rightarrow> bool" where
  "publishing bs d v \<longleftrightarrow>
     (\<exists>r i. pv_pc v = In_publish r (bs, i) \<and> i \<le> length bs \<and> d = length bs - i + 1) \<or>
     (\<exists>sq. pv_pc v = At_ack sq \<and> bs = wire_image (answer_frame kNodeId (pv_sequence v) sq) \<and> d = 12)"

lemma publishing_step:
  assumes "publishing bs d v" and "mb_sent (pv_mail v) = 0"
  shows "mb_outgoing (pv_mail (snd (program_spec k v (Main_step t)))) = bs \<or>
    (\<exists>d'. d = Suc d' \<and> publishing bs d' (snd (program_spec k v (Main_step t))))"
  using assms(1) unfolding publishing_def [of bs d v]
proof (elim disjE exE conjE)
  fix r i assume pc: "pv_pc v = In_publish r (bs, i)" "i \<le> length bs" "d = length bs - i + 1"
  then show ?thesis using assms(2) by (cases "i < length bs") (auto simp: publishing_def Suc_diff_Suc)
next
  fix sq assume pc: "pv_pc v = At_ack sq" "bs = wire_image (answer_frame kNodeId (pv_sequence v) sq)" "d = 12"
  then show ?thesis by (simp add: begin_spec_def program_frames publishing_def)
qed

lemma sent_kept:
  "mb_sent (pv_mail v) = 0 \<Longrightarrow> \<not> live_raised (rd_req_bits k) ev \<Longrightarrow> mb_sent (pv_mail (snd (program_spec k v ev))) = 0"
  by (cases ev; cases "pv_pc v") (auto simp: mb_irq_sent begin_spec_def Let_def split: prod.splits)

lemma sent_kept_run:
  "mb_sent (pv_mail v) = 0 \<Longrightarrow> \<forall>ev\<in>set evs. \<not> live_raised (rd_req_bits k) ev \<Longrightarrow>
   mb_sent (pv_mail (snd (spec_run (program_spec k) v evs))) = 0"
  by (induction evs arbitrary: v) (simp_all add: Let_def split_beta sent_kept del: program_spec.simps)

lemma publish_done:
  "publishing bs d v \<Longrightarrow> mb_sent (pv_mail v) = 0 \<Longrightarrow> \<forall>ev\<in>set evs. \<not> live_raised (rd_req_bits k) ev \<Longrightarrow>
   d \<le> main_steps evs \<Longrightarrow>
   \<exists>evs1 evs2. evs = evs1 @ evs2 \<and> mb_outgoing (pv_mail (snd (spec_run (program_spec k) v evs1))) = bs"
proof (induction evs arbitrary: v d)
  case Nil
  then show ?case by (auto simp: publishing_def)
next
  case (Cons ev evs)
  let ?v = "snd (program_spec k v ev)"
  have sent: "mb_sent (pv_mail ?v) = 0" using Cons.prems(2,3) sent_kept by simp
  consider "mb_outgoing (pv_mail ?v) = bs" | d' where "publishing bs d' ?v" "d' \<le> main_steps evs"
  proof (cases ev)
    case (Bus_irq st d0)
    with Cons.prems(1,4) have "publishing bs d ?v" "d \<le> main_steps evs" by (simp_all add: publishing_def)
    then show thesis by (rule that(2))
  next
    case (Main_step t)
    with publishing_step [OF Cons.prems(1,2), of k t] Cons.prems(4) show thesis
      by (metis Suc_le_mono main_steps_simps(3) that)
  qed
  then show ?case
  proof cases
    case 1
    then show ?thesis by - (rule exI [of _ "[ev]"], rule exI [of _ evs], simp add: split_beta)
  next
    case 2
    from Cons.IH [OF 2(1) sent _ 2(2)] Cons.prems(3) obtain evs1 evs2 where
      "evs = evs1 @ evs2" "mb_outgoing (pv_mail (snd (spec_run (program_spec k) ?v evs1))) = bs" by auto
    then show ?thesis
      by - (rule exI [of _ "ev # evs1"], rule exI [of _ evs2], simp add: Let_def split_beta del: program_spec.simps)
  qed
qed



end
