(* ===== verification/Sketch_Interleaving.thy ===== *)
theory Sketch_Interleaving
  imports Arduino_Node
begin

text \<open>
  The Arduino node sketch statement by statement: \<open>setup\<close> and \<open>loop\<close> of
  \<open>examples/ArduinoHeartbeatNode\<close> with a program counter, and the callbacks of \<open>Wire\<close> between
  any two of its steps - also between the test and the critical section of \<open>poll\<close>, and between
  \<open>poll\<close> and the answer. \<open>Arduino_Node\<close> takes a turn of the loop as one step.

  A step is what the sketch does up to the next point where a callback can make a difference:
  reading the clock, publishing (its access to the endpoint is one critical section), testing
  the flag, and taking the frame.
\<close>

section \<open>The sketch and its callbacks\<close>

datatype sketch_pc = Sk_setup | Sk_top | Sk_heartbeat | Sk_test | Sk_take | Sk_ack u8

record live_sketch =
  lk_state :: node_sketch
  lk_pc :: sketch_pc

datatype 'w live_sketch_event = Sk_receive 'w int | Sk_request | Sk_step u32
datatype live_sketch_output =
  Sk_written | Sk_served "u8 list option" | Sk_clock | Sk_published frame | Sk_tested bool | Sk_took "frame option"

definition sk_publish :: "frame \<Rightarrow> sketch_pc \<Rightarrow> node_sketch \<Rightarrow> (live_sketch_output \<times> live_sketch) option" where
  "sk_publish f pc s = do {
     e \<leftarrow> rd (ns_objects s) 0;
     (_, e) \<leftarrow> we_publish e f;
     objs \<leftarrow> wr (ns_objects s) 0 e;
     Some (Sk_published f, \<lparr>lk_state = s\<lparr>ns_objects := objs, ns_sequence := ns_sequence s + 1\<rparr>, lk_pc = pc\<rparr>)
   }"

definition sketch_main :: "u32 \<Rightarrow> live_sketch \<Rightarrow> (live_sketch_output \<times> live_sketch) option" where
  "sketch_main now k = (let s = lk_state k in case lk_pc k of
     Sk_setup \<Rightarrow> do {
       f \<leftarrow> heartbeat_frame kNodeId_ino (ns_sequence s) now;
       sk_publish f Sk_top s
     }
   | Sk_top \<Rightarrow>
       if now - ns_last_heartbeat_ms s \<ge> 1000
       then Some (Sk_clock, \<lparr>lk_state = s\<lparr>ns_last_heartbeat_ms := now\<rparr>, lk_pc = Sk_heartbeat\<rparr>)
       else Some (Sk_clock, \<lparr>lk_state = s, lk_pc = Sk_test\<rparr>)
   | Sk_heartbeat \<Rightarrow> do {
       f \<leftarrow> heartbeat_frame kNodeId_ino (ns_sequence s) now;
       sk_publish f Sk_test s
     }
   | Sk_test \<Rightarrow> do {
       e \<leftarrow> rd (ns_objects s) 0;
       Some (Sk_tested (we_rx_ready e), \<lparr>lk_state = s, lk_pc = (if we_rx_ready e then Sk_take else Sk_top)\<rparr>)
     }
   | Sk_take \<Rightarrow> do {
       e \<leftarrow> rd (ns_objects s) 0;
       (ok, incoming, _, e) \<leftarrow> we_take e Frame None;
       objs \<leftarrow> wr (ns_objects s) 0 e;
       let pc = (if ok \<and> f_flags incoming AND kFlagAckRequired \<noteq> 0 then Sk_ack (f_sequence incoming) else Sk_top);
       Some (Sk_took (if ok then Some incoming else None), \<lparr>lk_state = s\<lparr>ns_objects := objs\<rparr>, lk_pc = pc\<rparr>)
     }
   | Sk_ack acknowledged \<Rightarrow> do {
       ack \<leftarrow> make_ack_frame kNodeId_ino (ns_sequence s) acknowledged ack_accepted;
       sk_publish ack Sk_top s
     })"

fun live_sketch_step ::
  "'w two_wire \<Rightarrow> live_sketch \<Rightarrow> 'w live_sketch_event \<Rightarrow> (live_sketch_output \<times> live_sketch) option" where
  "live_sketch_step tw k (Sk_receive w n) = do {
     (objs, _) \<leftarrow> receive_callback tw n (ns_active (lk_state k)) (ns_objects (lk_state k)) w;
     Some (Sk_written, k\<lparr>lk_state := (lk_state k)\<lparr>ns_objects := objs\<rparr>\<rparr>)
   }"
| "live_sketch_step tw k Sk_request = do {
     out \<leftarrow> request_callback (ns_active (lk_state k)) (ns_objects (lk_state k));
     Some (Sk_served out, k)
   }"
| "live_sketch_step tw k (Sk_step now) = sketch_main now k"

text \<open>\<open>setup\<close> up to \<open>endpoint.begin\<close>, from which on callbacks occur.\<close>

definition live_setup :: "live_sketch option" where
  "live_setup = do {
     (_, _, active, objs) \<leftarrow> we_begin (ns_active Node_sketch) (ns_objects Node_sketch) 0 kI2cAddress_ino 0;
     Some \<lparr>lk_state = Node_sketch\<lparr>ns_active := active, ns_objects := objs\<rparr>, lk_pc = Sk_setup\<rparr>
   }"

section \<open>Specification: the same sketch over a last-write mailbox\<close>

record sketch_view =
  sv_pending :: "u8 list"
  sv_outgoing :: "u8 list"
  sv_pc :: sketch_pc
  sv_sequence :: u8
  sv_last_heartbeat_ms :: u32

definition publish_spec :: "frame \<Rightarrow> sketch_pc \<Rightarrow> sketch_view \<Rightarrow> live_sketch_output \<times> sketch_view" where
  "publish_spec f pc v =
     (Sk_published f, v\<lparr>sv_outgoing := wire_image f, sv_pc := pc, sv_sequence := sv_sequence v + 1\<rparr>)"

fun sketch_spec ::
  "('w \<Rightarrow> u8 list) \<Rightarrow> sketch_view \<Rightarrow> 'w live_sketch_event \<Rightarrow> live_sketch_output \<times> sketch_view" where
  "sketch_spec buf v (Sk_receive w n) = (Sk_written, v\<lparr>sv_pending := take 40 (take (nat n) (buf w))\<rparr>)"
| "sketch_spec buf v Sk_request = (Sk_served (if sv_outgoing v = [] then None else Some (sv_outgoing v)), v)"
| "sketch_spec buf v (Sk_step now) = (case sv_pc v of
     Sk_setup \<Rightarrow> publish_spec (uptime_frame kNodeId_ino (sv_sequence v) now) Sk_top v
   | Sk_top \<Rightarrow> (Sk_clock, if now - sv_last_heartbeat_ms v \<ge> 1000
       then v\<lparr>sv_last_heartbeat_ms := now, sv_pc := Sk_heartbeat\<rparr> else v\<lparr>sv_pc := Sk_test\<rparr>)
   | Sk_heartbeat \<Rightarrow> publish_spec (uptime_frame kNodeId_ino (sv_sequence v) now) Sk_test v
   | Sk_test \<Rightarrow> (Sk_tested (sv_pending v \<noteq> []), v\<lparr>sv_pc := (if sv_pending v \<noteq> [] then Sk_take else Sk_top)\<rparr>)
   | Sk_take \<Rightarrow>
       let incoming = incoming_frame (Some (sv_pending v)) in
       (Sk_took incoming, v\<lparr>sv_pending := [],
          sv_pc := if wants_ack incoming then Sk_ack (f_sequence (the incoming)) else Sk_top\<rparr>)
   | Sk_ack acknowledged \<Rightarrow> publish_spec (answer_frame kNodeId_ino (sv_sequence v) acknowledged) Sk_top v)"

definition sketch_view_of :: "live_sketch \<Rightarrow> sketch_view" where
  "sketch_view_of k = \<lparr>sv_pending = we_pending (ns_endpoint (lk_state k)), sv_outgoing = we_outgoing (ns_endpoint (lk_state k)),
     sv_pc = lk_pc k, sv_sequence = ns_sequence (lk_state k), sv_last_heartbeat_ms = ns_last_heartbeat_ms (lk_state k)\<rparr>"

definition live_sketch_inv :: "live_sketch \<Rightarrow> bool" where
  "live_sketch_inv k \<longleftrightarrow> ns_inv (lk_state k)"

lemma sketch_view_fields [simp]:
  "sv_pc (sketch_view_of k) = lk_pc k" "sv_sequence (sketch_view_of k) = ns_sequence (lk_state k)"
  by (simp_all add: sketch_view_of_def)

lemma sk_publish_ok:
  assumes "live_sketch_inv k" and "frame_wf f"
  shows "\<exists>t. sk_publish f pc (lk_state k) = Some (fst (publish_spec f pc (sketch_view_of k)), t) \<and> live_sketch_inv t \<and>
    sketch_view_of t = snd (publish_spec f pc (sketch_view_of k))"
proof -
  obtain e where e: "ns_active (lk_state k) = Some 0" "ns_objects (lk_state k) = [e]" "we_inv e"
    using assms(1) by (auto simp: live_sketch_inv_def ns_inv_def)
  from we_publish_ok [OF e(3) assms(2)] e show ?thesis
    by (auto simp: sk_publish_def publish_spec_def live_sketch_inv_def ns_inv_def sketch_view_of_def ns_endpoint_def ub_simps)
qed

lemma sk_take_ok:
  assumes "live_sketch_inv k" and "lk_pc k = Sk_take"
  shows "\<exists>t. sketch_main now k = Some (fst (sketch_spec buf (sketch_view_of k) (Sk_step now)), t) \<and> live_sketch_inv t \<and>
    sketch_view_of t = snd (sketch_spec buf (sketch_view_of k) (Sk_step now))"
proof -
  obtain e where e: "ns_active (lk_state k) = Some 0" "ns_objects (lk_state k) = [e]" "we_inv e"
    using assms(1) by (auto simp: live_sketch_inv_def ns_inv_def)
  let ?p = "Some (we_pending e)"
  let ?r = "poll_answer ?p Frame None"
  obtain e' where e': "we_take e Frame None = Some (fst ?r, fst (snd ?r), snd (snd ?r), e')" "we_inv e'"
    "we_pending e' = []" "we_outgoing e' = we_outgoing e"
    using we_take_ok [OF e(3) refl] by blast
  show ?thesis
  proof (cases "incoming_frame ?p")
    case None
    with poll_answer_incoming(1) [of ?p Frame None] e e' assms(2) show ?thesis
      by (simp add: sketch_main_def live_sketch_inv_def ns_inv_def sketch_view_of_def ns_endpoint_def wants_ack_def ub_simps Let_def)
  next
    case (Some f)
    with poll_answer_incoming(1) [of ?p Frame None] poll_answer_incoming(2) [OF Some, of Frame None] e e' assms(2)
    show ?thesis
      by (simp add: sketch_main_def live_sketch_inv_def ns_inv_def sketch_view_of_def ns_endpoint_def wants_ack_def ub_simps Let_def)
  qed
qed

lemma live_sketch_step_ok:
  assumes tw: "fifo_wire tw buf" and inv: "live_sketch_inv k"
  shows "\<exists>t. live_sketch_step tw k ev = Some (fst (sketch_spec buf (sketch_view_of k) ev), t) \<and> live_sketch_inv t \<and>
    sketch_view_of t = snd (sketch_spec buf (sketch_view_of k) ev)"
proof -
  obtain e where e: "ns_active (lk_state k) = Some 0" "ns_objects (lk_state k) = [e]" "we_inv e"
    using inv by (auto simp: live_sketch_inv_def ns_inv_def)
  note defs = live_sketch_inv_def ns_inv_def sketch_view_of_def ns_endpoint_def ub_simps
  show ?thesis
  proof (cases ev)
    case (Sk_receive w n)
    with receive_from_isr_ok [OF tw e(3), of n w] e show ?thesis by (auto simp: receive_callback_def defs)
  next
    case Sk_request
    with request_from_isr_ok [OF e(3)] e inv show ?thesis by (simp add: request_callback_def defs)
  next
    case (Sk_step now)
    note frames = heartbeat_frame_uptime make_ack_frame_answer
    show ?thesis
    proof (cases "lk_pc k")
      case Sk_take
      with sk_take_ok [OF inv] Sk_step show ?thesis by simp
    next
      case Sk_test
      with we_lengths(3) [OF e(3)] Sk_step e show ?thesis by (simp add: sketch_main_def defs)
    next
      case Sk_top
      with Sk_step e show ?thesis by (simp add: sketch_main_def defs Let_def)
    next
      case (Sk_ack sq)
      with sk_publish_ok [OF inv program_frames(3), of kNodeId_ino "ns_sequence (lk_state k)" sq Sk_top] Sk_step
      show ?thesis by (simp add: sketch_main_def frames Let_def)
    next
      case Sk_setup
      with sk_publish_ok [OF inv program_frames(1), of kNodeId_ino "ns_sequence (lk_state k)" now Sk_top] Sk_step
      show ?thesis by (simp add: sketch_main_def frames Let_def)
    next
      case Sk_heartbeat
      with sk_publish_ok [OF inv program_frames(1), of kNodeId_ino "ns_sequence (lk_state k)" now Sk_test] Sk_step
      show ?thesis by (simp add: sketch_main_def frames Let_def)
    qed
  qed
qed

text \<open>The sketch after \<open>begin\<close>.\<close>

definition Live_sketch :: live_sketch where
  "Live_sketch = \<lparr>lk_state = Node_sketch\<lparr>ns_active := Some 0, ns_objects := [WirePeripheralEndpoint\<lparr>we_wire := Some 0\<rparr>]\<rparr>,
     lk_pc = Sk_setup\<rparr>"

definition fresh_sketch :: sketch_view where
  "fresh_sketch = \<lparr>sv_pending = [], sv_outgoing = [], sv_pc = Sk_setup, sv_sequence = 0, sv_last_heartbeat_ms = 0\<rparr>"

lemma live_setup_eq: "live_setup = Some Live_sketch"
  by (simp add: live_setup_def we_begin_def Node_sketch_def Live_sketch_def ub_simps)

lemma live_sketch_start: "live_sketch_inv Live_sketch" "sketch_view_of Live_sketch = fresh_sketch"
  using we_inv_start
  by (simp_all add: Live_sketch_def live_sketch_inv_def ns_inv_def we_inv_def sketch_view_of_def fresh_sketch_def
      Node_sketch_def ns_endpoint_def we_pending_def we_outgoing_def WirePeripheralEndpoint_def)

lemma live_sketch_refined:
  assumes tw: "fifo_wire tw buf"
  shows "refined_component (live_sketch_step tw) live_sketch_inv Live_sketch (sketch_spec buf) sketch_view_of"
proof
  show "live_sketch_inv Live_sketch" by (rule live_sketch_start)
  show "\<exists>x t. live_sketch_step tw s i = Some (x, t)" if "live_sketch_inv s" for s i
    using live_sketch_step_ok [OF tw that] by blast
  show "live_sketch_inv t" if "live_sketch_inv s" "live_sketch_step tw s i = Some (x, t)" for s i x t
    using live_sketch_step_ok [OF tw that(1), of i] that(2) by auto
  show "sketch_spec buf (sketch_view_of s) i = (x, sketch_view_of t)"
    if "live_sketch_inv s" "live_sketch_step tw s i = Some (x, t)" for s i x t
    using live_sketch_step_ok [OF tw that(1), of i] that(2) by (auto simp: prod_eq_iff)
qed

end
