(* ===== verification/Sketch_Guarantees.thy ===== *)
theory Sketch_Guarantees
  imports Sketch_Interleaving
begin

text \<open>
  What the Arduino node sketch guarantees under every interleaving with its callbacks: every
  request is served a heartbeat of the node or the answer to a frame that it received, and a
  written command that no later write replaces is answered within six steps of the sketch.
\<close>

section \<open>What requests are served\<close>

definition sketch_own :: "live_sketch_output list \<Rightarrow> frame \<Rightarrow> bool" where
  "sketch_own outs f \<longleftrightarrow> (\<exists>s t. f = uptime_frame kNodeId_ino s t) \<or>
     (\<exists>s g. Sk_took (Some g) \<in> set outs \<and> wants_ack (Some g) \<and> f = answer_frame kNodeId_ino s (f_sequence g))"

lemma sketch_own_more: "sketch_own outs f \<Longrightarrow> sketch_own (outs @ outs') f"
  by (auto simp: sketch_own_def)

definition own_bytes :: "live_sketch_output list \<Rightarrow> u8 list \<Rightarrow> bool" where
  "own_bytes outs bs \<longleftrightarrow> (\<exists>f. bs = wire_image f \<and> sketch_own outs f)"

lemma own_bytes_more: "own_bytes outs bs \<Longrightarrow> own_bytes (outs @ outs') bs"
  by (auto simp: own_bytes_def intro: sketch_own_more)

definition serves_own :: "live_sketch_output list \<Rightarrow> sketch_view \<Rightarrow> bool" where
  "serves_own outs v \<longleftrightarrow> (sv_outgoing v = [] \<or> own_bytes outs (sv_outgoing v)) \<and>
     (\<forall>sq. sv_pc v = Sk_ack sq \<longrightarrow> (\<exists>g. Sk_took (Some g) \<in> set outs \<and> wants_ack (Some g) \<and> f_sequence g = sq)) \<and>
     (\<forall>bs. Sk_served (Some bs) \<in> set outs \<longrightarrow> own_bytes outs bs)"

lemma serves_own_step:
  assumes "serves_own outs v"
  shows "serves_own (outs @ [fst (sketch_spec buf v ev)]) (snd (sketch_spec buf v ev))"
proof -
  let ?o = "fst (sketch_spec buf v ev)" and ?v = "snd (sketch_spec buf v ev)"
  let ?outs = "outs @ [?o]"
  have own: "sv_outgoing v = [] \<or> own_bytes ?outs (sv_outgoing v)"
    "\<And>bs. Sk_served (Some bs) \<in> set outs \<Longrightarrow> own_bytes ?outs bs"
    and ack: "\<And>sq. sv_pc v = Sk_ack sq \<Longrightarrow> \<exists>g. Sk_took (Some g) \<in> set ?outs \<and> wants_ack (Some g) \<and> f_sequence g = sq"
    using assms by (auto simp: serves_own_def intro: own_bytes_more)
  have up: "own_bytes ?outs (wire_image (uptime_frame kNodeId_ino s t))" for s t
    by (auto simp: own_bytes_def sketch_own_def)
  have an: "own_bytes ?outs (wire_image (answer_frame kNodeId_ino s sq))" if "sv_pc v = Sk_ack sq" for s sq
    using ack [OF that] unfolding own_bytes_def sketch_own_def by blast
  show ?thesis
  proof (cases ev)
    case (Sk_receive w n)
    with own ack show ?thesis by (simp add: serves_own_def)
  next
    case Sk_request
    with own ack show ?thesis by (auto simp: serves_own_def)
  next
    case (Sk_step now)
    show ?thesis
    proof (cases "sv_pc v")
      case Sk_take
      with own Sk_step show ?thesis
        by (cases "incoming_frame (Some (sv_pending v))") (auto simp: serves_own_def Let_def wants_ack_def)
    qed (use own up an Sk_step in \<open>auto simp: serves_own_def publish_spec_def\<close>)
  qed
qed

text \<open>Runs from \<open>setup\<close> on, seen in the specification.\<close>

lemma sketch_run_spec:
  assumes "fifo_wire tw buf" and "live_setup = Some s0" and "run (live_sketch_step tw) s0 evs = Some (outs, s)"
  shows "live_sketch_inv s \<and> spec_run (sketch_spec buf) fresh_sketch evs = (outs, sketch_view_of s)"
proof -
  note r = live_sketch_refined [OF assms(1)]
  note safe = refined_component.axioms(1) [OF r]
  have s0: "s0 = Live_sketch" using assms(2) by (simp add: live_setup_eq)
  show ?thesis
    using safe_component.run_inv [OF safe live_sketch_start(1)] refined_component.run_refines [OF r live_sketch_start(1)]
      assms(3) by (simp add: s0 live_sketch_start(2))
qed

text \<open>
  C36: What the controller reads, the sketch meant. In every run of the Arduino node sketch from
  \<open>setup\<close> on - receive and request callbacks running between any two of its steps - every
  request is served the whole encoding of a heartbeat of this node or of its acknowledgement of
  a frame that it did receive and that asked for one - or nothing at all.
\<close>

theorem sketch_serves_only_answers:
  assumes "fifo_wire tw buf" and "live_setup = Some s0" and "run (live_sketch_step tw) s0 evs = Some (outs, s)"
    and "Sk_served (Some bs) \<in> set outs"
  shows "\<exists>f. bs = encoded_bytes f \<and>
    ((\<exists>sq t. heartbeat_frame kNodeId_ino sq t = Some f) \<or>
     (\<exists>sq g. Sk_took (Some g) \<in> set outs \<and> f_flags g AND kFlagAckRequired \<noteq> 0 \<and>
        make_ack_frame kNodeId_ino sq (f_sequence g) ack_accepted = Some f))"
proof -
  have "serves_own (fst (spec_run (sketch_spec buf) fresh_sketch evs)) (snd (spec_run (sketch_spec buf) fresh_sketch evs))"
    by (rule spec_run_invariant) (simp add: serves_own_def fresh_sketch_def, rule serves_own_step)
  then have "serves_own outs (sketch_view_of s)" using sketch_run_spec [OF assms(1-3)] by simp
  with assms(4) obtain f where f: "bs = wire_image f" "sketch_own outs f"
    by (auto simp: serves_own_def own_bytes_def)
  from f(2) consider s t where "f = uptime_frame kNodeId_ino s t" |
    s g where "Sk_took (Some g) \<in> set outs" "wants_ack (Some g)" "f = answer_frame kNodeId_ino s (f_sequence g)"
    by (auto simp: sketch_own_def)
  then show ?thesis
  proof cases
    case 1
    with f(1) show ?thesis
      by (intro exI [of _ f]) (auto simp: encoded_bytes_image program_frames heartbeat_frame_uptime)
  next
    case 2
    with f(1) show ?thesis
      by (intro exI [of _ f]) (auto simp: encoded_bytes_image program_frames make_ack_frame_answer wants_ack_def)
  qed
qed

theorem sketch_serves_only_answers_witness:
  "\<exists>outs s f. run (live_sketch_step (list_driver [])) Live_sketch [Sk_step 3, Sk_receive (encoded_bytes ack_command) 8,
      Sk_step 4, Sk_step 5, Sk_step 6, Sk_step 7, Sk_request] = Some (outs, s) \<and>
    Sk_served (Some (encoded_bytes f)) \<in> set outs \<and>
    ((\<exists>sq t. heartbeat_frame kNodeId_ino sq t = Some f) \<or>
     (\<exists>sq g. Sk_took (Some g) \<in> set outs \<and> f_flags g AND kFlagAckRequired \<noteq> 0 \<and>
        make_ack_frame kNodeId_ino sq (f_sequence g) ack_accepted = Some f))"
proof -
  let ?evs = "[Sk_step 3, Sk_receive (encoded_bytes ack_command) 8, Sk_step 4, Sk_step 5, Sk_step 6, Sk_step 7, Sk_request]"
  let ?bs = "encoded_bytes (answer_frame kNodeId_ino 1 5)"
  note r = live_sketch_refined [OF fifo_list_driver, of "[]"]
  have served: "Sk_served (Some ?bs) \<in> set (fst (spec_run (sketch_spec (\<lambda>w. w)) fresh_sketch ?evs))" by code_simp
  obtain s where s: "run (live_sketch_step (list_driver [])) Live_sketch ?evs =
      Some (fst (spec_run (sketch_spec (\<lambda>w. w)) fresh_sketch ?evs), s)"
    using refined_component.run_spec [OF r live_sketch_start(1), of ?evs] unfolding live_sketch_start(2) by blast
  from sketch_serves_only_answers [OF fifo_list_driver live_setup_eq this served] s served show ?thesis by metis
qed

section \<open>Commands are answered\<close>

fun is_step :: "'w live_sketch_event \<Rightarrow> bool" where
  "is_step (Sk_step t) = True"
| "is_step _ = False"

fun is_write :: "'w live_sketch_event \<Rightarrow> bool" where
  "is_write (Sk_receive w n) = True"
| "is_write _ = False"

definition sketch_steps :: "'w live_sketch_event list \<Rightarrow> nat" where
  "sketch_steps evs = length (filter is_step evs)"

lemma sketch_steps_simps [simp]:
  "sketch_steps [] = 0" "sketch_steps (ev # evs) = (if is_step ev then Suc (sketch_steps evs) else sketch_steps evs)"
  by (simp_all add: sketch_steps_def)

text \<open>How many steps it takes at most until the critical section of \<open>poll\<close> is entered, and left.\<close>

fun steps_to_take :: "sketch_pc \<Rightarrow> nat" where
  "steps_to_take Sk_top = 4"
| "steps_to_take Sk_heartbeat = 3"
| "steps_to_take Sk_test = 2"
| "steps_to_take Sk_take = 1"
| "steps_to_take _ = 5"

lemma waiting_step:
  assumes "sv_pending v \<noteq> []" and "sv_pc v \<noteq> Sk_take"
  shows "sv_pending (snd (sketch_spec buf v (Sk_step t))) = sv_pending v \<and>
    steps_to_take (sv_pc (snd (sketch_spec buf v (Sk_step t)))) < steps_to_take (sv_pc v)"
  using assms by (cases "sv_pc v") (simp_all add: publish_spec_def)

lemma callback_kept:
  assumes "\<not> is_step ev"
  shows "sv_pc (snd (sketch_spec buf v ev)) = sv_pc v" "sv_sequence (snd (sketch_spec buf v ev)) = sv_sequence v"
    "\<not> is_write ev \<Longrightarrow> snd (sketch_spec buf v ev) = v"
  using assms by (cases ev; simp)+

lemma take_reached:
  "sv_pending v \<noteq> [] \<Longrightarrow> \<forall>ev\<in>set evs. \<not> is_write ev \<Longrightarrow> steps_to_take (sv_pc v) \<le> sketch_steps evs \<Longrightarrow>
   \<exists>evs1 t evs2 v1. evs = evs1 @ Sk_step t # evs2 \<and> sketch_steps evs1 < steps_to_take (sv_pc v) \<and>
     v1 = snd (spec_run (sketch_spec buf) v evs1) \<and> sv_pc v1 = Sk_take \<and> sv_pending v1 = sv_pending v"
proof (induction evs arbitrary: v)
  case Nil
  then show ?case by (cases "sv_pc v") simp_all
next
  case (Cons ev evs)
  let ?v = "snd (sketch_spec buf v ev)"
  show ?case
  proof (cases "is_step ev \<and> sv_pc v = Sk_take")
    case True
    then obtain t where "ev = Sk_step t" by (cases ev) simp_all
    with True show ?thesis
      by - (rule exI [of _ "[]"], rule exI [of _ t], rule exI [of _ evs], rule exI [of _ v], simp)
  next
    case False
    have "sv_pending ?v = sv_pending v \<and>
        steps_to_take (sv_pc ?v) + (if is_step ev then 1 else 0) \<le> steps_to_take (sv_pc v)"
    proof (cases ev)
      case (Sk_step t)
      with False waiting_step [OF Cons.prems(1), of buf t] show ?thesis by simp
    qed (use Cons.prems(2) in auto)
    note step = this
    then have "sv_pending ?v \<noteq> []" "steps_to_take (sv_pc ?v) \<le> sketch_steps evs"
      using Cons.prems(1,3) by (simp_all split: if_splits)
    with Cons.IH [of ?v] Cons.prems(2) step obtain evs1 t evs2 v1 where
      "evs = evs1 @ Sk_step t # evs2" "sketch_steps evs1 < steps_to_take (sv_pc ?v)"
      "v1 = snd (spec_run (sketch_spec buf) ?v evs1)" "sv_pc v1 = Sk_take" "sv_pending v1 = sv_pending v" by force
    with step show ?thesis
      by - (rule exI [of _ "ev # evs1"], rule exI [of _ t], rule exI [of _ evs2], rule exI [of _ v1],
        auto simp: Let_def split_beta simp del: sketch_spec.simps)
  qed
qed

text \<open>The answer follows in the next step, whatever callbacks come before it.\<close>

lemma answer_published:
  "sv_pc v = Sk_ack sq \<Longrightarrow> 0 < sketch_steps evs \<Longrightarrow>
   \<exists>evs1 evs2. evs = evs1 @ evs2 \<and> sketch_steps evs1 = 1 \<and>
     sv_outgoing (snd (spec_run (sketch_spec buf) v evs1)) = wire_image (answer_frame kNodeId_ino (sv_sequence v) sq)"
proof (induction evs arbitrary: v)
  case Nil
  then show ?case by simp
next
  case (Cons ev evs)
  show ?case
  proof (cases "is_step ev")
    case True
    then obtain t where "ev = Sk_step t" by (cases ev) simp_all
    with Cons.prems show ?thesis
      by - (rule exI [of _ "[ev]"], rule exI [of _ evs], simp add: publish_spec_def)
  next
    case False
    note kept = callback_kept(1,2) [OF False, of buf v]
    from Cons.IH [of "snd (sketch_spec buf v ev)"] Cons.prems False kept obtain evs1 evs2 where
      "evs = evs1 @ evs2" "sketch_steps evs1 = 1" "sv_outgoing (snd (spec_run (sketch_spec buf) (snd (sketch_spec buf v ev)) evs1)) =
         wire_image (answer_frame kNodeId_ino (sv_sequence v) sq)" by auto
    with False show ?thesis
      by - (rule exI [of _ "ev # evs1"], rule exI [of _ evs2], simp add: Let_def split_beta del: sketch_spec.simps)
  qed
qed

text \<open>
  C37: A written command is answered within six steps. At any moment of a run of the Arduino node
  sketch let the controller write a command that asks for an acknowledgement, and nothing else
  until the sketch has made six more steps - wherever it was, with requests in between. By then
  the sketch has received exactly this command, and requests are served its acknowledgement.
\<close>

theorem written_command_answered_in_time:
  assumes "fifo_wire tw buf" and "live_setup = Some s0" and "run (live_sketch_step tw) s0 evs0 = Some (outs0, s)"
    and "frame_wf f" and "f_flags f AND kFlagAckRequired \<noteq> 0"
    and "buf w = encoded_bytes f" and "int (length (buf w)) \<le> n"
    and "\<forall>ev\<in>set evs. \<not> is_write ev" and "6 \<le> sketch_steps evs"
  shows "\<exists>evs1 evs2 outs t sq ack. evs = evs1 @ evs2 \<and> sketch_steps evs1 \<le> 6 \<and>
    run (live_sketch_step tw) s (Sk_receive w n # evs1) = Some (outs, t) \<and>
    Sk_took (Some (canon f)) \<in> set outs \<and> make_ack_frame kNodeId_ino sq (f_sequence f) ack_accepted = Some ack \<and>
    we_outgoing (ns_endpoint (lk_state t)) = encoded_bytes ack"
proof -
  let ?run = "spec_run (sketch_spec buf)"
  note r = live_sketch_refined [OF assms(1)]
  note inv = conjunct1 [OF sketch_run_spec [OF assms(1-3)]]
  define v where "v = snd (sketch_spec buf (sketch_view_of s) (Sk_receive w n))"
  have len: "length (encoded_bytes f) \<le> 40" "encoded_bytes f \<noteq> []"
    using assms(4) wire_len_le [of f] by (simp_all add: encoded_bytes_image shape)
  have v: "sv_pending v = encoded_bytes f" using assms(6,7) len by (simp add: v_def)
  have "steps_to_take (sv_pc v) \<le> 5" by (cases "sv_pc v") simp_all
  then have "steps_to_take (sv_pc v) \<le> sketch_steps evs" "steps_to_take (sv_pc v) \<le> 5" using assms(9) by linarith+
  moreover have "sv_pending v \<noteq> []" using v len by simp
  ultimately obtain evs1 t evs2 v1 where e: "evs = evs1 @ Sk_step t # evs2" "sketch_steps evs1 < 5"
    "v1 = snd (?run v evs1)" "sv_pc v1 = Sk_take" "sv_pending v1 = encoded_bytes f"
    using take_reached [OF _ assms(8), of v buf] v by (metis less_le_trans)
  define v2 where "v2 = snd (sketch_spec buf v1 (Sk_step t))"
  have took: "fst (sketch_spec buf v1 (Sk_step t)) = Sk_took (Some (canon f))" "sv_pc v2 = Sk_ack (f_sequence f)"
    using e(4,5) incoming_encoded [OF assms(4)] assms(5) by (simp_all add: v2_def wants_ack_def canon_def Let_def)
  have sum: "sketch_steps (xs @ ys) = sketch_steps xs + sketch_steps ys" for xs ys :: "'a live_sketch_event list"
    by (simp add: sketch_steps_def)
  have "0 < sketch_steps evs2" using assms(9) e(1,2) by (simp add: sum)
  from answer_published [OF took(2) this, of buf] obtain evs3 evs4 where
    e3: "evs2 = evs3 @ evs4" "sketch_steps evs3 = 1"
    "sv_outgoing (snd (?run v2 evs3)) = wire_image (answer_frame kNodeId_ino (sv_sequence v2) (f_sequence f))" by blast
  let ?evs = "evs1 @ Sk_step t # evs3" and ?ack = "answer_frame kNodeId_ino (sv_sequence v2) (f_sequence f)"
  obtain outs u where run: "run (live_sketch_step tw) s (Sk_receive w n # ?evs) = Some (outs, u)"
    using safe_component.run_total [OF refined_component.axioms(1) [OF r] inv] by blast
  have "?run (sketch_view_of s) (Sk_receive w n # ?evs) = (outs, sketch_view_of u)"
    by (rule refined_component.run_refines [OF r inv run])
  then have "sketch_view_of u = snd (?run v2 evs3)" "Sk_took (Some (canon f)) \<in> set outs"
    using took(1) e(3) by (auto simp: spec_run_append Let_def split_beta v2_def v_def simp del: sketch_spec.simps)
  moreover have "we_outgoing (ns_endpoint (lk_state u)) = encoded_bytes ?ack"
    using arg_cong [OF \<open>sketch_view_of u = _\<close>, of sv_outgoing] e3(3)
    by (simp add: sketch_view_of_def encoded_bytes_image program_frames)
  moreover have "evs = ?evs @ evs4" "sketch_steps ?evs \<le> 6" using e(1,2) e3(1,2) by (simp_all add: sum)
  ultimately show ?thesis using run make_ack_frame_answer by blast
qed

theorem written_command_answered_in_time_witness:
  "\<exists>evs1 outs t sq ack. length evs1 \<le> 6 \<and>
    run (live_sketch_step (list_driver [])) Live_sketch (Sk_receive (encoded_bytes ack_command) 8 # evs1) = Some (outs, t) \<and>
    Sk_took (Some (canon ack_command)) \<in> set outs \<and> make_ack_frame kNodeId_ino sq 5 ack_accepted = Some ack \<and>
    we_outgoing (ns_endpoint (lk_state t)) = encoded_bytes ack"
proof -
  let ?evs = "replicate 6 (Sk_step 2000) :: u8 list live_sketch_event list"
  have f: "frame_wf ack_command" "f_flags ack_command AND kFlagAckRequired \<noteq> 0" "f_sequence ack_command = 5"
    "int (length (encoded_bytes ack_command)) \<le> 8" "\<forall>ev\<in>set ?evs. \<not> is_write ev" "6 \<le> sketch_steps ?evs"
    by code_simp+
  have start: "run (live_sketch_step (list_driver [])) Live_sketch [] = Some ([], Live_sketch)" by simp
  obtain evs1 evs2 outs t sq ack where e: "?evs = evs1 @ evs2"
    "run (live_sketch_step (list_driver [])) Live_sketch (Sk_receive (encoded_bytes ack_command) 8 # evs1) = Some (outs, t)"
    "Sk_took (Some (canon ack_command)) \<in> set outs" "make_ack_frame kNodeId_ino sq (f_sequence ack_command) ack_accepted = Some ack"
    "we_outgoing (ns_endpoint (lk_state t)) = encoded_bytes ack"
    using written_command_answered_in_time [OF fifo_list_driver live_setup_eq start f(1,2) refl f(4-6)] by blast
  from arg_cong [OF e(1), of length] have "length evs1 \<le> 6" by simp
  with e(2,3,5) e(4) [unfolded f(3)] show ?thesis by blast
qed

end
