(* ===== verification/Faulty_System.thy ===== *)
theory Faulty_System
  imports Command_System Endpoint_Client
begin

text \<open>
  The command controller with a node at the other end of a bus with faults: in every turn the
  write and the read may each pass, lose everything, or have one byte changed; the fates are
  inputs of the model. The interface \<open>faulty_partner\<close> extends \<open>command_partner\<close> by what such a bus
  keeps of the node; \<open>Faulty_Bus\<close> and \<open>Arduino_Faults\<close> interpret it on the two node programs.
\<close>

section \<open>Faults\<close>

text \<open>What happens to the bytes of a transfer; \<open>Damaged i x\<close> flips the bits \<open>x\<close> of byte \<open>i\<close>.\<close>

datatype bus_fate = Passes | Damaged nat u8 | Fails

fun arrive :: "bus_fate \<Rightarrow> u8 list \<Rightarrow> u8 list" where
  "arrive Passes bs = bs"
| "arrive (Damaged i x) bs = bs[i := bs ! i XOR x]"
| "arrive Fails bs = []"

lemma arrive_length: "length (arrive ft bs) \<le> length bs"
  by (cases ft) simp_all

section \<open>Damage is noticed\<close>

text \<open>A damaged frame is no frame, when its length is known.\<close>

lemma arrive_image:
  assumes "arrive ft (wire_image f) = wire_image g"
  shows "wire_image g = wire_image f"
proof (cases ft)
  case (Damaged i x)
  show ?thesis
  proof (rule ccontr)
    assume ne: "wire_image g \<noteq> wire_image f"
    with assms Damaged have "i < length (wire_image f)" "wire_image f ! i \<noteq> wire_image f ! i XOR x"
      by (metis arrive.simps(2) list_update_beyond not_le, metis arrive.simps(2) list_update_id)
    then have "\<not> sealed ((wire_image f)[i := wire_image f ! i XOR x])"
      by (intro checksum.single_byte_detected wire_image_sealed)
    with assms Damaged show False by (metis arrive.simps(2) wire_image_sealed)
  qed
qed (use assms wire_image_nonempty [of g] in \<open>auto simp del: wire_image_nonempty\<close>)

text \<open>In a padded read the length is read from the frame itself; still no answer can be forged.\<close>

lemma arrive_padded:
  assumes f: "frame_wf f" and g: "frame_wf g" and ft: "ft \<noteq> Fails"
    and eq: "arrive ft (wire_image f @ pad) = wire_image g @ rest" and len: "wire_len f = wire_len g"
  shows "wire_image g = wire_image f"
proof -
  let ?n = "length (wire_image f)"
  have n: "length (wire_image g) = ?n" using f g len by (simp add: shape)
  have "wire_image g = take ?n (arrive ft (wire_image f @ pad))" using eq n by simp
  also have "\<dots> = arrive ft (wire_image f)"
    using ft by (cases ft) (auto simp: list_update_append nth_append take_update_swap list_update_beyond)
  finally show ?thesis using arrive_image by metis
qed

lemma arrive_header:
  assumes "arrive ft (wire_image f @ pad) = wire_image g @ rest" and "ft \<noteq> Fails"
    and "frame_wf f" and "frame_wf g"
  shows "wire_len f = wire_len g \<or> f_type f = f_type g"
proof -
  have same: "wire_image f ! k = wire_image g ! k" if "k < 8" "\<forall>x. ft \<noteq> Damaged k x" for k
  proof -
    have "(wire_image g @ rest) ! k = (wire_image f @ pad) ! k"
      unfolding assms(1) [symmetric] using that assms(2) by (cases ft) auto
    with that(1) assms(3,4) show ?thesis by (simp add: nth_append shape)
  qed
  show ?thesis
  proof (cases "\<exists>x. ft = Damaged 6 x")
    case True
    with same [of 2] show ?thesis by (auto simp: wire_image_nth intro: message_type.expand)
  next
    case False
    with same [of 6] have "(of_nat (wire_len f) :: u8) = of_nat (wire_len g)" by (auto simp: wire_image_nth)
    then show ?thesis by (metis unat_wire_len)
  qed
qed

text \<open>
  What a controller that waits for an acknowledgement makes of a read: the frame that the node
  served, or nothing.
\<close>

lemma read_answer_genuine:
  assumes "frame_wf f" and "f_type f = acknowledgement \<longrightarrow> wire_len f = 2"
    and "arrive ft (wire_image f @ pad) @ replicate k 0 = wire_image g @ rest" and "canonical g"
    and "f_type g = acknowledgement" and "f_payload_length g = 2"
  shows "g = canon f"
proof (cases "ft = Fails")
  case True
  have "wire_image g ! 0 = (wire_image g @ rest) ! 0" by (simp add: nth_append)
  also have "\<dots> = 0"
    using assms(3) True by (metis append_Nil arrive.simps(3) append_is_Nil_conv length_greater_0_conv
        length_replicate nth_replicate wire_image_nonempty)
  finally show ?thesis by (simp add: wire_image_nth)
next
  case False
  have g: "frame_wf g" "wire_len g = 2"
    using assms(4,6) by (simp_all add: canonical_def canonical_wire_len)
  obtain ft' pad' where eq: "arrive ft' (wire_image f @ pad') = wire_image g @ rest" "ft' \<noteq> Fails"
  proof (cases "\<exists>i x. ft = Damaged i x \<and> i < length (wire_image f @ pad)")
    case True
    then obtain i x where "ft = Damaged i x" "i < length (wire_image f @ pad)" by blast
    then have "arrive ft (wire_image f @ (pad @ replicate k 0)) = wire_image g @ rest"
      unfolding assms(3) [symmetric] by (simp add: list_update_append nth_append del: append_assoc flip: append_assoc)
    then show thesis using that False by blast
  next
    case out: False
    then have "arrive ft (wire_image f @ pad) = wire_image f @ pad"
      using False by (cases ft) (auto simp: list_update_beyond)
    then show thesis using that [of Passes "pad @ replicate k 0"] assms(3) by simp
  qed
  have "wire_len f = wire_len g"
    using arrive_header [OF eq assms(1) g(1)] assms(2,5) g(2) by auto
  from arrive_padded [OF assms(1) g(1) eq(2,1) this] assms(1,4) show ?thesis
    by (metis Inr_inject codec.dec_enc decode_spec_iff)
qed

text \<open>A damaged command is no command for the node, and an undamaged one is that command.\<close>

lemma incoming_arrived:
  assumes "frame_wf f"
  shows "incoming_frame (Some (arrive fw (encoded_bytes f))) = None \<or>
    incoming_frame (Some (arrive fw (encoded_bytes f))) = Some (canon f)"
proof (cases "decode_spec (arrive fw (wire_image f))")
  case (Inr g)
  then have "arrive fw (wire_image f) = wire_image g" by (simp add: decode_spec_iff)
  with arrive_image [OF this] Inr codec.dec_enc [OF assms] show ?thesis
    by (simp add: incoming_frame_def encoded_bytes_image assms)
qed (simp add: incoming_frame_def encoded_bytes_image assms)

text \<open>A frame that a node may serve, after the frames \<open>R\<close> that it received.\<close>

definition truthful :: "u8 \<Rightarrow> frame set \<Rightarrow> frame \<Rightarrow> bool" where
  "truthful n R f \<longleftrightarrow> (\<exists>s t. heartbeat_frame n s t = Some f) \<or>
     (\<exists>s a. make_ack_frame n s a ack_accepted = Some f \<and> queued_command a \<in> R)"

lemma truthful_more: "truthful n R f \<Longrightarrow> R \<subseteq> R' \<Longrightarrow> truthful n R' f"
  by (auto simp: truthful_def)

lemma truthful_frame: "truthful n R f \<Longrightarrow> frame_wf f \<and> canonical f \<and> (f_type f = acknowledgement \<longrightarrow> wire_len f = 2)"
proof -
  assume "truthful n R f"
  then consider s t where "heartbeat_frame n s t = Some f" | s a where "make_ack_frame n s a ack_accepted = Some f"
    by (auto simp: truthful_def)
  then show ?thesis
  proof cases
    case 1
    with heartbeat_frame_eq [of n s t] show ?thesis by (auto simp: heartbeat_def acknowledgement_def)
  next
    case 2
    then have "f_payload_length f = 2" by (auto simp: make_ack_frame_eq)
    with ack_canonical [OF 2] show ?thesis by (simp add: wire_len_def)
  qed
qed

text \<open>What a turn of a node program leaves to be served.\<close>

lemma truthful_turn:
  assumes "truthful n R old" and "\<And>g. inc = Some g \<Longrightarrow> g \<in> range queued_command"
    and "out = (if wants_ack inc then wire_image (the (make_ack_frame n s (f_sequence (the inc)) ack_accepted))
      else if hb then wire_image (the (heartbeat_frame n s' t)) else wire_image old)"
  shows "\<exists>f. out = wire_image f \<and> truthful n (R \<union> set_option inc) f"
proof (cases "wants_ack inc")
  case True
  then obtain sq where "inc = Some (queued_command sq)" using assms(2) by (auto simp: wants_ack_def split: option.splits)
  with True assms(3) show ?thesis
    by (intro exI [of _ "the (make_ack_frame n s (f_sequence (the inc)) ack_accepted)"])
      (auto simp: truthful_def make_ack_frame_eq)
next
  case no: False
  show ?thesis
  proof (cases hb)
    case True
    obtain h where "heartbeat_frame n s' t = Some h" using heartbeat_frame_eq by blast
    with True no assms(3) show ?thesis by (intro exI [of _ h]) (auto simp: truthful_def)
  next
    case False
    with no assms(3) truthful_more [OF assms(1), of "R \<union> set_option inc"] show ?thesis by auto
  qed
qed

text \<open>Whatever the controller takes for an acknowledgement is one that the node gave.\<close>

lemma accepted_answer:
  assumes tw: "fifo_wire tw buf" and req: "tw_requestFrom tw a 40 w = (m, w1)"
    and buf: "buf w1 = arrive fr (wire_image f @ pad)" and f: "truthful n R f"
    and rec: "receive_frame (wire_receive tw a) w = Some (r, k, w')"
    and r: "decode_ok r" "f_type (dr_frame r) = acknowledgement" "parse_ack_frame (dr_frame r) = Some (Some (sq, st))"
  shows "st = ack_accepted \<and> queued_command sq \<in> R"
proof -
  note wf = truthful_frame [OF f]
  obtain rest where g: "buf w1 @ replicate (40 - m) 0 = wire_image (dr_frame r) @ rest" "canonical (dr_frame r)"
    using wire_receive_frame_accepted [OF tw req rec r(1)] by blast
  have "f_payload_length (dr_frame r) = 2" using r(3) by (auto simp: parse_ack_frame_def split: if_splits)
  from read_answer_genuine [OF _ _ g(1)[unfolded buf] g(2) r(2) this] wf have "dr_frame r = f"
    by (simp add: canon_canonical)
  with r(2) f obtain s b where "make_ack_frame n s b ack_accepted = Some (dr_frame r)" "queued_command b \<in> R"
    using heartbeat_no_ack by (auto simp: truthful_def)
  with ack_parsed [OF this(1)] r(3) show ?thesis by simp
qed

lemma empty_read_refused:
  assumes "fifo_wire tw buf" and "tw_requestFrom tw a 40 w = (m, w1)" and "buf w1 = []"
    and "receive_frame (wire_receive tw a) w = Some (r, n, w')"
  shows "\<not> decode_ok r"
proof
  assume "decode_ok r"
  with wire_receive_frame_accepted [OF assms(1,2,4)] assms(3) obtain rest where
    "replicate (40 - m) 0 = wire_image (dr_frame r) @ rest" by auto
  then have "set (wire_image (dr_frame r)) \<subseteq> {0}" by (metis Un_upper1 set_append set_replicate_conv_if subset_insertI2 subset_singletonD subset_trans)
  moreover have "wire_image (dr_frame r) ! 0 \<in> set (wire_image (dr_frame r))"
    by (rule nth_mem) (simp add: wire_image_nonempty)
  ultimately show False by (auto simp: wire_image_nth)
qed

section \<open>Turns\<close>

text \<open>The node's two clock readings, the controller's, and the fates of the two transfers.\<close>

record 't turn_input =
  ti_node :: 't
  ti_node' :: 't
  ti_now_ms :: u32
  ti_write :: bus_fate
  ti_read :: bus_fate

definition faulty_step ::
  "('t \<Rightarrow> 't \<Rightarrow> bus_fate \<Rightarrow> bus_fate \<Rightarrow> 'w two_wire) \<Rightarrow> command_controller \<times> 'w \<Rightarrow> 't turn_input \<Rightarrow>
   (loop_report \<times> command_controller \<times> 'w) option" where
  "faulty_step driver s i = controller_loop (driver (ti_node i) (ti_node' i) (ti_write i) (ti_read i))
     (ti_now_ms i) (fst s) (snd s)"

definition disturbed :: "'t turn_input \<Rightarrow> bool" where
  "disturbed i \<longleftrightarrow> ti_write i \<noteq> Passes \<or> ti_read i \<noteq> Passes"

text \<open>The command that a turn transmits.\<close>

definition sent_frame :: "tx_decision \<Rightarrow> frame set" where
  "sent_frame d = (if td_action d = Tx_send then {td_frame d} else {})"

definition sent_frames :: "loop_report list \<Rightarrow> frame set" where
  "sent_frames reports = (\<Union>r\<in>set reports. sent_frame (lr_decision r))"

text \<open>\<open>B\<close> bounds the attempts that were made for each pending frame.\<close>

definition counted :: "(frame \<Rightarrow> nat) \<Rightarrow> pending_map \<Rightarrow> bool" where
  "counted B m \<longleftrightarrow> (\<forall>k s. m k = Some s \<longrightarrow> unat (sl_attempts s) \<le> B (sl_frame s))"

lemma counted_sub: "counted B m \<Longrightarrow> m' \<subseteq>\<^sub>m m \<Longrightarrow> counted B m'"
  unfolding counted_def map_le_def by (metis domI)

lemma counted_resent:
  assumes "counted B m" and "m k = Some s"
  shows "counted (\<lambda>f. B f + (if f = sl_frame s then 1 else 0)) (m(k \<mapsto> resent p now s))"
proof -
  have "unat (sl_attempts s + 1) \<le> Suc (unat (sl_attempts s))" by (simp add: unat_word_ariths)
  also have "unat (sl_attempts s) \<le> B (sl_frame s)" using assms unfolding counted_def by blast
  finally have "unat (sl_attempts (resent p now s)) \<le> B (sl_frame s) + 1" by (simp add: resent_def)
  moreover have "sl_frame (resent p now s) = sl_frame s" by (simp add: resent_def)
  ultimately show ?thesis
    using assms(1) unfolding counted_def by (simp add: fun_upd_def) (metis le_SucI)
qed

lemma next_due_counted:
  assumes "cc_inv c" and "counted B (q_map (cc_queue c))" and "next_due (cc_queue c) now = (d, q)"
  shows "counted (\<lambda>f. B f + (if f \<in> sent_frame d then 1 else 0)) (q_map q) \<and>
    (td_action d = Tx_exhausted \<longrightarrow> 3 \<le> B (td_frame d))"
proof -
  have st: "queue_step (cc_queue c) (Next_due now) = Some (Decision d, q)" using assms(3) by (simp add: queue_step_def)
  show ?thesis
  proof (rule queue_rel_Next_dueE [OF queue_stepD(1) [OF cc_invD(1) [OF assms(1)] st]])
    assume "Decision d = Decision TxDecision" "q_map q = q_map (cc_queue c)"
    with assms(2) show ?thesis by (simp add: TxDecision_def sent_frame_def)
  next
    fix k s assume "q_map (cc_queue c) k = Some s" "q_map q = (q_map (cc_queue c))(k \<mapsto> resent (effective_policy cc_policy) now s)"
      and "Decision d = Decision \<lparr>td_action = Tx_send, td_frame = sl_frame s, td_attempts = sl_attempts s + 1\<rparr>"
    with counted_resent [OF assms(2)] show ?thesis by (simp add: sent_frame_def)
  next
    fix k s assume s: "q_map (cc_queue c) k = Some s" "sl_attempts s = rp_max_attempts (effective_policy cc_policy)"
      and d: "Decision d = Decision \<lparr>td_action = Tx_exhausted, td_frame = sl_frame s,
        td_attempts = rp_max_attempts (effective_policy cc_policy)\<rparr>"
      and q: "q_map q = (q_map (cc_queue c))(k := None)"
    have "counted B (q_map q)" using counted_sub [OF assms(2)] q by (simp add: map_le_def)
    moreover have "unat (sl_attempts s) \<le> B (sl_frame s)" using assms(2) s(1) unfolding counted_def by blast
    ultimately show ?thesis using s(2) d by (simp add: sent_frame_def effective_policy_def)
  qed
qed

definition acked_in_turn :: "loop_report \<Rightarrow> bool" where
  "acked_in_turn r \<longleftrightarrow> lr_ack r = Some (f_sequence (td_frame (lr_decision r)), ack_accepted, Resolved_accepted)"

lemma receive_keeps_times:
  "receiveAcknowledgement tw c w = Some (ack, c', w') \<Longrightarrow> cc_last_receive_ms c' = cc_last_receive_ms c"
  by (auto simp: receiveAcknowledgement_def Let_def split: if_splits Option.bind_splits option.splits prod.splits)

text \<open>The disturbed turns of a run that transmitted \<open>f\<close>.\<close>

definition lost_sends :: "'t turn_input list \<Rightarrow> loop_report list \<Rightarrow> frame \<Rightarrow> nat" where
  "lost_sends inputs reports f =
     length (filter (\<lambda>(i, r). disturbed i \<and> f \<in> sent_frame (lr_decision r)) (zip inputs reports))"

lemma lost_sends_Cons:
  "lost_sends (i # inputs) (r # reports) f =
     (if disturbed i \<and> f \<in> sent_frame (lr_decision r) then 1 else 0) + lost_sends inputs reports f"
  by (simp add: lost_sends_def)

lemma pending_one:
  assumes "cc_inv c" and "q_map (cc_queue c) k \<noteq> None"
  shows "pending_count (cc_queue c) = 1"
proof -
  have "q_map (cc_queue c) \<noteq> (\<lambda>_. None)" using assms(2) by metis
  with cc_pending_count [OF assms(1)] show ?thesis by linarith
qed

text \<open>An acknowledgement that was reported, and the command that it is for.\<close>

definition backed :: "frame set \<Rightarrow> loop_report \<Rightarrow> bool" where
  "backed R r \<longleftrightarrow> (\<forall>sq st res. lr_ack r = Some (sq, st, res) \<longrightarrow> st = ack_accepted \<and> queued_command sq \<in> R)"

section \<open>The other end of the bus\<close>

text \<open>
  \<open>honest G w\<close>: the node has received, and may yet receive, only commands of \<open>G\<close>, and serves only
  what it may. Sending and receiving keep it, whatever happens to the transfers; a frame that
  the controller takes for an acknowledgement is one of a command that the node has got. A node
  that is honest and \<open>free\<close> (as it is after every read) is ready for an undisturbed turn.
\<close>

locale faulty_partner = command_partner "\<lambda>i. driver (fst i) (snd i) Passes Passes" rx ready got
  for driver :: "'t \<Rightarrow> 't \<Rightarrow> bus_fate \<Rightarrow> bus_fate \<Rightarrow> 'w two_wire"
    and rx :: "'w \<Rightarrow> u8 list" and ready :: "'w \<Rightarrow> bool" and got :: "'w \<Rightarrow> frame set" +
  fixes honest :: "frame set \<Rightarrow> 'w \<Rightarrow> bool"
    and free :: "'w \<Rightarrow> bool"
  assumes fifo_faulty: "fifo_wire (driver t t' fw fr) rx"
    and honest_ready: "honest G w \<Longrightarrow> free w \<Longrightarrow> ready w"
    and honest_got: "honest G w \<Longrightarrow> got w \<subseteq> G"
    and sends: "honest G w \<Longrightarrow>
      \<exists>ok w'. send_frame (wire_send (driver t t' fw fr) kNodeAddress_rcc) w (queued_command sq) = Some (ok, w') \<and>
        honest (insert (queued_command sq) G) w' \<and> got w \<subseteq> got w'"
    and receives: "honest G w \<Longrightarrow>
      receive_frame (wire_receive (driver t t' fw fr) kNodeAddress_rcc) w = Some (r, n, w') \<Longrightarrow>
      honest G w' \<and> free w' \<and> got w \<subseteq> got w' \<and>
      (\<forall>sq st. decode_ok r \<and> f_type (dr_frame r) = acknowledgement \<and> parse_ack_frame (dr_frame r) = Some (Some (sq, st)) \<longrightarrow>
        st = ack_accepted \<and> queued_command sq \<in> got w')"
    and read_fails: "receive_frame (wire_receive (driver t t' fw Fails) kNodeAddress_rcc) w = Some (r, n, w') \<Longrightarrow> \<not> decode_ok r"
begin

lemma faulty_transmit:
  assumes "cc_inv c" and "honest G w"
    and "transmitDue (driver t t' fw fr) now c w = Some (d, sent, c', w')"
  shows "cc_inv c' \<and> honest (G \<union> sent_frame d) w' \<and> got w \<subseteq> got w' \<and>
    next_due (cc_queue c) now = (d, cc_queue c') \<and> c' = c\<lparr>cc_queue := cc_queue c'\<rparr>"
proof -
  obtain q where d: "next_due (cc_queue c) now = (d, q)"
    using assms(3) by (cases "next_due (cc_queue c) now")
      (auto simp: transmitDue_def Let_def split: if_splits Option.bind_splits)
  note eff = next_due_effect [OF assms(1) d]
  show ?thesis
  proof (cases "td_action d = Tx_send")
    case True
    then have "td_frame d = queued_command (cc_sequence c - 1)" using eff(2) by simp
    with assms(3) d True eff(1) sends [OF assms(2), of t t' fw fr "cc_sequence c - 1"] show ?thesis
      by (auto simp: transmitDue_def sent_frame_def)
  next
    case False
    with assms(2,3) d eff(1) show ?thesis by (cases "td_action d") (auto simp: transmitDue_def sent_frame_def)
  qed
qed

lemma faulty_acknowledge:
  assumes "cc_inv c" and "honest G w"
    and "receiveAcknowledgement (driver t t' fw fr) c w = Some (ack, c', w')"
  shows "cc_inv c' \<and> honest G w' \<and> free w' \<and>
    got w \<subseteq> got w' \<and> q_map (cc_queue c') \<subseteq>\<^sub>m q_map (cc_queue c) \<and>
    (\<forall>sq st res. ack = Some (sq, st, res) \<longrightarrow> st = ack_accepted \<and> queued_command sq \<in> got w')"
proof -
  obtain r n w1 where r: "receive_frame (wire_receive (driver t t' fw fr) kNodeAddress_rcc) w = Some (r, n, w1)"
    using assms(3) by (auto simp: receiveAcknowledgement_def split: Option.bind_splits)
  note node = receives [OF assms(2) r]
  show ?thesis
  proof (cases "ack = None")
    case True
    with assms(1,3) r have "c' = c" "w' = w1"
      by (auto simp: receiveAcknowledgement_def Let_def split: if_splits Option.bind_splits option.splits prod.splits)
    with True assms(1) node show ?thesis by simp
  next
    case False
    with assms(3) r obtain sq st res q where a: "decode_ok r" "f_type (dr_frame r) = acknowledgement"
      "parse_ack_frame (dr_frame r) = Some (Some (sq, st))" "w' = w1" "ack = Some (sq, st, res)"
      "acknowledge (cc_queue c) (f_node_id (dr_frame r)) sq st = (res, q)" "c' = c\<lparr>cc_queue := q\<rparr>"
      by (auto simp: receiveAcknowledgement_def Let_def split: if_splits Option.bind_splits option.splits prod.splits)
    note eff = acknowledge_effect [OF assms(1) a(6)]
    have "q_map q \<subseteq>\<^sub>m q_map (cc_queue c)" unfolding eff(2) by (auto simp: map_le_def)
    with a eff(1) node show ?thesis by auto
  qed
qed

lemma faulty_turn:
  assumes "cc_inv c" and "honest G w"
  shows "\<exists>r c' w'. faulty_step driver (c, w) i = Some (r, c', w') \<and> cc_inv c' \<and> honest (G \<union> sent_frame (lr_decision r)) w' \<and> backed (got w') r \<and>
    got w \<subseteq> got w' \<and> turn_ok r c'"
proof -
  let ?tw = "driver (ti_node i) (ti_node' i) (ti_write i) (ti_read i)" and ?now = "ti_now_ms i"
  obtain r c' w' where loop: "controller_loop ?tw ?now c w = Some (r, c', w')" "cc_inv c'" "turn_ok r c'"
    using controller_loop_ok [OF fifo_faulty assms(1)] by blast
  obtain queued c1 where c1: "(if pending_count (cc_queue c) = 0 \<and> ?now - cc_last_command_ms c \<ge> kCommandIntervalMs
        then do { (r, c) \<leftarrow> enqueueCommand ?now (c\<lparr>cc_last_command_ms := ?now\<rparr>); Some (Some r, c) }
        else Some (None, c)) = Some (queued, c1)" "cc_inv c1"
    by (rule enqueue_turn [OF assms(1)])
  obtain d sent c2 w2 where t: "transmitDue ?tw ?now c1 w = Some (d, sent, c2, w2)"
    using transmitDue_effect [OF fifo_faulty c1(2)] by metis
  note tx = faulty_transmit [OF c1(2) assms(2) t]
  have i3: "cc_inv (c2\<lparr>cc_last_receive_ms := ?now\<rparr>)" using tx by simp
  have "honest (G \<union> sent_frame (lr_decision r)) w' \<and> backed (got w') r \<and> got w \<subseteq> got w'"
  proof (cases "?now - cc_last_receive_ms c2 \<ge> kReceivePollMs")
    case True
    obtain ack c3 w3 where a: "receiveAcknowledgement ?tw (c2\<lparr>cc_last_receive_ms := ?now\<rparr>) w2 = Some (ack, c3, w3)"
      using receiveAcknowledgement_effect [OF fifo_faulty i3] by metis
    have "r = \<lparr>lr_queued = queued, lr_decision = d, lr_sent = sent, lr_ack = ack\<rparr>" "w' = w3"
      using loop(1) True unfolding controller_loop_def c1(1) by (simp_all add: t a)
    moreover have "honest (G \<union> sent_frame d) w2" using tx by blast
    note faulty_acknowledge [OF i3 this a]
    ultimately show ?thesis using tx unfolding backed_def by (simp, blast)
  next
    case False
    then have "r = \<lparr>lr_queued = queued, lr_decision = d, lr_sent = sent, lr_ack = None\<rparr>" "w' = w2"
      using loop(1) unfolding controller_loop_def c1(1) by (simp_all add: t)
    with tx show ?thesis by (simp add: backed_def)
  qed
  with loop show ?thesis by (auto simp: faulty_step_def)
qed

lemma faulty_runs:
  "cc_inv c \<Longrightarrow> honest G w \<Longrightarrow>
   \<exists>reports c' w'. run (faulty_step driver) (c, w) inputs = Some (reports, c', w') \<and> cc_inv c' \<and>
     honest (G \<union> sent_frames reports) w' \<and> (\<forall>r\<in>set reports. backed (got w') r) \<and> got w \<subseteq> got w'"
proof (induction inputs arbitrary: c G w)
  case Nil
  then show ?case by (simp add: sent_frames_def)
next
  case (Cons i inputs)
  obtain r c1 w1 where 1: "faulty_step driver (c, w) i = Some (r, c1, w1)" "cc_inv c1"
    "honest (G \<union> sent_frame (lr_decision r)) w1" "backed (got w1) r" "got w \<subseteq> got w1"
    using faulty_turn [OF Cons.prems, of i] by blast
  obtain reports c2 w2 where 2: "run (faulty_step driver) (c1, w1) inputs = Some (reports, c2, w2)" "cc_inv c2"
    "honest (G \<union> sent_frame (lr_decision r) \<union> sent_frames reports) w2" "\<forall>r\<in>set reports. backed (got w2) r"
    "got w1 \<subseteq> got w2"
    using Cons.IH [OF 1(2,3)] by blast
  have "G \<union> sent_frame (lr_decision r) \<union> sent_frames reports = G \<union> sent_frames (r # reports)"
    by (auto simp: sent_frames_def)
  with 1 2 have "honest (G \<union> sent_frames (r # reports)) w2" "\<forall>r\<in>set (r # reports). backed (got w2) r"
    by (auto simp: backed_def)
  with 1 2 show ?case by (intro exI [of _ "r # reports"] exI [of _ c2] exI [of _ w2]) auto
qed

text \<open>One turn of a paced run.\<close>

lemma paced_turnE:
  assumes inv: "cc_inv c" "honest G w" and poll: "ti_now_ms i - cc_last_receive_ms c \<ge> kReceivePollMs"
    and step: "faulty_step driver (c, w) i = Some (r, c', w')"
    and tw: "tw = driver (ti_node i) (ti_node' i) (ti_write i) (ti_read i)"
  obtains c1 c2 w2 where "cc_inv c1" "cc_last_receive_ms c1 = cc_last_receive_ms c"
    "c1 = c \<or> (\<exists>k f. q_map (cc_queue c1) =
       [k \<mapsto> \<lparr>sl_frame = f, sl_deadline_ms = ti_now_ms i, sl_attempts = 0, sl_active = True\<rparr>])"
    "pending_count (cc_queue c) \<noteq> 0 \<longrightarrow> c1 = c"
    "transmitDue tw (ti_now_ms i) c1 w = Some (lr_decision r, lr_sent r, c2, w2)"
    "receiveAcknowledgement tw (c2\<lparr>cc_last_receive_ms := ti_now_ms i\<rparr>) w2 = Some (lr_ack r, c', w')"
proof -
  let ?now = "ti_now_ms i"
  have loop: "controller_loop tw ?now c w = Some (r, c', w')" using step tw by (simp add: faulty_step_def)
  obtain queued c1 where c1: "(if pending_count (cc_queue c) = 0 \<and> ?now - cc_last_command_ms c \<ge> kCommandIntervalMs
        then do { (r, c) \<leftarrow> enqueueCommand ?now (c\<lparr>cc_last_command_ms := ?now\<rparr>); Some (Some r, c) }
        else Some (None, c)) = Some (queued, c1)" "cc_inv c1" "cc_last_receive_ms c1 = cc_last_receive_ms c"
    "queued = None \<longrightarrow> c1 = c" "queued \<noteq> None \<longrightarrow> (\<exists>k f. q_map (cc_queue c1) =
       [k \<mapsto> \<lparr>sl_frame = f, sl_deadline_ms = ?now, sl_attempts = 0, sl_active = True\<rparr>])"
    by (rule enqueue_turn [OF inv(1)])
  obtain d sent c2 w2 where t: "transmitDue tw ?now c1 w = Some (d, sent, c2, w2)"
    using transmitDue_effect [OF fifo_faulty c1(2)] unfolding tw by metis
  note tx = faulty_transmit [OF c1(2) inv(2) t [unfolded tw]]
  have "cc_last_receive_ms c2 = cc_last_receive_ms c" using tx c1(3)
    by (metis command_controller.select_convs(4) command_controller.surjective command_controller.update_convs(1))
  moreover have "cc_inv (c2\<lparr>cc_last_receive_ms := ?now\<rparr>)" using tx by simp
  then obtain ack c3 w3 where a: "receiveAcknowledgement tw (c2\<lparr>cc_last_receive_ms := ?now\<rparr>) w2 = Some (ack, c3, w3)"
    using receiveAcknowledgement_effect [OF fifo_faulty] unfolding tw by metis
  ultimately have r: "lr_decision r = d" "lr_sent r = sent" "lr_ack r = ack" "c' = c3" "w' = w3"
    using loop poll unfolding controller_loop_def c1(1) by (auto simp: t a)
  show thesis
  proof (rule that [OF c1(2,3)])
    show "c1 = c \<or> (\<exists>k f. q_map (cc_queue c1) =
        [k \<mapsto> \<lparr>sl_frame = f, sl_deadline_ms = ?now, sl_attempts = 0, sl_active = True\<rparr>])" using c1(4,5) by blast
    show "pending_count (cc_queue c) \<noteq> 0 \<longrightarrow> c1 = c" using c1(1) by (cases "pending_count (cc_queue c) = 0") auto
    show "transmitDue tw ?now c1 w = Some (lr_decision r, lr_sent r, c2, w2)" using t r by simp
    show "receiveAcknowledgement tw (c2\<lparr>cc_last_receive_ms := ?now\<rparr>) w2 = Some (lr_ack r, c', w')" using a r by simp
  qed
qed

lemma counted_turn:
  assumes inv: "cc_inv c" "honest G w" "free w" and B: "counted B (q_map (cc_queue c))"
    and poll: "ti_now_ms i - cc_last_receive_ms c \<ge> kReceivePollMs"
    and step: "faulty_step driver (c, w) i = Some (r, c', w')"
  shows "counted (\<lambda>f. B f + (if disturbed i \<and> f \<in> sent_frame (lr_decision r) then 1 else 0)) (q_map (cc_queue c'))"
    and "td_action (lr_decision r) = Tx_exhausted \<Longrightarrow> 3 \<le> B (td_frame (lr_decision r))"
    and "td_action (lr_decision r) = Tx_send \<Longrightarrow> \<not> disturbed i \<Longrightarrow> acked_in_turn r"
    and "cc_last_receive_ms c' = ti_now_ms i" and "free w'"
proof -
  obtain c1 c2 w2 where c1: "cc_inv c1" "c1 = c \<or> (\<exists>k f. q_map (cc_queue c1) =
       [k \<mapsto> \<lparr>sl_frame = f, sl_deadline_ms = ti_now_ms i, sl_attempts = 0, sl_active = True\<rparr>])"
    and t: "transmitDue (driver (ti_node i) (ti_node' i) (ti_write i) (ti_read i)) (ti_now_ms i) c1 w =
      Some (lr_decision r, lr_sent r, c2, w2)"
    and a: "receiveAcknowledgement (driver (ti_node i) (ti_node' i) (ti_write i) (ti_read i))
      (c2\<lparr>cc_last_receive_ms := ti_now_ms i\<rparr>) w2 = Some (lr_ack r, c', w')"
    by (rule paced_turnE [OF inv(1,2) poll step refl])
  have B1: "counted B (q_map (cc_queue c1))" using c1(2) B by (auto simp: counted_def split: if_splits)
  note tx = faulty_transmit [OF c1(1) inv(2) t]
  have i3: "cc_inv (c2\<lparr>cc_last_receive_ms := ti_now_ms i\<rparr>)" and h2: "honest (G \<union> sent_frame (lr_decision r)) w2"
    and q: "next_due (cc_queue c1) (ti_now_ms i) = (lr_decision r, cc_queue c2)"
    using tx by simp_all
  note ak = faulty_acknowledge [OF i3 h2 a]
  note nd = next_due_counted [OF c1(1) B1 q]
  show "free w'" using ak by simp
  show "3 \<le> B (td_frame (lr_decision r))" if "td_action (lr_decision r) = Tx_exhausted" using that nd by simp
  show "cc_last_receive_ms c' = ti_now_ms i" using receive_keeps_times [OF a] by simp
  have settled: "acked_in_turn r \<and> pending_count (cc_queue c') = 0" if "td_action (lr_decision r) = Tx_send" "\<not> disturbed i"
  proof -
    have "controller_loop (driver (ti_node i) (ti_node' i) Passes Passes) (ti_now_ms i) c w = Some (r, c', w')"
      using step that(2) by (simp add: faulty_step_def disturbed_def)
    with answered_turn [OF inv(1) honest_ready [OF inv(2,3)] _ that(1) poll, where i = "(ti_node i, ti_node' i)"]
    show ?thesis by (simp add: acked_in_turn_def)
  qed
  then show "acked_in_turn r" if "td_action (lr_decision r) = Tx_send" "\<not> disturbed i" using that by blast
  show "counted (\<lambda>f. B f + (if disturbed i \<and> f \<in> sent_frame (lr_decision r) then 1 else 0)) (q_map (cc_queue c'))"
  proof (cases "td_action (lr_decision r) = Tx_send \<and> \<not> disturbed i")
    case True
    have "cc_inv c'" using ak by blast
    from cc_pending_count(2) [OF this] settled True show ?thesis by (simp add: counted_def)
  next
    case False
    then have "counted (\<lambda>f. B f + (if disturbed i \<and> f \<in> sent_frame (lr_decision r) then 1 else 0)) (q_map (cc_queue c2))"
      using nd by (cases "disturbed i") (auto simp: sent_frame_def)
    with counted_sub ak show ?thesis by auto
  qed
qed

lemma survival_runs:
  "cc_inv c \<Longrightarrow> honest G w \<Longrightarrow> free w \<Longrightarrow> counted B (q_map (cc_queue c)) \<Longrightarrow>
   paced (cc_last_receive_ms c) (map ti_now_ms inputs) \<Longrightarrow> run (faulty_step driver) (c, w) inputs = Some (reports, c', w') \<Longrightarrow>
   j < length reports \<Longrightarrow>
   (td_action (lr_decision (reports ! j)) = Tx_exhausted \<longrightarrow> 3 \<le> B (td_frame (lr_decision (reports ! j))) +
      lost_sends (take j inputs) (take j reports) (td_frame (lr_decision (reports ! j)))) \<and>
   (td_action (lr_decision (reports ! j)) = Tx_send \<longrightarrow> disturbed (inputs ! j) \<or> acked_in_turn (reports ! j))"
proof (induction inputs arbitrary: c G w B reports j)
  case Nil
  then show ?case by simp
next
  case (Cons i inputs)
  obtain r c1 w1 where s: "faulty_step driver (c, w) i = Some (r, c1, w1)" "cc_inv c1" "honest (G \<union> sent_frame (lr_decision r)) w1"
    using faulty_turn [OF Cons.prems(1,2), of i] by blast
  have poll: "ti_now_ms i - cc_last_receive_ms c \<ge> kReceivePollMs" "paced (ti_now_ms i) (map ti_now_ms inputs)"
    using Cons.prems(5) by simp_all
  note turn = counted_turn [OF Cons.prems(1-4) poll(1) s(1)]
  obtain rs where rs: "run (faulty_step driver) (c1, w1) inputs = Some (rs, c', w')" "reports = r # rs"
    using Cons.prems(6) s(1) by (auto split: Option.bind_splits)
  show ?case
  proof (cases j)
    case 0
    with turn(2,3) rs(2) show ?thesis by (auto simp: lost_sends_def)
  next
    case (Suc j')
    with Cons.IH [OF s(2,3) turn(5,1) _ rs(1), of j'] turn(4) poll(2) rs(2) Cons.prems(7) show ?thesis
      by (simp add: lost_sends_Cons add.assoc)
  qed
qed

lemma paced_runs:
  "cc_inv c \<Longrightarrow> honest G w \<Longrightarrow> free w \<Longrightarrow> paced (cc_last_receive_ms c) (map ti_now_ms (inputs @ later)) \<Longrightarrow>
   run (faulty_step driver) (c, w) inputs = Some (reports, c', w') \<Longrightarrow>
   \<exists>G'. cc_inv c' \<and> honest G' w' \<and> free w' \<and> paced (cc_last_receive_ms c') (map ti_now_ms later)"
proof (induction inputs arbitrary: c G w reports)
  case Nil
  then show ?case by auto
next
  case (Cons i inputs)
  obtain r c1 w1 where s: "faulty_step driver (c, w) i = Some (r, c1, w1)" "cc_inv c1" "honest (G \<union> sent_frame (lr_decision r)) w1"
    using faulty_turn [OF Cons.prems(1,2), of i] by blast
  have poll: "ti_now_ms i - cc_last_receive_ms c \<ge> kReceivePollMs" "paced (ti_now_ms i) (map ti_now_ms (inputs @ later))"
    using Cons.prems(4) by simp_all
  have "unat (a :: u8) \<le> 255" for a by simp
  then have "counted (\<lambda>_. 255) (q_map (cc_queue c))" by (simp add: counted_def)
  note turn = counted_turn(4,5) [OF Cons.prems(1-3) this poll(1) s(1)]
  obtain rs where "run (faulty_step driver) (c1, w1) inputs = Some (rs, c', w')"
    using Cons.prems(5) s(1) by (auto split: Option.bind_splits)
  from Cons.IH [OF s(2,3) turn(2) _ this] turn(1) poll(2) show ?case by simp
qed

text \<open>A turn with a command pending, for examples.\<close>

lemma pending_turn:
  assumes inv: "cc_inv c" "honest G w" and poll: "ti_now_ms i - cc_last_receive_ms c \<ge> kReceivePollMs"
    and step: "faulty_step driver (c, w) i = Some (r, c', w')" and pend: "pending_count (cc_queue c) \<noteq> 0"
  shows "lr_decision r = fst (next_due (cc_queue c) (ti_now_ms i)) \<and>
    (ti_read i = Fails \<longrightarrow> cc_queue c' = snd (next_due (cc_queue c) (ti_now_ms i)))"
proof -
  let ?tw = "driver (ti_node i) (ti_node' i) (ti_write i) (ti_read i)"
  obtain c1 c2 w2 where c1: "cc_inv c1" "pending_count (cc_queue c) \<noteq> 0 \<longrightarrow> c1 = c"
    and t: "transmitDue ?tw (ti_now_ms i) c1 w = Some (lr_decision r, lr_sent r, c2, w2)"
    and a: "receiveAcknowledgement ?tw (c2\<lparr>cc_last_receive_ms := ti_now_ms i\<rparr>) w2 = Some (lr_ack r, c', w')"
    by (rule paced_turnE [OF inv poll step refl])
  note tx = faulty_transmit [OF c1(1) inv(2) t]
  have "c' = c2\<lparr>cc_last_receive_ms := ti_now_ms i\<rparr>" if "ti_read i = Fails"
    using a that by (auto simp: receiveAcknowledgement_def dest: read_fails split: Option.bind_splits)
  with tx c1(2) pend show ?thesis by auto
qed

text \<open>Runs from \<open>setup\<close> on.\<close>

lemma never_lies:
  assumes "controller_setup t0 = Some (r0, c0)" and "honest {} w0"
  shows "\<exists>reports c w. run (faulty_step driver) (c0, w0) inputs = Some (reports, c, w) \<and>
    (\<forall>r\<in>set reports. \<forall>sq st res. lr_ack r = Some (sq, st, res) \<longrightarrow> st = ack_accepted \<and> queued_command sq \<in> got w) \<and>
    (\<forall>g\<in>got w. \<exists>r\<in>set reports. td_action (lr_decision r) = Tx_send \<and> td_frame (lr_decision r) = g)"
proof -
  have "cc_inv c0" using controller_setup_ok [of t0] assms(1) by auto
  from faulty_runs [OF this assms(2), of inputs] obtain reports c w where
    r: "run (faulty_step driver) (c0, w0) inputs = Some (reports, c, w)" "honest (sent_frames reports) w"
    "\<forall>r\<in>set reports. backed (got w) r" by auto
  have "\<exists>r\<in>set reports. td_action (lr_decision r) = Tx_send \<and> td_frame (lr_decision r) = g" if "g \<in> got w" for g
    using that honest_got [OF r(2)] by (auto simp: sent_frames_def sent_frame_def split: if_splits)
  with r(1,3) show ?thesis unfolding backed_def by blast
qed

lemma survived:
  assumes "controller_setup t0 = Some (r0, c0)" and "honest {} w0" and "free w0"
    and "run (faulty_step driver) (c0, w0) inputs = Some (reports, c, w)" and "paced 0 (map ti_now_ms inputs)"
    and "j < length reports" and "d = lr_decision (reports ! j)"
  shows "(td_action d = Tx_send \<and> \<not> disturbed (inputs ! j) \<longrightarrow>
      lr_ack (reports ! j) = Some (f_sequence (td_frame d), ack_accepted, Resolved_accepted)) \<and>
    (td_action d = Tx_exhausted \<longrightarrow> 3 \<le> lost_sends (take j inputs) (take j reports) (td_frame d))"
proof -
  have c0: "cc_inv c0" "cc_last_receive_ms c0 = 0" "q_map (cc_queue c0) =
      [(0, 0) \<mapsto> \<lparr>sl_frame = queued_command 0, sl_deadline_ms = t0, sl_attempts = 0, sl_active = True\<rparr>]"
    using controller_setup_ok [of t0] assms(1) by auto
  have B: "counted (\<lambda>_. 0) (q_map (cc_queue c0))" unfolding c0(3) by (simp add: counted_def)
  from survival_runs [OF c0(1) assms(2,3) B _ assms(4,6)] assms(5,7) c0(2)
  show ?thesis by (auto simp: acked_in_turn_def)
qed

end

end
