(* ===== verification/Faulty_Bus.thy ===== *)
theory Faulty_Bus
  imports Pico_Bus Faulty_System
begin

text \<open>
  The controller sketch and the Pico node program on a bus with faults; without faults it is the
  bus of \<open>Pico_Bus\<close>. The node at its end is a \<open>faulty_partner\<close>.
\<close>

section \<open>The bus\<close>

text \<open>
  A write that fails is not acknowledged by the node: \<open>endTransmission\<close> returns 2. A read that
  fails returns no bytes; the node's main loop takes its turn all the same.
\<close>

definition faulty_driver :: "u64 \<Rightarrow> u64 \<Rightarrow> bus_fate \<Rightarrow> bus_fate \<Rightarrow> pico_bus two_wire" where
  "faulty_driver t t' fw fr =
     \<lparr>tw_beginTransmission = (\<lambda>a w. w),
      tw_write = (\<lambda>bs w. (length bs, if fw = Fails then w else snd (at_node (write_irqs (arrive fw bs)) w))),
      tw_endTransmission = (\<lambda>w. (if fw = Fails then 2 else 0, w)),
      tw_requestFrom = (\<lambda>a n w. let (outs, w) = at_node (Turn t t' # (if fr = Fails then [] else read_irqs (unat n))) w;
                                    rx = arrive fr (take (unat n) (concat (map app_served outs)))
                                in (length rx, w\<lparr>pb_rx := rx\<rparr>)),
      tw_available = (\<lambda>w. int (length (pb_rx w))),
      tw_read = (\<lambda>w. case pb_rx w of [] \<Rightarrow> (-1, w) | b # r \<Rightarrow> (int (unat b), w\<lparr>pb_rx := r\<rparr>))\<rparr>"

lemma faulty_driver_passes: "faulty_driver t t' Passes Passes = bus_driver t t'"
  by (simp add: faulty_driver_def bus_driver_def)

lemma fifo_faulty_driver: "fifo_wire (faulty_driver t t' fw fr) pb_rx"
proof -
  have "length (arrive fr (take (unat n) bs)) \<le> unat (n :: u8)" for n bs
    by (rule order_trans [OF arrive_length]) simp
  then show ?thesis by (auto simp: fifo_wire_def faulty_driver_def split_beta Let_def)
qed

section \<open>What the node has to say\<close>

definition heartbeat_due :: "u64 \<Rightarrow> node_app \<Rightarrow> bool" where
  "heartbeat_due t a \<longleftrightarrow> t div 1000 - na_last_heartbeat_ms a \<ge> 1000"

definition quiet :: "node_app \<Rightarrow> bool" where
  "quiet a \<longleftrightarrow> na_inv a \<and> mb_collecting (mailbox_of (na_endpoint a)) = [] \<and> ep_tx_index (na_endpoint a) = 0"

lemma node_loop_body_outgoing:
  assumes "quiet a"
  shows "\<exists>a' s. node_loop_body t t' a = Some (incoming_frame (mb_pending (mailbox_of (na_endpoint a))), a') \<and> quiet a' \<and>
    mb_pending (mailbox_of (na_endpoint a')) = None \<and>
    mb_outgoing (mailbox_of (na_endpoint a')) = (if wants_ack (incoming_frame (mb_pending (mailbox_of (na_endpoint a))))
      then wire_image (the (make_ack_frame kNodeId s
        (f_sequence (the (incoming_frame (mb_pending (mailbox_of (na_endpoint a)))))) ack_accepted))
      else if heartbeat_due t a then wire_image (the (heartbeat_frame kNodeId (na_sequence a) (ucast (t' div 1000))))
      else mb_outgoing (mailbox_of (na_endpoint a))) \<and>
    na_last_heartbeat_ms a' = (if heartbeat_due t a then t div 1000 else na_last_heartbeat_ms a)"
proof -
  have "ep_inv (na_endpoint a) \<and> mb_collecting (mailbox_of (na_endpoint a)) = []" "ep_tx_index (na_endpoint a) = 0"
    using assms by (simp_all add: quiet_def na_inv_def)
  from pico.node_turn_outgoing [OF this, where n = kNodeId and hb = "heartbeat_due t a" and
      t = "ucast (t' div 1000)" and s = "na_sequence a"]
  show ?thesis by (auto simp: node_loop_body_def Let_def quiet_def na_inv_def heartbeat_due_def)
qed

text \<open>Runs of interrupts receive nothing; only turns of the loop do.\<close>

fun is_turn :: "app_event \<Rightarrow> bool" where
  "is_turn (Turn t t') = True"
| "is_turn (Interrupt st d) = False"

lemma interrupts_receive_nothing:
  "run (app_step k) a evs = Some (outs, b) \<Longrightarrow> \<forall>ev\<in>set evs. \<not> is_turn ev \<Longrightarrow> Received f \<notin> set outs"
proof (induction evs arbitrary: a outs)
  case Nil
  then show ?case by simp
next
  case (Cons ev evs)
  then obtain st d where "ev = Interrupt st d" by (cases ev) simp_all
  with Cons show ?case by (auto split: Option.bind_splits)
qed

lemma bus_irqs_no_turn: "\<forall>ev\<in>set (write_irqs bs). \<not> is_turn ev" "\<forall>ev\<in>set (read_irqs n). \<not> is_turn ev"
  by (auto simp: write_irqs_def read_irqs_def)

abbreviation frames_in :: "app_output list \<Rightarrow> frame set" where
  "frames_in log \<equiv> {f. Received (Some f) \<in> set log}"

text \<open>The node has received, and may yet receive, only commands of the set \<open>G\<close>.\<close>

definition pico_honest :: "frame set \<Rightarrow> pico_bus \<Rightarrow> bool" where
  "pico_honest G w \<longleftrightarrow> quiet (pb_node w) \<and> G \<subseteq> range queued_command \<and>
     (\<forall>g. incoming_frame (mb_pending (mailbox_of (na_endpoint (pb_node w)))) = Some g \<longrightarrow> g \<in> G) \<and>
     frames_in (pb_log w) \<subseteq> G \<and>
     (\<exists>f. mb_outgoing (mailbox_of (na_endpoint (pb_node w))) = wire_image f \<and> truthful kNodeId (frames_in (pb_log w)) f)"

definition pico_free :: "pico_bus \<Rightarrow> bool" where
  "pico_free w \<longleftrightarrow> mb_pending (mailbox_of (na_endpoint (pb_node w))) = None"

lemma at_node_run:
  "run (app_step rp2040_masks) (pb_node w) evs = Some (outs, a) \<Longrightarrow>
   at_node evs w = (outs, w\<lparr>pb_node := a, pb_log := pb_log w @ outs\<rparr>)"
  by (simp add: at_node_def)

text \<open>A write of at most 40 bytes is received as a whole, or dropped when one is waiting.\<close>

lemma run_write_any:
  assumes "quiet a" and "length bs \<le> 40"
  shows "\<exists>outs b. run (app_step rp2040_masks) a (write_irqs bs) = Some (outs, b) \<and> quiet b \<and>
    mb_outgoing (mailbox_of (na_endpoint b)) = mb_outgoing (mailbox_of (na_endpoint a)) \<and>
    mb_pending (mailbox_of (na_endpoint b)) = (if bs = [] \<or> mb_pending (mailbox_of (na_endpoint a)) \<noteq> None
      then mb_pending (mailbox_of (na_endpoint a)) else Some bs)"
proof -
  let ?m = "mailbox_of (na_endpoint a)"
  have q: "na_inv a" "mb_collecting ?m = []" using assms(1) by (simp_all add: quiet_def)
  obtain outs1 a1 where a1: "run (app_step rp2040_masks) a (map (\<lambda>b. Interrupt 0x004 (ucast b)) bs) = Some (outs1, a1)"
    "na_inv a1" "mailbox_of (na_endpoint a1) = ?m\<lparr>mb_collecting := bs\<rparr>"
    using run_written [OF q(1), of bs] q(2) assms(2) by auto
  obtain b where b: "app_step rp2040_masks a1 (Interrupt 0x200 0) =
      Some (Handled [Read_raw_intr_stat, Read_clr_stop_det], b)" "na_inv b"
    "mailbox_of (na_endpoint b) = mb_stop (mailbox_of (na_endpoint a1))" "ep_tx_index (na_endpoint b) = 0"
    by (rule stop_step [OF a1(2)])
  have "run (app_step rp2040_masks) a (write_irqs bs) =
      Some (outs1 @ [Handled [Read_raw_intr_stat, Read_clr_stop_det]], b)"
    using a1(1) b(1) by (simp add: write_irqs_def run_append del: app_step.simps)
  with b(2,4) show ?thesis
    by (auto simp: quiet_def b(3) a1(3) mb_stop_def)
qed

lemma honest_write:
  assumes "pico_honest G w" and "incoming_frame (Some bs) = None \<or> (\<exists>g\<in>G. incoming_frame (Some bs) = Some g)"
    and "length bs \<le> 40"
  shows "pico_honest G (snd (at_node (write_irqs bs) w)) \<and> set (pb_log w) \<subseteq> set (pb_log (snd (at_node (write_irqs bs) w)))"
proof -
  obtain outs b where b: "run (app_step rp2040_masks) (pb_node w) (write_irqs bs) = Some (outs, b)" "quiet b"
    "mb_outgoing (mailbox_of (na_endpoint b)) = mb_outgoing (mailbox_of (na_endpoint (pb_node w)))"
    "mb_pending (mailbox_of (na_endpoint b)) = (if bs = [] \<or> mb_pending (mailbox_of (na_endpoint (pb_node w))) \<noteq> None
      then mb_pending (mailbox_of (na_endpoint (pb_node w))) else Some bs)"
    using run_write_any [of "pb_node w" bs] assms(1,3) by (auto simp: pico_honest_def)
  obtain f where f: "mb_outgoing (mailbox_of (na_endpoint (pb_node w))) = wire_image f" "truthful kNodeId (frames_in (pb_log w)) f"
    using assms(1) by (auto simp: pico_honest_def)
  have "truthful kNodeId (frames_in (pb_log w @ outs)) f" by (rule truthful_more [OF f(2)]) auto
  moreover have "g \<in> G" if "incoming_frame (mb_pending (mailbox_of (na_endpoint b))) = Some g" for g
    using that assms(1,2) b(4) by (auto simp: pico_honest_def split: if_splits)
  moreover have "Received (Some g) \<notin> set outs" for g
    by (rule interrupts_receive_nothing [OF b(1) bus_irqs_no_turn(1)])
  ultimately show ?thesis using assms(1) b(2,3) f(1) by (auto simp: at_node_run [OF b(1)] pico_honest_def)
qed

lemma interrupts_keep_outgoing:
  "run (app_step k) a evs = Some (outs, b) \<Longrightarrow> na_inv a \<Longrightarrow> \<forall>ev\<in>set evs. \<not> is_turn ev \<Longrightarrow>
   mb_outgoing (mailbox_of (na_endpoint b)) = mb_outgoing (mailbox_of (na_endpoint a))"
proof (induction evs arbitrary: a outs)
  case Nil
  then show ?case by simp
next
  case (Cons ev evs)
  then obtain st d where ev: "ev = Interrupt st d" by (cases ev) simp_all
  obtain a' where a': "app_step k a (Interrupt st d) = Some (Handled (fst (mb_irq k st d (mailbox_of (na_endpoint a)))), a')"
    "na_inv a'" "mailbox_of (na_endpoint a') = snd (mb_irq k st d (mailbox_of (na_endpoint a)))"
    by (rule irq_step [OF Cons.prems(2), of k st d])
  from Cons.prems(1) obtain outs' where "run (app_step k) a' evs = Some (outs', b)"
    unfolding ev by (simp only: run.simps a'(1)) (auto split: Option.bind_splits)
  from Cons.IH [OF this a'(2)] Cons.prems(3) a'(3) show ?case by simp
qed

lemma interrupts_keep_heartbeat:
  "run (app_step k) a evs = Some (outs, b) \<Longrightarrow> \<forall>ev\<in>set evs. \<not> is_turn ev \<Longrightarrow>
   na_last_heartbeat_ms b = na_last_heartbeat_ms a"
proof (induction evs arbitrary: a outs)
  case Nil
  then show ?case by simp
next
  case (Cons ev evs)
  then obtain st d where "ev = Interrupt st d" by (cases ev) simp_all
  with Cons show ?case by (auto split: Option.bind_splits)
qed

text \<open>A read of 40 bytes, or none when it fails.\<close>

definition read_of :: "bus_fate \<Rightarrow> app_event list" where
  "read_of fr = (if fr = Fails then [] else read_irqs 40)"

lemma run_read_any:
  assumes "quiet a" and "mb_outgoing (mailbox_of (na_endpoint a)) = wire_image f" and "frame_wf f"
  shows "\<exists>outs b. run (app_step rp2040_masks) a (read_of fr) = Some (outs, b) \<and> quiet b \<and>
    mb_pending (mailbox_of (na_endpoint b)) = mb_pending (mailbox_of (na_endpoint a)) \<and>
    mb_outgoing (mailbox_of (na_endpoint b)) = wire_image f \<and> na_last_heartbeat_ms b = na_last_heartbeat_ms a \<and>
    arrive fr (take 40 (concat (map app_served outs))) =
      arrive fr (wire_image f @ replicate (40 - length (wire_image f)) 0)"
proof (cases "fr = Fails")
  case True
  with assms show ?thesis by (simp add: read_of_def)
next
  case False
  let ?m = "mailbox_of (na_endpoint a)"
  have q: "na_inv a" "mb_collecting ?m = []" "mb_sent ?m = 0"
    using assms(1) by (simp_all add: quiet_def mailbox_of_def)
  obtain outs b where b: "run (app_step rp2040_masks) a (read_irqs 40) = Some (outs, b)" "na_inv b"
    "ep_tx_index (na_endpoint b) = 0" "mb_collecting (mailbox_of (na_endpoint b)) = []"
    "mb_pending (mailbox_of (na_endpoint b)) = mb_pending ?m"
    "concat (map app_served outs) = response (wire_image f) 0 40"
    using run_read [OF q(1), of 40] q(2,3) assms(2) by auto
  have "length (wire_image f) \<le> 40" using assms(3) wire_len_le [of f] by (simp add: shape)
  then have "take 40 (concat (map app_served outs)) = wire_image f @ replicate (40 - length (wire_image f)) 0"
    unfolding b(6) by (simp add: response_def)
  with False b interrupts_keep_outgoing [OF b(1) q(1) bus_irqs_no_turn(2)] interrupts_keep_heartbeat [OF b(1) bus_irqs_no_turn(2)]
    assms(2) show ?thesis by (simp add: read_of_def quiet_def)
qed

lemma read_of_no_turn: "\<forall>ev\<in>set (read_of fr). \<not> is_turn ev"
  by (simp add: read_of_def bus_irqs_no_turn)

text \<open>A request: the node's turn, and then the read.\<close>

lemma faulty_request:
  assumes "pico_honest G w" and "incoming_frame (mb_pending (mailbox_of (na_endpoint (pb_node w)))) = inc"
  shows "\<exists>w' f s. snd (at_node (Turn t t' # read_of fr) w) = w' \<and> pico_honest G w' \<and>
    mb_pending (mailbox_of (na_endpoint (pb_node w'))) = None \<and>
    mb_outgoing (mailbox_of (na_endpoint (pb_node w'))) = wire_image f \<and> truthful kNodeId (frames_in (pb_log w')) f \<and>
    set (pb_log w) \<union> {Received inc} \<subseteq> set (pb_log w') \<and>
    na_last_heartbeat_ms (pb_node w') = (if heartbeat_due t (pb_node w) then t div 1000 else na_last_heartbeat_ms (pb_node w)) \<and>
    wire_image f = (if wants_ack inc then wire_image (the (make_ack_frame kNodeId s (f_sequence (the inc)) ack_accepted))
      else if heartbeat_due t (pb_node w)
      then wire_image (the (heartbeat_frame kNodeId (na_sequence (pb_node w)) (ucast (t' div 1000))))
      else mb_outgoing (mailbox_of (na_endpoint (pb_node w)))) \<and>
    arrive fr (take 40 (concat (map app_served (fst (at_node (Turn t t' # read_of fr) w))))) =
      arrive fr (wire_image f @ replicate (40 - length (wire_image f)) 0)"
proof -
  let ?a = "pb_node w"
  have q: "quiet ?a" using assms(1) by (simp add: pico_honest_def)
  obtain a s where a: "node_loop_body t t' ?a = Some (inc, a)" "quiet a" "mb_pending (mailbox_of (na_endpoint a)) = None"
    "mb_outgoing (mailbox_of (na_endpoint a)) = (if wants_ack inc
      then wire_image (the (make_ack_frame kNodeId s (f_sequence (the inc)) ack_accepted))
      else if heartbeat_due t ?a then wire_image (the (heartbeat_frame kNodeId (na_sequence ?a) (ucast (t' div 1000))))
      else mb_outgoing (mailbox_of (na_endpoint ?a)))"
    "na_last_heartbeat_ms a = (if heartbeat_due t ?a then t div 1000 else na_last_heartbeat_ms ?a)"
    using node_loop_body_outgoing [OF q, of t t'] assms(2) by blast
  obtain old where old: "mb_outgoing (mailbox_of (na_endpoint ?a)) = wire_image old" "truthful kNodeId (frames_in (pb_log w)) old"
    using assms(1) by (auto simp: pico_honest_def)
  have cmd: "g \<in> G" "g \<in> range queued_command" if "inc = Some g" for g
    using assms that by (auto simp: pico_honest_def)
  have R: "frames_in (pb_log w @ [Received inc]) = frames_in (pb_log w) \<union> set_option inc" by (cases inc) auto
  obtain f where f: "mb_outgoing (mailbox_of (na_endpoint a)) = wire_image f"
    "truthful kNodeId (frames_in (pb_log w @ [Received inc])) f"
    using truthful_turn [OF old(2) cmd(2) a(4)[unfolded old(1)]] unfolding R by blast
  obtain outs b where b: "run (app_step rp2040_masks) a (read_of fr) = Some (outs, b)" "quiet b"
    "mb_pending (mailbox_of (na_endpoint b)) = None" "mb_outgoing (mailbox_of (na_endpoint b)) = wire_image f"
    "na_last_heartbeat_ms b = na_last_heartbeat_ms a"
    "arrive fr (take 40 (concat (map app_served outs))) = arrive fr (wire_image f @ replicate (40 - length (wire_image f)) 0)"
    using run_read_any [OF a(2) f(1), of fr] truthful_frame [OF f(2)] a(3) by auto
  have at: "at_node (Turn t t' # read_of fr) w =
      (Received inc # outs, w\<lparr>pb_node := b, pb_log := pb_log w @ Received inc # outs\<rparr>)"
    by (rule at_node_run) (simp add: a(1) b(1))
  have "truthful kNodeId (frames_in (pb_log w @ Received inc # outs)) f" by (rule truthful_more [OF f(2)]) auto
  moreover have "g \<in> G" if "Received (Some g) \<in> set (pb_log w @ Received inc # outs)" for g
    using that assms(1) cmd(1) interrupts_receive_nothing [OF b(1) read_of_no_turn] by (auto simp: pico_honest_def)
  moreover from calculation have "pico_honest G (snd (at_node (Turn t t' # read_of fr) w))"
    using b(2-4) assms(1) by (auto simp: at pico_honest_def incoming_frame_def)
  ultimately show ?thesis
    using b(3-6) a(4,5) f(1) by (intro exI [of _ "snd (at_node (Turn t t' # read_of fr) w)"] exI [of _ f] exI [of _ s]) (simp add: at, blast)
qed

text \<open>The controller's side: sending a command and receiving.\<close>

lemma faulty_send:
  "frame_wf f \<Longrightarrow> send_frame (wire_send (faulty_driver t t' fw fr) addr) w f =
    Some (fw \<noteq> Fails, if fw = Fails then w else snd (at_node (write_irqs (arrive fw (encoded_bytes f))) w))"
  by (simp add: wire_send_frame faulty_driver_def)

lemma honest_more: "pico_honest G w \<Longrightarrow> G \<subseteq> G' \<Longrightarrow> G' \<subseteq> range queued_command \<Longrightarrow> pico_honest G' w"
  by (auto simp: pico_honest_def)

lemma honest_send:
  assumes "pico_honest G w"
  shows "pico_honest (insert (queued_command sq) G) (snd (at_node (write_irqs (arrive fw (encoded_bytes (queued_command sq)))) w)) \<and>
    set (pb_log w) \<subseteq> set (pb_log (snd (at_node (write_irqs (arrive fw (encoded_bytes (queued_command sq)))) w)))"
proof (rule honest_write)
  show "pico_honest (insert (queued_command sq) G) w"
    using assms by (intro honest_more [OF assms]) (auto simp: pico_honest_def)
  have "canon (queued_command sq) = queued_command sq" by (simp add: canon_canonical)
  with incoming_arrived [of "queued_command sq" fw]
  show "incoming_frame (Some (arrive fw (encoded_bytes (queued_command sq)))) = None \<or>
      (\<exists>g\<in>insert (queued_command sq) G. incoming_frame (Some (arrive fw (encoded_bytes (queued_command sq)))) = Some g)" by auto
  show "length (arrive fw (encoded_bytes (queued_command sq))) \<le> 40"
    using order_trans [OF arrive_length] wire_len_le [of "queued_command sq"] by (simp add: encoded_bytes_image shape)
qed

lemma faulty_receive_node:
  assumes "receive_frame (wire_receive (faulty_driver t t' fw fr) addr) w = Some (r, n, w')"
  shows "node_of w' = node_of (snd (at_node (Turn t t' # read_of fr) w))"
proof -
  have "node_of (snd (tw_read (faulty_driver t t' fw fr) w)) = node_of w" for w
    by (simp add: faulty_driver_def node_of_def split: list.split)
  from wire_receive_frame_keeps [where view = node_of, OF fifo_faulty_driver this assms] show ?thesis
    by (simp add: node_of_def faulty_driver_def read_of_def split_beta Let_def del: at_node_def)
qed

lemma faulty_receive:
  assumes "pico_honest G w" and "receive_frame (wire_receive (faulty_driver t t' fw fr) addr) w = Some (r, n, w')"
  shows "pico_honest G w' \<and> pico_free w' \<and> set (pb_log w) \<subseteq> set (pb_log w') \<and>
    (decode_ok r \<and> f_type (dr_frame r) = acknowledgement \<and> parse_ack_frame (dr_frame r) = Some (Some (sq, st)) \<longrightarrow>
       st = ack_accepted \<and> Received (Some (queued_command sq)) \<in> set (pb_log w'))"
proof -
  let ?ev = "Turn t t' # read_of fr"
  obtain w1 f where w1: "snd (at_node ?ev w) = w1" "pico_honest G w1" "mb_pending (mailbox_of (na_endpoint (pb_node w1))) = None"
    "truthful kNodeId (frames_in (pb_log w1)) f" "set (pb_log w) \<subseteq> set (pb_log w1)"
    "arrive fr (take 40 (concat (map app_served (fst (at_node ?ev w))))) =
      arrive fr (wire_image f @ replicate (40 - length (wire_image f)) 0)"
    using faulty_request [OF assms(1) refl, of t t' fr] by blast
  have same: "pb_node w' = pb_node w1" "pb_log w' = pb_log w1"
    using faulty_receive_node [OF assms(2)] w1(1) by (simp_all add: node_of_def)
  obtain m w2 where req: "tw_requestFrom (faulty_driver t t' fw fr) addr 40 w = (m, w2)" by (metis prod.exhaust)
  then have rx: "pb_rx w2 = arrive fr (wire_image f @ replicate (40 - length (wire_image f)) 0)"
    using w1(6) by (auto simp: faulty_driver_def read_of_def split_beta Let_def)
  note answer = accepted_answer [OF fifo_faulty_driver req rx w1(4) assms(2)]
  have "pico_honest G w'" "pico_free w'" using w1(2,3) same by (simp_all add: pico_honest_def pico_free_def)
  with w1(5) same answer show ?thesis by auto
qed

lemma faulty_read_fails:
  assumes "receive_frame (wire_receive (faulty_driver t t' fw Fails) addr) w = Some (r, n, w')"
  shows "\<not> decode_ok r"
proof -
  obtain m w1 where req: "tw_requestFrom (faulty_driver t t' fw Fails) addr 40 w = (m, w1)" by (metis prod.exhaust)
  then have "pb_rx w1 = []" by (auto simp: faulty_driver_def split_beta Let_def)
  from empty_read_refused [OF fifo_faulty_driver req this assms] show ?thesis .
qed

section \<open>The node is a partner on the faulty bus\<close>

lemma honest_idle: "pico_honest G w \<Longrightarrow> pico_free w \<Longrightarrow> pico_ready w"
  by (auto simp: pico_honest_def quiet_def pico_free_def pico_ready_def node_idle_mailbox)

interpretation pico_faults: faulty_partner faulty_driver pb_rx pico_ready pico_got pico_honest pico_free
proof (rule faulty_partner.intro)
  show "command_partner (\<lambda>i. faulty_driver (fst i) (snd i) Passes Passes) pb_rx pico_ready pico_got"
    unfolding faulty_driver_passes by (rule pico_partner.command_partner_axioms)
  show "faulty_partner_axioms faulty_driver pb_rx pico_ready pico_got pico_honest pico_free"
  proof
    show "fifo_wire (faulty_driver t t' fw fr) pb_rx" for t t' fw fr by (rule fifo_faulty_driver)
    show "pico_ready w" if "pico_honest G w" "pico_free w" for G w by (rule honest_idle [OF that])
    show "pico_got w \<subseteq> G" if "pico_honest G w" for G w using that by (simp add: pico_honest_def pico_got_def)
    show "\<exists>ok w'. send_frame (wire_send (faulty_driver t t' fw fr) kNodeAddress_rcc) w (queued_command sq) = Some (ok, w') \<and>
        pico_honest (insert (queued_command sq) G) w' \<and> pico_got w \<subseteq> pico_got w'"
      if "pico_honest G w" for G w t t' fw fr sq
      using honest_send [OF that, of sq fw] honest_more [OF that, of "insert (queued_command sq) G"] that
      by (auto simp: faulty_send pico_got_def pico_honest_def [of G])
    show "pico_honest G w' \<and> pico_free w' \<and> pico_got w \<subseteq> pico_got w' \<and>
        (\<forall>sq st. decode_ok r \<and> f_type (dr_frame r) = acknowledgement \<and> parse_ack_frame (dr_frame r) = Some (Some (sq, st)) \<longrightarrow>
          st = ack_accepted \<and> queued_command sq \<in> pico_got w')"
      if "pico_honest G w" "receive_frame (wire_receive (faulty_driver t t' fw fr) kNodeAddress_rcc) w = Some (r, n, w')"
      for G w t t' fw fr r n w'
      using faulty_receive [OF that] by (auto simp: pico_got_def)
    show "\<not> decode_ok r"
      if "receive_frame (wire_receive (faulty_driver t t' fw Fails) kNodeAddress_rcc) w = Some (r, n, w')" for t t' fw w r n w'
      by (rule faulty_read_fails [OF that])
  qed
qed

end
