(* ===== verification/Faulty_Properties.thy ===== *)
theory Faulty_Properties
  imports Faulty_Bus
begin

text \<open>
  Runs of the two programs over the bus with faults: what the controller is told is true, a
  command is given up only after three disturbed transmissions, and what becomes of an
  acknowledgement whose read was lost.
\<close>

section \<open>Runs\<close>

abbreviation start_bus :: "node_app \<Rightarrow> u8 list \<Rightarrow> pico_bus" where
  "start_bus a rx \<equiv> \<lparr>pb_node = a, pb_rx = rx, pb_log = []\<rparr>"

lemma start_honest:
  assumes "node_main_start enable t = Some (Inr a)"
  shows "pico_honest {} (start_bus a rx)" and "pico_free (start_bus a rx)"
proof -
  obtain f where a: "na_inv a" "heartbeat_frame kNodeId 0 (ucast (t div 1000)) = Some f"
    "mailbox_of (na_endpoint a) = (mailbox_of I2cPeripheralEndpoint)\<lparr>mb_outgoing := encoded_bytes f\<rparr>"
    using node_main_start_ok [of enable t] assms by auto
  then have "mb_sent (mailbox_of (na_endpoint a)) = 0" by (simp add: mailbox_of_def I2cPeripheralEndpoint_def)
  then have "quiet a" using a(1,3) by (simp add: quiet_def mailbox_of_def slice_def I2cPeripheralEndpoint_def unat_eq_0)
  moreover have pending: "mb_pending (mailbox_of (na_endpoint a)) = None"
    using a(3) by (simp add: mailbox_of_def I2cPeripheralEndpoint_def)
  moreover show "pico_free (start_bus a rx)" using pending by (simp add: pico_free_def)
  moreover have "truthful kNodeId {} f" using a(2) by (auto simp: truthful_def)
  moreover have "mb_outgoing (mailbox_of (na_endpoint a)) = wire_image f"
    using a(3) truthful_frame [OF \<open>truthful kNodeId {} f\<close>] by (simp add: encoded_bytes_image)
  ultimately show "pico_honest {} (start_bus a rx)" by (auto simp: pico_honest_def incoming_frame_def)
qed




section \<open>An acknowledgement whose read is lost\<close>

text \<open>Receiving over a read that fails, or passes.\<close>

lemma receive_fails:
  assumes "pico_honest G w" and "receiveAcknowledgement (faulty_driver t t' fw Fails) c w = Some (ack, c', w')"
  shows "ack = None \<and> c' = c \<and> node_of w' = node_of (snd (at_node (Turn t t' # read_of Fails) w))"
proof -
  obtain r n w1 where r: "receive_frame (wire_receive (faulty_driver t t' fw Fails) kNodeAddress_rcc) w = Some (r, n, w1)"
    using assms(2) by (auto simp: receiveAcknowledgement_def split: Option.bind_splits)
  have "\<not> decode_ok r"
  proof
    assume ok: "decode_ok r"
    obtain m w2 where req: "tw_requestFrom (faulty_driver t t' fw Fails) kNodeAddress_rcc 40 w = (m, w2)" by (metis prod.exhaust)
    then have "pb_rx w2 = []" "m = 0" by (auto simp: faulty_driver_def split_beta Let_def)
    with wire_receive_frame_accepted [OF fifo_faulty_driver req r ok] obtain rest where
      "replicate 40 0 = wire_image (dr_frame r) @ rest" by auto
    then have "wire_image (dr_frame r) ! 0 = replicate 40 0 ! 0" by (simp add: nth_append)
    then show False by (simp add: wire_image_nth)
  qed
  with assms(2) r faulty_receive_node [OF r] show ?thesis by (auto simp: receiveAcknowledgement_def)
qed

lemma receive_passes:
  assumes "pico_honest G w"
    and "receive_frame (wire_receive (faulty_driver t t' fw Passes) addr) w = Some (r, n, w')"
    and "arrive Passes (take 40 (concat (map app_served (fst (at_node (Turn t t' # read_of Passes) w))))) =
      arrive Passes (wire_image f @ replicate (40 - length (wire_image f)) 0)" and "truthful kNodeId R f"
  shows "r = \<lparr>dr_frame = f, dr_error = No_error\<rparr>"
proof -
  note f = truthful_frame [OF assms(4)]
  obtain m w1 where req: "tw_requestFrom (faulty_driver t t' fw Passes) addr (of_nat kMaxEncodedFrameSize) w = (m, w1)"
    by (metis prod.exhaust)
  then have "pb_rx w1 = encoded_bytes f @ replicate (40 - length (wire_image f)) 0"
    using assms(3) f by (auto simp: faulty_driver_def read_of_def encoded_bytes_image split_beta Let_def)
  from wire_receive_frame_padded [OF fifo_faulty_driver _ req this] f assms(2) show ?thesis
    by (auto simp: canon_canonical)
qed

text \<open>The turn that transmits a command, whose answer is lost.\<close>

lemma turn_answer_lost:
  assumes inv: "cc_inv c" "pico_honest G w" "pico_free w" and poll: "ti_now_ms i - cc_last_receive_ms c \<ge> kReceivePollMs"
    and step: "faulty_step faulty_driver (c, w) i = Some (r, c', w')"
    and sent: "td_action (lr_decision r) = Tx_send" and fate: "ti_write i = Passes" "ti_read i = Fails"
  shows "\<exists>sq s ack. td_frame (lr_decision r) = queued_command sq \<and> lr_ack r = None \<and> sq = cc_sequence c' - 1 \<and>
    q_map (cc_queue c') (0, sq) \<noteq> None \<and> make_ack_frame kNodeId s sq ack_accepted = Some ack \<and>
    mb_outgoing (mailbox_of (na_endpoint (pb_node w'))) = wire_image ack \<and>
    Received (Some (queued_command sq)) \<in> set (pb_log w')"
proof -
  let ?tw = "faulty_driver (ti_node i) (ti_node' i) (ti_write i) (ti_read i)"
  obtain c1 c2 w2 where c1: "cc_inv c1"
    and t: "transmitDue ?tw (ti_now_ms i) c1 w = Some (lr_decision r, lr_sent r, c2, w2)"
    and a: "receiveAcknowledgement ?tw (c2\<lparr>cc_last_receive_ms := ti_now_ms i\<rparr>) w2 = Some (lr_ack r, c', w')"
    by (rule pico_faults.paced_turnE [OF inv(1,2) poll step refl])
  note tx = pico_faults.faulty_transmit [OF c1 inv(2) t]
  have q: "next_due (cc_queue c1) (ti_now_ms i) = (lr_decision r, cc_queue c2)" and h2: "pico_honest (G \<union> sent_frame (lr_decision r)) w2"
    and c2: "c2 = c1\<lparr>cc_queue := cc_queue c2\<rparr>" using tx by blast+
  define sq where "sq = cc_sequence c1 - 1"
  have f: "td_frame (lr_decision r) = queued_command sq" using next_due_effect(2) [OF c1 q] sent by (simp add: sq_def)
  have pend: "q_map (cc_queue c2) (0, sq) \<noteq> None" using next_due_pending [OF c1 q sent] by (simp add: sq_def)
  have "cc_sequence c2 = cc_sequence c1" using c2 by (metis command_controller.select_convs(2)
        command_controller.surjective command_controller.update_convs(1))
  have w2: "w2 = snd (at_node (write_irqs (encoded_bytes (queued_command sq))) w)"
    using t q sent f fate by (auto simp: transmitDue_def faulty_send)
  have len: "length (encoded_bytes (queued_command sq)) \<le> 40" "encoded_bytes (queued_command sq) \<noteq> []"
    using wire_len_le [of "queued_command sq"] by (simp_all add: encoded_bytes_image shape)
  have "quiet (pb_node w)" using inv(2) by (simp add: pico_honest_def)
  from run_write_any [OF this len(1)] inv(3) len(2)
  have inc: "incoming_frame (mb_pending (mailbox_of (na_endpoint (pb_node w2)))) = Some (queued_command sq)"
    using incoming_encoded [of "queued_command sq"] by (auto simp: w2 at_node_run pico_free_def canon_canonical)
  note lost = receive_fails [OF h2, of "ti_node i" "ti_node' i" Passes] 
  have l: "lr_ack r = None" "c' = c2\<lparr>cc_last_receive_ms := ti_now_ms i\<rparr>"
    "node_of w' = node_of (snd (at_node (Turn (ti_node i) (ti_node' i) # read_of Fails) w2))"
    using lost a fate by auto
  obtain w3 s where w3: "snd (at_node (Turn (ti_node i) (ti_node' i) # read_of Fails) w2) = w3"
    "set (pb_log w2) \<union> {Received (Some (queued_command sq))} \<subseteq> set (pb_log w3)"
    "mb_outgoing (mailbox_of (na_endpoint (pb_node w3))) = wire_image (the (make_ack_frame kNodeId s sq ack_accepted))"
    using faulty_request [OF h2 inc, of "ti_node i" "ti_node' i" Fails] by (auto simp: wants_ack_def)
  have "make_ack_frame kNodeId s sq ack_accepted = Some (the (make_ack_frame kNodeId s sq ack_accepted))"
    by (simp add: make_ack_frame_eq)
  moreover have "pb_node w' = pb_node w3" "pb_log w' = pb_log w3" using l(3) w3(1) by (simp_all add: node_of_def)
  ultimately show ?thesis
    using f l(1,2) pend w3(2,3) \<open>cc_sequence c2 = cc_sequence c1\<close>
    by (intro exI [of _ sq] exI [of _ s] exI [of _ "the (make_ack_frame kNodeId s sq ack_accepted)"]) (simp add: sq_def)
qed

text \<open>The next poll, without a retransmission.\<close>

lemma turn_answer_fetched:
  assumes inv: "cc_inv c" "pico_honest G w" "pico_free w" and poll: "ti_now_ms i - cc_last_receive_ms c \<ge> kReceivePollMs"
    and step: "faulty_step faulty_driver (c, w) i = Some (r, c', w')"
    and none: "td_action (lr_decision r) = Tx_none" and fate: "ti_read i = Passes"
    and sq: "q_map (cc_queue c) (0, sq) \<noteq> None" and ack: "make_ack_frame kNodeId s sq ack_accepted = Some ack"
    and out: "mb_outgoing (mailbox_of (na_endpoint (pb_node w))) = wire_image ack" "Received (Some (queued_command sq)) \<in> set (pb_log w)"
  shows "lr_ack r = (if heartbeat_due (ti_node i) (pb_node w) then None else Some (sq, ack_accepted, Resolved_accepted)) \<and>
    pending_count (cc_queue c') = (if heartbeat_due (ti_node i) (pb_node w) then 1 else 0)"
proof -
  let ?tw = "faulty_driver (ti_node i) (ti_node' i) (ti_write i) (ti_read i)" and ?hb = "heartbeat_due (ti_node i) (pb_node w)"
  obtain c1 c2 w2 where c1: "cc_inv c1" "pending_count (cc_queue c) \<noteq> 0 \<longrightarrow> c1 = c"
    and t: "transmitDue ?tw (ti_now_ms i) c1 w = Some (lr_decision r, lr_sent r, c2, w2)"
    and a: "receiveAcknowledgement ?tw (c2\<lparr>cc_last_receive_ms := ti_now_ms i\<rparr>) w2 = Some (lr_ack r, c', w')"
    by (rule pico_faults.paced_turnE [OF inv(1,2) poll step refl])
  have "pending_count (cc_queue c) \<noteq> 0" using cc_pending_count(2) [OF inv(1)] sq by metis
  with c1(2) have same: "c1 = c" by blast
  note tx = pico_faults.faulty_transmit [OF c1(1) inv(2) t]
  have st: "queue_step (cc_queue c) (Next_due (ti_now_ms i)) = Some (Decision (lr_decision r), cc_queue c2)"
    using tx same by (simp add: queue_step_def)
  have q: "q_map (cc_queue c2) = q_map (cc_queue c)"
    by (rule queue_rel_Next_dueE [OF queue_stepD(1) [OF cc_invD(1) [OF inv(1)] st]]) (use none in auto)
  have w2: "w2 = w" using t none conjunct1 [OF conjunct2 [OF conjunct2 [OF conjunct2 [OF tx]]]]
    by (auto simp: transmitDue_def)
  have i3: "cc_inv (c2\<lparr>cc_last_receive_ms := ti_now_ms i\<rparr>)" using tx by simp
  have idle: "incoming_frame (mb_pending (mailbox_of (na_endpoint (pb_node w)))) = None"
    using inv(3) by (simp add: pico_free_def incoming_frame_def)
  obtain R f s' where w3: "truthful kNodeId R f"
    "wire_image f = (if wants_ack None then wire_image (the (make_ack_frame kNodeId s' (f_sequence (the (None :: frame option))) ack_accepted))
      else if ?hb then wire_image (the (heartbeat_frame kNodeId (na_sequence (pb_node w)) (ucast (ti_node' i div 1000))))
      else mb_outgoing (mailbox_of (na_endpoint (pb_node w))))"
    "arrive Passes (take 40 (concat (map app_served (fst (at_node (Turn (ti_node i) (ti_node' i) # read_of Passes) w))))) =
      arrive Passes (wire_image f @ replicate (40 - length (wire_image f)) 0)"
    using faulty_request [OF inv(2) idle, of "ti_node i" "ti_node' i" Passes]
    by blast
  then have image: "wire_image f = (if ?hb
      then wire_image (the (heartbeat_frame kNodeId (na_sequence (pb_node w)) (ucast (ti_node' i div 1000))))
      else wire_image ack)" using out(1) by (simp add: wants_ack_def)
  obtain d n w4 where d: "receive_frame (wire_receive ?tw kNodeAddress_rcc) w = Some (d, n, w4)"
    using a w2 by (auto simp: receiveAcknowledgement_def split: Option.bind_splits)
  have df: "d = \<lparr>dr_frame = f, dr_error = No_error\<rparr>"
    by (rule receive_passes [OF inv(2) d [unfolded fate] w3(3,1)])
  show ?thesis
  proof (cases ?hb)
    case True
    obtain h where h: "heartbeat_frame kNodeId (na_sequence (pb_node w)) (ucast (ti_node' i div 1000)) = Some h"
      using heartbeat_frame_eq by blast
    with True image have "wire_image f = wire_image h" by simp
    moreover have "canonical h" "canonical f"
      using h heartbeat_frame_eq [of kNodeId "na_sequence (pb_node w)" "ucast (ti_node' i div 1000)"] truthful_frame [OF w3(1)] by auto
    ultimately have "f = h" by (metis Inr_inject decode_spec_iff)
    then have "f_type f \<noteq> acknowledgement" using heartbeat_no_ack [OF h] by simp
    with a d df w2 have "lr_ack r = None" "c' = c2\<lparr>cc_last_receive_ms := ti_now_ms i\<rparr>"
      by (auto simp: receiveAcknowledgement_def)
    moreover have "pending_count (cc_queue c2) = 1"
      using pending_one [OF i3, of "(0, sq)"] q sq by simp
    ultimately show ?thesis using True by simp
  next
    case False
    with image have "wire_image f = wire_image ack" by simp
    moreover have "canonical ack" "canonical f" using ack_canonical [OF ack] truthful_frame [OF w3(1)] by simp_all
    ultimately have f: "f = ack" by (metis Inr_inject decode_spec_iff)
    obtain res q' where r: "acknowledge (cc_queue c2) 0 sq ack_accepted = (res, q')" by (metis prod.exhaust)
    have i2: "cc_inv c2" using i3 by simp
    note eff = acknowledge_effect [OF i2 r]
    have "res = Resolved_accepted" using eff(3) q sq by simp
    with a d df w2 f r ack_parsed [OF ack] have e: "lr_ack r = Some (sq, ack_accepted, Resolved_accepted)"
      "c' = c2\<lparr>cc_last_receive_ms := ti_now_ms i, cc_queue := q'\<rparr>"
      by (auto simp: receiveAcknowledgement_def kNodeId_def)
    have k: "q_map (cc_queue c2) k = Some sl \<Longrightarrow> k = (0, sq)" for k sl
      using cc_invD(3) [OF i2] q sq by (metis not_None_eq)
    have "q_map q' = (\<lambda>_. None)" unfolding eff(2) using k by (auto simp: fun_eq_iff) (metis not_None_eq prod.inject)+
    with cc_pending_count(2) [OF eff(1)] e False show ?thesis by simp
  qed
qed




end
