(* ===== verification/Arduino_Faults.thy ===== *)
theory Arduino_Faults
  imports Arduino_Bus Faulty_System
begin

text \<open>
  The controller sketch and the Arduino node sketch on a bus with faults; without faults it is the
  bus of \<open>Arduino_Bus\<close>. The node at its end is a \<open>faulty_partner\<close>, like the Pico node: a damaged
  write replaces the frame that waits, but is no command, and what is served is not touched.
\<close>

section \<open>The bus\<close>

definition faulty_ino_driver :: "u8 \<Rightarrow> u32 \<Rightarrow> u32 \<Rightarrow> bus_fate \<Rightarrow> bus_fate \<Rightarrow> ino_bus two_wire" where
  "faulty_ino_driver idle t t' fw fr =
     \<lparr>tw_beginTransmission = (\<lambda>a w. w),
      tw_write = (\<lambda>bs w. (length bs, if fw = Fails then w
        else snd (at_sketch [On_receive (arrive fw bs) (int (length bs))] w))),
      tw_endTransmission = (\<lambda>w. (if fw = Fails then 2 else 0, w)),
      tw_requestFrom = (\<lambda>a n w. let (outs, w) = at_sketch (Loop t t' # (if fr = Fails then [] else [On_request])) w;
                                    rx = arrive fr (take (unat n) (concat (map sketch_served outs) @ replicate (unat n) idle))
                                in (length rx, w\<lparr>ib_rx := rx\<rparr>)),
      tw_available = (\<lambda>w. int (length (ib_rx w))),
      tw_read = (\<lambda>w. case ib_rx w of [] \<Rightarrow> (-1, w) | b # r \<Rightarrow> (int (unat b), w\<lparr>ib_rx := r\<rparr>))\<rparr>"

lemma faulty_ino_driver_passes: "faulty_ino_driver idle t t' Passes Passes = ino_driver idle t t'"
  by (simp add: faulty_ino_driver_def ino_driver_def)

lemma fifo_faulty_ino_driver: "fifo_wire (faulty_ino_driver idle t t' fw fr) ib_rx"
proof -
  have "length (arrive fr (take (unat n) bs)) \<le> unat (n :: u8)" for n bs
    by (rule order_trans [OF arrive_length]) simp
  then show ?thesis by (auto simp: fifo_wire_def faulty_ino_driver_def split_beta Let_def simp del: take_append)
qed

section \<open>What the node has to say\<close>

lemma node_loop_outgoing:
  assumes "ns_inv s"
  shows "\<exists>t i. node_loop now uptime s = Some (incoming_frame (we_waiting (ns_endpoint s)), t) \<and> ns_inv t \<and>
    we_waiting (ns_endpoint t) = None \<and>
    we_outgoing (ns_endpoint t) = (if wants_ack (incoming_frame (we_waiting (ns_endpoint s)))
      then wire_image (the (make_ack_frame kNodeId_ino i (f_sequence (the (incoming_frame (we_waiting (ns_endpoint s))))) ack_accepted))
      else if now - ns_last_heartbeat_ms s \<ge> 1000 then wire_image (the (heartbeat_frame kNodeId_ino (ns_sequence s) uptime))
      else we_outgoing (ns_endpoint s))"
proof -
  obtain e where e: "ns_active s = Some 0" "ns_objects s = [e]" "we_inv e" "ns_endpoint s = e"
    using assms by (auto simp: ns_inv_def ns_endpoint_def)
  define due where "due \<longleftrightarrow> now - ns_last_heartbeat_ms s \<ge> 1000"
  obtain e' s' i where t: "node_turn we_publish we_poll kNodeId_ino due uptime (e, ns_sequence s) =
      Some (incoming_frame (we_waiting e), e', s')" "we_inv e'" "we_waiting e' = None"
    "we_outgoing e' = (if wants_ack (incoming_frame (we_waiting e))
      then wire_image (the (make_ack_frame kNodeId_ino i (f_sequence (the (incoming_frame (we_waiting e)))) ack_accepted))
      else if due then wire_image (the (heartbeat_frame kNodeId_ino (ns_sequence s) uptime)) else we_outgoing e)"
    using arduino.node_turn_outgoing [OF e(3) TrueI, of kNodeId_ino due uptime "ns_sequence s"] by blast
  define u where "u = (if due then s\<lparr>ns_last_heartbeat_ms := now\<rparr> else s)\<lparr>ns_objects := [e'], ns_sequence := s'\<rparr>"
  have "node_loop now uptime s = Some (incoming_frame (we_waiting (ns_endpoint s)), u)"
    using t(1) e by (cases due) (simp_all add: node_loop_def Let_def due_def [symmetric] ub_simps u_def)
  moreover have "ns_inv u" "ns_endpoint u = e'" using t(2) e(1) by (simp_all add: u_def ns_inv_def ns_endpoint_def)
  ultimately show ?thesis unfolding due_def [symmetric] using t(3,4) e(4) by metis
qed

definition ino_honest :: "frame set \<Rightarrow> ino_bus \<Rightarrow> bool" where
  "ino_honest G w \<longleftrightarrow> ns_inv (ib_node w) \<and> G \<subseteq> range queued_command \<and> ino_got w \<subseteq> G \<and>
     (\<forall>g. incoming_frame (we_waiting (ns_endpoint (ib_node w))) = Some g \<longrightarrow> g \<in> G) \<and>
     (\<exists>f. we_outgoing (ns_endpoint (ib_node w)) = wire_image f \<and> truthful kNodeId_ino (ino_got w) f)"

text \<open>A write: what arrives is pending, or nothing is.\<close>

lemma ino_write:
  assumes h: "ino_honest G w" and n: "length bs \<le> 40"
    and cmd: "incoming_frame (Some bs) = None \<or> (\<exists>g\<in>G. incoming_frame (Some bs) = Some g)"
  shows "ino_honest G (snd (at_sketch [On_receive bs (int (length bs))] w)) \<and>
    ino_got (snd (at_sketch [On_receive bs (int (length bs))] w)) = ino_got w"
proof -
  let ?s = "ib_node w"
  have inv: "ns_inv ?s" using h by (simp add: ino_honest_def)
  obtain t where t: "sketch_step (list_driver []) ?s (On_receive bs (int (length bs))) = Some (Receive_done, t)" "ns_inv t"
    "we_pending (ns_endpoint t) = bs" "we_outgoing (ns_endpoint t) = we_outgoing (ns_endpoint ?s)"
    using on_receive_effect [OF fifo_list_driver inv, of "[]" bs "int (length bs)"] n by auto
  have at: "at_sketch [On_receive bs (int (length bs))] w = ([Receive_done], w\<lparr>ib_node := t, ib_log := ib_log w @ [Receive_done]\<rparr>)"
    by (rule at_sketch_run) (use t(1) in \<open>simp del: sketch_step.simps\<close>)
  have "we_waiting (ns_endpoint t) = None \<or> we_waiting (ns_endpoint t) = Some bs"
    using t(3) by (simp add: we_waiting_def)
  then have "g \<in> G" if "incoming_frame (we_waiting (ns_endpoint t)) = Some g" for g
    using that cmd by (auto simp: incoming_frame_def)
  moreover have "ino_got (w\<lparr>ib_node := t, ib_log := ib_log w @ [Receive_done]\<rparr>) = ino_got w" by (simp add: ino_got_def)
  ultimately show ?thesis using h t(2,4) by (auto simp: at ino_honest_def)
qed

text \<open>A request: a turn of the node's loop, then the request callback unless the read fails.\<close>

lemma ino_request:
  assumes h: "ino_honest G w"
  shows "\<exists>outs w' f. at_sketch (Loop t t' # (if fr = Fails then [] else [On_request])) w = (outs, w') \<and> ino_honest G w' \<and>
    ino_got w \<subseteq> ino_got w' \<and> truthful kNodeId_ino (ino_got w') f \<and>
    arrive fr (take 40 (concat (map sketch_served outs) @ replicate 40 idle)) =
      arrive fr (wire_image f @ replicate (40 - length (wire_image f)) idle)"
proof -
  let ?s = "ib_node w" and ?rd = "if fr = Fails then [] else [On_request]"
  have inv: "ns_inv ?s" using h by (simp add: ino_honest_def)
  let ?inc = "incoming_frame (we_waiting (ns_endpoint ?s))"
  obtain old where old: "we_outgoing (ns_endpoint ?s) = wire_image old" "truthful kNodeId_ino (ino_got w) old"
    using h by (auto simp: ino_honest_def)
  have cmd: "g \<in> G" "g \<in> range queued_command" if "?inc = Some g" for g
    using h that by (auto simp: ino_honest_def)
  obtain s1 i where s1: "node_loop t t' ?s = Some (?inc, s1)" "ns_inv s1" "we_waiting (ns_endpoint s1) = None"
    "we_outgoing (ns_endpoint s1) = (if wants_ack ?inc
      then wire_image (the (make_ack_frame kNodeId_ino i (f_sequence (the ?inc)) ack_accepted))
      else if t - ns_last_heartbeat_ms ?s \<ge> 1000 then wire_image (the (heartbeat_frame kNodeId_ino (ns_sequence ?s) t'))
      else we_outgoing (ns_endpoint ?s))"
    using node_loop_outgoing [OF inv, of t t'] by blast
  obtain f where f: "we_outgoing (ns_endpoint s1) = wire_image f" "truthful kNodeId_ino (ino_got w \<union> set_option ?inc) f"
    using truthful_turn [OF old(2) cmd(2) s1(4)[unfolded old(1)]] by blast
  define reads where "reads = (if fr = Fails then [] else [Requested (Some (wire_image f))])"
  have "wire_image f \<noteq> []" using wire_image_nonempty [of f] by simp
  then have "sketch_step (list_driver []) s1 On_request = Some (Requested (Some (wire_image f)), s1)"
    using on_request_effect [OF s1(2)] f(1) by simp
  with s1(1) have r: "run (sketch_step (list_driver [])) ?s (Loop t t' # ?rd) = Some (Loop_received ?inc # reads, s1)"
    by (simp add: reads_def del: sketch_step.simps(2,3))
  let ?w = "w\<lparr>ib_node := s1, ib_log := ib_log w @ Loop_received ?inc # reads\<rparr>"
  have at: "at_sketch (Loop t t' # ?rd) w = (Loop_received ?inc # reads, ?w)" by (rule at_sketch_run [OF r])
  have got: "ino_got ?w = ino_got w \<union> set_option ?inc" by (cases ?inc) (auto simp: ino_got_def reads_def)
  have "ino_honest G ?w"
    using h s1(2,3) f cmd(1) unfolding ino_honest_def got by (auto simp: incoming_frame_def)
  moreover have "length (wire_image f) \<le> 40" using truthful_frame [OF f(2)] wire_len_le [of f] by (simp add: shape)
  then have "arrive fr (take 40 (concat (map sketch_served (Loop_received ?inc # reads)) @ replicate 40 idle)) =
      arrive fr (wire_image f @ replicate (40 - length (wire_image f)) idle)"
    by (cases fr) (simp_all add: reads_def)
  moreover have "ino_got w \<subseteq> ino_got ?w" "truthful kNodeId_ino (ino_got ?w) f" using f(2) unfolding got by auto
  ultimately show ?thesis using at by blast
qed

section \<open>The node is a partner on the faulty bus\<close>

lemma faulty_ino_send:
  "frame_wf f \<Longrightarrow> send_frame (wire_send (faulty_ino_driver idle t t' fw fr) addr) w f =
    Some (fw \<noteq> Fails, if fw = Fails then w
      else snd (at_sketch [On_receive (arrive fw (encoded_bytes f)) (int (length (encoded_bytes f)))] w))"
  by (simp add: wire_send_frame faulty_ino_driver_def)

lemma faulty_ino_receive:
  assumes "ino_honest G w" and "receive_frame (wire_receive (faulty_ino_driver idle t t' fw fr) addr) w = Some (r, n, w')"
  shows "ino_honest G w' \<and> ino_got w \<subseteq> ino_got w' \<and>
    (decode_ok r \<and> f_type (dr_frame r) = acknowledgement \<and> parse_ack_frame (dr_frame r) = Some (Some (sq, st)) \<longrightarrow>
       st = ack_accepted \<and> queued_command sq \<in> ino_got w')"
proof -
  let ?view = "\<lambda>w :: ino_bus. (ib_node w, ib_log w)"
  obtain outs w1 f where w1: "at_sketch (Loop t t' # (if fr = Fails then [] else [On_request])) w = (outs, w1)" "ino_honest G w1"
    "ino_got w \<subseteq> ino_got w1" "truthful kNodeId_ino (ino_got w1) f"
    "arrive fr (take 40 (concat (map sketch_served outs) @ replicate 40 idle)) =
      arrive fr (wire_image f @ replicate (40 - length (wire_image f)) idle)"
    using ino_request [OF assms(1)] by blast
  obtain m w2 where req: "tw_requestFrom (faulty_ino_driver idle t t' fw fr) addr 40 w = (m, w2)" by (metis prod.exhaust)
  then have rx: "ib_rx w2 = arrive fr (wire_image f @ replicate (40 - length (wire_image f)) idle)"
    and w2: "?view w2 = ?view w1"
    using w1(1,5) by (auto simp: faulty_ino_driver_def Let_def)
  have "?view (snd (tw_read (faulty_ino_driver idle t t' fw fr) w)) = ?view w" for w
    by (simp add: faulty_ino_driver_def split: list.split)
  from wire_receive_frame_keeps [where view = ?view, OF fifo_faulty_ino_driver this assms(2)]
  have same: "ib_node w' = ib_node w1" "ino_got w' = ino_got w1" using w2 req by (simp_all add: ino_got_def)
  note answer = accepted_answer [OF fifo_faulty_ino_driver req rx w1(4) assms(2)]
  have "ino_honest G w'" using w1(2) same by (simp add: ino_honest_def)
  with w1(3) same answer show ?thesis by simp
qed

lemma faulty_ino_read_fails:
  assumes "receive_frame (wire_receive (faulty_ino_driver idle t t' fw Fails) addr) w = Some (r, n, w')"
  shows "\<not> decode_ok r"
proof -
  obtain m w1 where req: "tw_requestFrom (faulty_ino_driver idle t t' fw Fails) addr 40 w = (m, w1)" by (metis prod.exhaust)
  then have "ib_rx w1 = []" by (auto simp: faulty_ino_driver_def split_beta Let_def)
  from empty_read_refused [OF fifo_faulty_ino_driver req this assms] show ?thesis .
qed

lemma ino_send_honest:
  assumes h: "ino_honest G w" and ft: "fw \<noteq> Fails"
  shows "ino_honest (insert (queued_command sq) G) (snd (at_sketch [On_receive (arrive fw (encoded_bytes (queued_command sq)))
      (int (length (encoded_bytes (queued_command sq))))] w)) \<and>
    ino_got (snd (at_sketch [On_receive (arrive fw (encoded_bytes (queued_command sq)))
      (int (length (encoded_bytes (queued_command sq))))] w)) = ino_got w"
proof -
  let ?f = "queued_command sq"
  have len: "length (encoded_bytes ?f) = length (arrive fw (encoded_bytes ?f))" using ft by (cases fw) simp_all
  have "length (encoded_bytes ?f) \<le> 40" using wire_len_le [of ?f] by (simp add: encoded_bytes_image shape)
  moreover have "ino_honest (insert ?f G) w" using h by (auto simp: ino_honest_def)
  moreover have "canon ?f = ?f" by (simp add: canon_canonical)
  with incoming_arrived [of ?f fw] have "incoming_frame (Some (arrive fw (encoded_bytes ?f))) = None \<or>
      (\<exists>g\<in>insert ?f G. incoming_frame (Some (arrive fw (encoded_bytes ?f))) = Some g)" by auto
  ultimately show ?thesis unfolding len by (intro ino_write) simp_all
qed

interpretation ino_faults: faulty_partner "faulty_ino_driver idle" ib_rx ino_ready ino_got ino_honest "\<lambda>w. True" for idle
proof (rule faulty_partner.intro)
  show "command_partner (\<lambda>i. faulty_ino_driver idle (fst i) (snd i) Passes Passes) ib_rx ino_ready ino_got"
    unfolding faulty_ino_driver_passes by (rule ino_partner.command_partner_axioms)
  show "faulty_partner_axioms (faulty_ino_driver idle) ib_rx ino_ready ino_got ino_honest (\<lambda>w. True)"
  proof
    show "fifo_wire (faulty_ino_driver idle t t' fw fr) ib_rx" for t t' fw fr by (rule fifo_faulty_ino_driver)
    show "ino_ready w" if "ino_honest G w" for G w using that by (simp add: ino_honest_def ino_ready_def)
    show "ino_got w \<subseteq> G" if "ino_honest G w" for G w using that by (simp add: ino_honest_def)
    show "\<exists>ok w'. send_frame (wire_send (faulty_ino_driver idle t t' fw fr) kNodeAddress_rcc) w (queued_command sq) = Some (ok, w') \<and>
        ino_honest (insert (queued_command sq) G) w' \<and> ino_got w \<subseteq> ino_got w'"
      if "ino_honest G w" for G w t t' fw fr sq
    proof (cases "fw = Fails")
      case True
      have "ino_honest (insert (queued_command sq) G) w" using that by (auto simp: ino_honest_def)
      with True show ?thesis by (auto simp: faulty_ino_send)
    next
      case False
      with ino_send_honest [OF that False, of sq] show ?thesis by (auto simp: faulty_ino_send)
    qed
    show "ino_honest G w' \<and> True \<and> ino_got w \<subseteq> ino_got w' \<and>
        (\<forall>sq st. decode_ok r \<and> f_type (dr_frame r) = acknowledgement \<and> parse_ack_frame (dr_frame r) = Some (Some (sq, st)) \<longrightarrow>
          st = ack_accepted \<and> queued_command sq \<in> ino_got w')"
      if "ino_honest G w" "receive_frame (wire_receive (faulty_ino_driver idle t t' fw fr) kNodeAddress_rcc) w = Some (r, n, w')"
      for G w t t' fw fr r n w'
      using faulty_ino_receive [OF that] by blast
    show "\<not> decode_ok r"
      if "receive_frame (wire_receive (faulty_ino_driver idle t t' fw Fails) kNodeAddress_rcc) w = Some (r, n, w')" for t t' fw w r n w'
      by (rule faulty_ino_read_fails [OF that])
  qed
qed

section \<open>Properties\<close>

lemma started_honest:
  assumes "node_setup t Node_sketch = Some s"
  shows "ino_honest {} \<lparr>ib_node = s, ib_rx = bs, ib_log = []\<rparr>"
proof -
  obtain f where f: "ns_inv s" "heartbeat_frame kNodeId_ino 0 t = Some f" "we_outgoing (ns_endpoint s) = encoded_bytes f"
    "we_waiting (ns_endpoint s) = None"
    using node_setup_ok [of t] assms by auto
  have "truthful kNodeId_ino {} f" using f(2) by (auto simp: truthful_def)
  with truthful_frame [OF this] f(1,3,4) show ?thesis
    by (auto simp: ino_honest_def ino_got_def encoded_bytes_image incoming_frame_def)
qed





end
