(* ===== verification/Node_Registry.thy ===== *)
theory Node_Registry
  imports Node_Table
begin

text \<open>
  The liveness registry (\<open>include/picomesh/node_registry.h\<close>, \<open>src/node_registry.cpp\<close>): its
  arrays and operations, the partial map of node statuses they implement, and what the
  modulo-\<open>2^32\<close> clock makes of the liveness timeout.
\<close>

section \<open>The code\<close>

record node_status =
  ns_node_id :: u8
  ns_last_sequence :: u8
  ns_last_seen_ms :: u32
  ns_online :: bool

definition NodeStatus :: node_status where
  "NodeStatus = \<lparr>ns_node_id = 0, ns_last_sequence = 0, ns_last_seen_ms = 0, ns_online = False\<rparr>"

record node_registry =
  nr_nodes :: "node_status list"
  nr_present :: "bool list"
  nr_timeout_ms :: u32

definition NodeRegistry :: "u32 \<Rightarrow> node_registry" where
  "NodeRegistry timeout_ms =
     \<lparr>nr_nodes = replicate kMaxNodes NodeStatus, nr_present = replicate kMaxNodes False,
      nr_timeout_ms = timeout_ms\<rparr>"

definition nr_observe :: "node_registry \<Rightarrow> u8 \<Rightarrow> u8 \<Rightarrow> u32 \<Rightarrow> (bool \<times> node_registry) option" where
  "nr_observe r node_id sequence now_ms =
     (if unat node_id \<ge> kMaxNodes then Some (False, r)
      else do {
        node \<leftarrow> rd (nr_nodes r) (unat node_id);
        let node = node\<lparr>ns_node_id := node_id, ns_last_sequence := sequence,
                       ns_last_seen_ms := now_ms, ns_online := True\<rparr>;
        nodes \<leftarrow> wr (nr_nodes r) (unat node_id) node;
        present \<leftarrow> wr (nr_present r) (unat node_id) True;
        Some (True, r\<lparr>nr_nodes := nodes, nr_present := present\<rparr>)
      })"

fun nr_refresh_loop :: "u32 \<Rightarrow> nat \<Rightarrow> nat \<Rightarrow> node_registry \<Rightarrow> node_registry option" where
  "nr_refresh_loop now_ms i 0 r = Some r"
| "nr_refresh_loop now_ms i (Suc n) r = do {
     present \<leftarrow> rd (nr_present r) i;
     if \<not> present then nr_refresh_loop now_ms (Suc i) n r
     else do {
       node \<leftarrow> rd (nr_nodes r) i;
       let elapsed = now_ms - ns_last_seen_ms node;
       nodes \<leftarrow> wr (nr_nodes r) i (node\<lparr>ns_online := elapsed \<le> nr_timeout_ms r\<rparr>);
       nr_refresh_loop now_ms (Suc i) n (r\<lparr>nr_nodes := nodes\<rparr>)
     }
   }"

definition nr_refresh :: "node_registry \<Rightarrow> u32 \<Rightarrow> node_registry option" where
  "nr_refresh r now_ms = nr_refresh_loop now_ms 0 kMaxNodes r"

text \<open>\<open>std::optional<NodeStatus>\<close> is the inner option, undefined behaviour the outer one.\<close>

definition nr_get :: "node_registry \<Rightarrow> u8 \<Rightarrow> node_status option option" where
  "nr_get r node_id =
     (if unat node_id \<ge> kMaxNodes then Some None
      else do {
        present \<leftarrow> rd (nr_present r) (unat node_id);
        if \<not> present then Some None
        else do {
          node \<leftarrow> rd (nr_nodes r) (unat node_id);
          Some (Some node)
        }
      })"

fun nr_online_loop :: "node_registry \<Rightarrow> nat \<Rightarrow> nat \<Rightarrow> nat \<Rightarrow> nat option" where
  "nr_online_loop r i 0 count = Some count"
| "nr_online_loop r i (Suc n) count = do {
     present \<leftarrow> rd (nr_present r) i;
     online \<leftarrow> (if present then do { node \<leftarrow> rd (nr_nodes r) i; Some (ns_online node) }
               else Some False);
     nr_online_loop r (Suc i) n (if online then count + 1 else count)
   }"

definition nr_online_count :: "node_registry \<Rightarrow> nat option" where
  "nr_online_count r = nr_online_loop r 0 kMaxNodes 0"

text \<open>The calls that change the registry, and what they return (\<open>refresh\<close> returns nothing).\<close>

datatype registry_call = Observe u8 u8 u32 | Refresh u32

fun nr_step :: "node_registry \<Rightarrow> registry_call \<Rightarrow> (bool option \<times> node_registry) option" where
  "nr_step r (Observe node_id sequence now_ms) = do {
     (ok, r) \<leftarrow> nr_observe r node_id sequence now_ms;
     Some (Some ok, r)
   }"
| "nr_step r (Refresh now_ms) = do {
     r \<leftarrow> nr_refresh r now_ms;
     Some (None, r)
   }"

section \<open>Specification\<close>

text \<open>A registry is the timeout and a partial map from node IDs to statuses.\<close>

type_synonym registry_map = "u8 \<Rightarrow> node_status option"

definition observed :: "u8 \<Rightarrow> u8 \<Rightarrow> u32 \<Rightarrow> node_status" where
  "observed node_id sequence now_ms =
     \<lparr>ns_node_id = node_id, ns_last_sequence = sequence, ns_last_seen_ms = now_ms,
      ns_online = True\<rparr>"

definition aged :: "u32 \<Rightarrow> u32 \<Rightarrow> node_status \<Rightarrow> node_status" where
  "aged timeout now_ms s = s\<lparr>ns_online := now_ms - ns_last_seen_ms s \<le> timeout\<rparr>"

fun registry_spec ::
  "u32 \<times> registry_map \<Rightarrow> registry_call \<Rightarrow> bool option \<times> (u32 \<times> registry_map)" where
  "registry_spec (timeout, m) (Observe node_id sequence now_ms) =
     (if unat node_id < kMaxNodes
      then (Some True, timeout, m(node_id \<mapsto> observed node_id sequence now_ms))
      else (Some False, timeout, m))"
| "registry_spec (timeout, m) (Refresh now_ms) =
     (None, timeout, map_option (aged timeout now_ms) \<circ> m)"

definition nr_slot :: "node_registry \<Rightarrow> nat \<Rightarrow> node_status option" where
  "nr_slot r i = (if nr_present r ! i then Some (nr_nodes r ! i) else None)"

definition nr_map :: "node_registry \<Rightarrow> registry_map" where
  "nr_map r n = (if unat n < kMaxNodes then nr_slot r (unat n) else None)"

definition nr_abs :: "node_registry \<Rightarrow> u32 \<times> registry_map" where
  "nr_abs r = (nr_timeout_ms r, nr_map r)"

definition nr_inv :: "node_registry \<Rightarrow> bool" where
  "nr_inv r \<longleftrightarrow> length (nr_nodes r) = kMaxNodes \<and> length (nr_present r) = kMaxNodes"

lemma nr_inv_NodeRegistry: "nr_inv (NodeRegistry t)"
  by (simp add: nr_inv_def NodeRegistry_def)

lemma nr_abs_NodeRegistry: "nr_abs (NodeRegistry t) = (t, \<lambda>_. None)"
  by (auto simp: nr_abs_def nr_map_def nr_slot_def NodeRegistry_def)

section \<open>The arrays implement the map\<close>

lemma observed_update: "s\<lparr>ns_node_id := n, ns_last_sequence := sq, ns_last_seen_ms := now,
    ns_online := True\<rparr> = observed n sq now"
  by (cases s) (simp add: observed_def)

lemma nr_observe_in:
  "nr_inv r \<Longrightarrow> unat n < 32 \<Longrightarrow> nr_observe r n sq now = Some (True,
     r\<lparr>nr_nodes := (nr_nodes r)[unat n := observed n sq now],
       nr_present := (nr_present r)[unat n := True]\<rparr>)"
  by (simp add: nr_observe_def nr_inv_def ub_simps observed_update)

lemma nr_observe_out: "\<not> unat n < 32 \<Longrightarrow> nr_observe r n sq now = Some (False, r)"
  by (simp add: nr_observe_def)

lemma nr_refresh_loop_in:
  "nr_inv r \<Longrightarrow> i + n \<le> 32 \<Longrightarrow>
   \<exists>ns. nr_refresh_loop now i n r = Some (r\<lparr>nr_nodes := ns\<rparr>) \<and> length ns = 32 \<and>
     (\<forall>j < 32. ns ! j =
        (if i \<le> j \<and> j < i + n \<and> nr_present r ! j then aged (nr_timeout_ms r) now (nr_nodes r ! j)
         else nr_nodes r ! j))"
proof (induction n arbitrary: i r)
  case 0
  then show ?case by (intro exI [of _ "nr_nodes r"]) (auto simp: nr_inv_def)
next
  case (Suc n)
  then have i: "i < 32" and len: "length (nr_nodes r) = 32" "length (nr_present r) = 32"
    by (auto simp: nr_inv_def)
  define r' where "r' = (if nr_present r ! i
    then r\<lparr>nr_nodes := (nr_nodes r)[i := aged (nr_timeout_ms r) now (nr_nodes r ! i)]\<rparr> else r)"
  have r': "nr_inv r'" "nr_present r' = nr_present r" "nr_timeout_ms r' = nr_timeout_ms r"
    using Suc.prems(1) by (simp_all add: r'_def nr_inv_def)
  have nodes: "nr_nodes r' ! j = (if j = i \<and> nr_present r ! i
      then aged (nr_timeout_ms r) now (nr_nodes r ! i) else nr_nodes r ! j)" for j
    using i len by (simp add: r'_def nth_list_update)
  have "nr_refresh_loop now i (Suc n) r = nr_refresh_loop now (Suc i) n r'"
    using i len by (simp add: rd_in wr_in r'_def aged_def)
  moreover obtain ns where ns: "nr_refresh_loop now (Suc i) n r' = Some (r'\<lparr>nr_nodes := ns\<rparr>)"
    "length ns = 32" "\<forall>j < 32. ns ! j =
        (if Suc i \<le> j \<and> j < Suc i + n \<and> nr_present r' ! j
         then aged (nr_timeout_ms r') now (nr_nodes r' ! j) else nr_nodes r' ! j)"
    using Suc.IH [OF r'(1), of "Suc i"] Suc.prems(2) by auto
  moreover have "r'\<lparr>nr_nodes := ns\<rparr> = r\<lparr>nr_nodes := ns\<rparr>" by (simp add: r'_def)
  moreover have "ns ! j = (if i \<le> j \<and> j < i + Suc n \<and> nr_present r ! j
      then aged (nr_timeout_ms r) now (nr_nodes r ! j) else nr_nodes r ! j)" if "j < 32" for j
    using ns(3) that r' nodes [of j] by (cases "j = i") auto
  ultimately show ?case by auto
qed

lemma nr_refresh_in:
  assumes "nr_inv r"
  obtains r' where "nr_refresh r now = Some r'" "nr_inv r'"
    "nr_timeout_ms r' = nr_timeout_ms r"
    "\<And>j. j < 32 \<Longrightarrow> nr_slot r' j = map_option (aged (nr_timeout_ms r) now) (nr_slot r j)"
  using nr_refresh_loop_in [OF assms, of 0 32 now] assms
  by (auto simp: nr_refresh_def nr_inv_def nr_slot_def)

lemma nr_get_in: "nr_inv r \<Longrightarrow> nr_get r n = Some (nr_map r n)"
  by (auto simp: nr_get_def nr_map_def nr_slot_def nr_inv_def ub_simps)

lemma nr_online_loop_in:
  "nr_inv r \<Longrightarrow> i + n \<le> 32 \<Longrightarrow> nr_online_loop r i n c =
   Some (c + card {j. i \<le> j \<and> j < i + n \<and> nr_present r ! j \<and> ns_online (nr_nodes r ! j)})"
proof (induction n arbitrary: i c)
  case 0
  then show ?case by simp
next
  case (Suc n)
  let ?P = "\<lambda>j. nr_present r ! j \<and> ns_online (nr_nodes r ! j)"
  let ?A = "{j. Suc i \<le> j \<and> j < Suc i + n \<and> ?P j}"
  have "{j. i \<le> j \<and> j < i + Suc n \<and> ?P j} = (if ?P i then insert i ?A else ?A)"
    by (auto simp: le_less Suc_le_eq)
  then have card: "card {j. i \<le> j \<and> j < i + Suc n \<and> ?P j} = (if ?P i then Suc (card ?A) else card ?A)"
    by simp
  have "nr_online_loop r i (Suc n) c = nr_online_loop r (Suc i) n (if ?P i then c + 1 else c)"
    using Suc.prems by (simp add: rd_in nr_inv_def)
  also have "\<dots> = Some ((if ?P i then c + 1 else c) + card ?A)"
    using Suc.prems by (intro Suc.IH) simp_all
  finally show ?case using card by simp
qed

lemma card_u8: "card {n :: u8. unat n < 32 \<and> P (unat n)} = card {j. j < 32 \<and> P j}"
proof -
  have "{j. j < 32 \<and> P j} = unat ` {n :: u8. unat n < 32 \<and> P (unat n)}"
  proof (intro equalityI subsetI)
    fix j assume "j \<in> {j. j < 32 \<and> P j}"
    then have "unat (of_nat j :: u8) = j" "j < 32" "P j" by (simp_all add: unat_of_nat_u8)
    then show "j \<in> unat ` {n :: u8. unat n < 32 \<and> P (unat n)}"
      by (intro image_eqI [of _ _ "of_nat j"]) simp_all
  qed auto
  moreover have "inj_on (unat :: u8 \<Rightarrow> nat) A" for A by (simp add: inj_on_def)
  ultimately show ?thesis by (simp add: card_image)
qed

lemma nr_online_count_in:
  "nr_inv r \<Longrightarrow> nr_online_count r = Some (card {n. \<exists>s. nr_map r n = Some s \<and> ns_online s})"
proof -
  assume r: "nr_inv r"
  have "{n. \<exists>s. nr_map r n = Some s \<and> ns_online s}
      = {n. unat n < 32 \<and> (nr_present r ! unat n \<and> ns_online (nr_nodes r ! unat n))}"
    by (auto simp: nr_map_def nr_slot_def split: if_splits)
  with nr_online_loop_in [OF r, of 0 32 0] show ?thesis
    by (simp add: nr_online_count_def card_u8 [where P = "\<lambda>j. nr_present r ! j \<and> ns_online (nr_nodes r ! j)"])
qed

lemma nr_map_observe:
  "nr_inv r \<Longrightarrow> unat n < 32 \<Longrightarrow>
   nr_map (r\<lparr>nr_nodes := (nr_nodes r)[unat n := s], nr_present := (nr_present r)[unat n := True]\<rparr>)
     = (nr_map r)(n \<mapsto> s)"
  by (auto simp: nr_map_def nr_slot_def nr_inv_def nth_list_update fun_eq_iff)

lemma nr_step_in:
  assumes "nr_inv r"
  shows "\<exists>r'. nr_step r c = Some (fst (registry_spec (nr_abs r) c), r') \<and> nr_inv r' \<and>
    nr_abs r' = snd (registry_spec (nr_abs r) c)"
proof (cases c)
  case (Observe n sq now)
  with assms nr_map_observe [OF assms, of n "observed n sq now"] show ?thesis
    by (cases "unat n < 32")
      (simp_all add: nr_observe_in nr_observe_out nr_abs_def nr_inv_def)
next
  case (Refresh now)
  from nr_refresh_in [OF assms, of now] obtain r' where r': "nr_refresh r now = Some r'" "nr_inv r'"
    "nr_timeout_ms r' = nr_timeout_ms r"
    "\<And>j. j < 32 \<Longrightarrow> nr_slot r' j = map_option (aged (nr_timeout_ms r) now) (nr_slot r j)" by blast
  then have "nr_map r' = map_option (aged (nr_timeout_ms r) now) \<circ> nr_map r"
    by (auto simp: nr_map_def)
  with Refresh r' show ?thesis by (simp add: nr_abs_def)
qed

interpretation registry: refined_component nr_step nr_inv "NodeRegistry timeout" registry_spec nr_abs
  for timeout
proof unfold_locales
  fix r r' :: node_registry and c and x :: "bool option"
  show "nr_inv (NodeRegistry timeout)" by (rule nr_inv_NodeRegistry)
  assume r: "nr_inv r"
  note st = nr_step_in [OF r, of c]
  show "\<exists>x r'. nr_step r c = Some (x, r')" using st by blast
  assume s: "nr_step r c = Some (x, r')"
  with st show "nr_inv r'" by simp
  from s st show "registry_spec (nr_abs r) c = (x, nr_abs r')" by (cases "registry_spec (nr_abs r) c") simp
qed

fun registry_target :: "registry_call \<Rightarrow> u8 option" where
  "registry_target (Observe n sq now) = Some n"
| "registry_target (Refresh now) = None"

lemma nr_step_cases:
  assumes r: "nr_inv r" and s: "nr_step r c = Some (x, t)"
  shows "(\<exists>n sq now. c = Observe n sq now \<and> unat n < 32 \<and> x = Some True \<and>
      nr_timeout_ms t = nr_timeout_ms r \<and> (\<forall>j < 32. nr_slot t j =
        (if j = unat n then Some (observed n sq now) else nr_slot r j))) \<or>
    (\<exists>n sq now. c = Observe n sq now \<and> \<not> unat n < 32 \<and> x = Some False \<and> t = r) \<or>
    (\<exists>now. c = Refresh now \<and> x = None \<and> nr_timeout_ms t = nr_timeout_ms r \<and>
      (\<forall>j < 32. nr_slot t j = map_option (aged (nr_timeout_ms r) now) (nr_slot r j)))"
proof (cases c)
  case (Observe n sq now)
  with r s show ?thesis
    by (cases "unat n < 32")
      (auto simp: nr_observe_in nr_observe_out nr_slot_def nr_inv_def nth_list_update)
next
  case (Refresh now)
  from nr_refresh_in [OF r, of now] obtain r' where "nr_refresh r now = Some r'"
    "nr_timeout_ms r' = nr_timeout_ms r"
    "\<And>j. j < 32 \<Longrightarrow> nr_slot r' j = map_option (aged (nr_timeout_ms r) now) (nr_slot r j)" by blast
  with Refresh s show ?thesis by auto
qed

interpretation registry_table: node_table nr_step nr_inv "NodeRegistry timeout" registry_target
  "\<lambda>r i. (nr_timeout_ms r, nr_slot r i)" for timeout
proof unfold_locales
  fix r r' t t' :: node_registry and c x x' and i :: nat and n :: u8
  assume r: "nr_inv r" and s: "nr_step r c = Some (x, t)"
  note cs = nr_step_cases [OF r s]
  show "(nr_timeout_ms t, nr_slot t i) = (nr_timeout_ms r, nr_slot r i)"
    if "i < kMaxNodes" "registry_target c = Some n" "unat n \<noteq> i"
    using cs that by auto
  show "t = r" if "registry_target c = Some n" "\<not> unat n < kMaxNodes"
    using cs that by auto
  assume r': "nr_inv r'" and s': "nr_step r' c = Some (x', t')" and i: "i < kMaxNodes"
    and same: "(nr_timeout_ms r, nr_slot r i) = (nr_timeout_ms r', nr_slot r' i)"
  note cs' = nr_step_cases [OF r' s']
  show "(nr_timeout_ms t, nr_slot t i) = (nr_timeout_ms t', nr_slot t' i)"
    using cs cs' same i by (elim disjE) auto
  show "x = x'" if "registry_target c = Some n" "unat n = i" using cs cs' that by auto
qed

section \<open>Properties\<close>

lemma run_registry:
  "\<exists>r. run nr_step (NodeRegistry timeout) cs
       = Some (fst (spec_run registry_spec (timeout, \<lambda>_. None) cs), r) \<and>
     nr_abs r = snd (spec_run registry_spec (timeout, \<lambda>_. None) cs) \<and> nr_inv r"
  using registry.run_spec [OF nr_inv_NodeRegistry, of timeout cs] by (simp add: nr_abs_NodeRegistry)

lemma spec_run_timeout: "\<exists>m'. snd (spec_run registry_spec (timeout, m) cs) = (timeout, m')"
proof (induction cs arbitrary: m)
  case (Cons c cs)
  then show ?case by (cases c) (simp_all add: split_beta Let_def)
qed simp

text \<open>
  C21: The registry is a map from node IDs to statuses. Any sequence of observations and
  refreshes, for any node IDs and times, stays inside the arrays, returns what the map
  specification returns, and leaves \<open>get\<close> and \<open>online_count\<close> reading that map.
\<close>

theorem registry_implements_map:
  "\<exists>r m. run nr_step (NodeRegistry timeout) cs
       = Some (fst (spec_run registry_spec (timeout, \<lambda>_. None) cs), r) \<and>
     snd (spec_run registry_spec (timeout, \<lambda>_. None) cs) = (timeout, m) \<and>
     (\<forall>n. nr_get r n = Some (m n)) \<and>
     nr_online_count r = Some (card {n. \<exists>s. m n = Some s \<and> ns_online s})"
proof -
  obtain m where m: "snd (spec_run registry_spec (timeout, \<lambda>_. None) cs) = (timeout, m)"
    using spec_run_timeout by blast
  with run_registry [of timeout cs] show ?thesis
    by (auto simp: nr_abs_def nr_get_in nr_online_count_in)
qed

text \<open>
  What is known of a node between two observations: its last observation, whatever the
  registry did with the \<open>online\<close> flag in between.
\<close>

lemma spec_run_unobserved:
  "m n = Some s \<Longrightarrow> \<forall>c\<in>set cs. registry_target c \<noteq> Some n \<Longrightarrow>
   \<exists>m' b. snd (spec_run registry_spec (timeout, m) cs) = (timeout, m') \<and>
     m' n = Some (s\<lparr>ns_online := b\<rparr>)"
proof (induction cs arbitrary: m s)
  case Nil
  then show ?case by (intro exI [of _ m] exI [of _ "ns_online s"]) simp
next
  case (Cons c cs)
  obtain m1 b where m1: "snd (registry_spec (timeout, m) c) = (timeout, m1)"
    and b: "m1 n = Some (s\<lparr>ns_online := b\<rparr>)"
  proof (cases c)
    case (Observe k sq now)
    then have "snd (registry_spec (timeout, m) c) = (timeout, snd (snd (registry_spec (timeout, m) c)))"
      "snd (snd (registry_spec (timeout, m) c)) n = Some (s\<lparr>ns_online := ns_online s\<rparr>)"
      using Cons.prems by auto
    then show ?thesis by (rule that)
  next
    case (Refresh now)
    with Cons.prems(1) show ?thesis
      by (intro that [of "map_option (aged timeout now) \<circ> m" "now - ns_last_seen_ms s \<le> timeout"])
        (simp_all add: aged_def)
  qed
  from Cons.IH [of m1 "s\<lparr>ns_online := b\<rparr>"] b Cons.prems(2) m1 show ?case by (auto simp: split_beta Let_def)
qed

lemma elapsed_le: "a \<le> b \<Longrightarrow>
    (of_nat b - of_nat a :: u32) \<le> timeout \<longleftrightarrow> (b - a) mod 2 ^ 32 \<le> unat timeout"
  by (simp add: word_le_nat_alt unat_of_nat_diff_u32)



text \<open>
  A node that fell silent comes back by itself. However long ago it was declared
  offline, whenever the silence reaches a multiple of \<open>2^32\<close> milliseconds (about 49.7
  days) plus at most the timeout, a refresh marks it online again.
\<close>

theorem silent_node_resurrected:
  assumes "unat n < kMaxNodes" and "d \<le> unat timeout" and "0 < k"
    and "run nr_step (NodeRegistry timeout)
      [Observe n sq (of_nat t0), Refresh (of_nat (t0 + k * 2 ^ 32 + d))] = Some (xs, r)"
  shows "\<exists>s. nr_get r n = Some (Some s) \<and> ns_online s"
proof -
  have "nr_abs r = snd (spec_run registry_spec (timeout, \<lambda>_. None)
      [Observe n sq (of_nat t0), Refresh (of_nat (t0 + k * 2 ^ 32 + d))])"
    using registry.run_refines [OF nr_inv_NodeRegistry assms(4)] by (simp add: nr_abs_NodeRegistry)
  moreover have "d < 2 ^ 32" using le_less_trans [OF assms(2) unat_u32_less] by simp
  then have "(of_nat (t0 + k * 2 ^ 32 + d) - of_nat t0 :: u32) \<le> timeout"
    using assms(2) by (simp only: elapsed_le) simp
  moreover have "nr_inv r" using registry.run_inv [OF nr_inv_NodeRegistry assms(4)] .
  ultimately show ?thesis
    using assms(1) by (simp add: nr_abs_def nr_get_in aged_def observed_def)
qed

lemma silent_node_resurrected_witness:
  "\<exists>xs r s. run nr_step (NodeRegistry 3000)
      [Observe 2 1 (of_nat 0), Refresh (of_nat (0 + 1 * 2 ^ 32 + 5))] = Some (xs, r) \<and>
    nr_get r 2 = Some (Some s) \<and> ns_online s"
proof -
  obtain xs r where r: "run nr_step (NodeRegistry 3000)
      [Observe 2 1 (of_nat 0), Refresh (of_nat (0 + 1 * 2 ^ 32 + 5))] = Some (xs, r)"
    using run_registry by blast
  have "\<exists>s. nr_get r 2 = Some (Some s) \<and> ns_online s"
    by (rule silent_node_resurrected [OF _ _ _ r]) simp_all
  with r show ?thesis by blast
qed

text \<open>
  Nodes do not interfere. The status of a node after any sequence of calls is its status
  after the calls for that node and the refreshes alone.
\<close>

theorem registry_nodes_independent:
  assumes "run nr_step (NodeRegistry timeout) cs = Some (xs, r)"
    and "run nr_step (NodeRegistry timeout)
      (filter (\<lambda>c. registry_target c \<in> {None, Some n}) cs) = Some (ys, r')"
  shows "nr_get r n = nr_get r' n"
proof (cases "unat n < 32")
  case True
  have "filter (\<lambda>c. registry_target c \<in> {None, Some n}) cs
      = filter (\<lambda>c. case registry_target c of None \<Rightarrow> True | Some k \<Rightarrow> unat k = unat n) cs"
    by (rule filter_cong) (auto split: option.splits)
  with assms have "nr_slot r (unat n) = nr_slot r' (unat n)"
    using registry_table.run_slot_local [OF nr_inv_NodeRegistry nr_inv_NodeRegistry, of "unat n"
        timeout timeout cs xs r ys r'] True by simp
  moreover have "nr_inv r" "nr_inv r'"
    using assms registry.run_inv [OF nr_inv_NodeRegistry] by blast+
  ultimately show ?thesis by (simp add: nr_get_in nr_map_def)
next
  case False
  then show ?thesis by (simp add: nr_get_def)
qed

lemma registry_nodes_independent_witness:
  "\<exists>xs r ys r'. run nr_step (NodeRegistry 50) [Observe 1 1 0, Observe 2 7 60, Refresh 70] = Some (xs, r) \<and>
    run nr_step (NodeRegistry 50) (filter (\<lambda>c. registry_target c \<in> {None, Some 1})
      [Observe 1 1 0, Observe 2 7 60, Refresh 70]) = Some (ys, r') \<and> nr_get r 1 = nr_get r' 1"
proof -
  obtain xs r ys r' where "run nr_step (NodeRegistry 50) [Observe 1 1 0, Observe 2 7 60, Refresh 70]
      = Some (xs, r)" "run nr_step (NodeRegistry 50) (filter (\<lambda>c. registry_target c \<in> {None, Some 1})
      [Observe 1 1 0, Observe 2 7 60, Refresh 70]) = Some (ys, r')"
    using run_registry by meson
  with registry_nodes_independent show ?thesis by blast
qed

end
