(* ===== verification/Heartbeat_Controllers.thy ===== *)
theory Heartbeat_Controllers
  imports Transport_Properties Node_Registry
begin

text \<open>
  The controller sketches \<open>examples/ArduinoHeartbeatController\<close> and
  \<open>examples/ArduinoMultiNodeController\<close>: every 500 ms they read a frame from one node, or from
  each of two, enter it into the registry and re-evaluate which nodes are online.

  \<open>millis()\<close> is an argument of each step, the driver of \<open>Wire\<close> is the parameter of
  \<open>Wire_Transport\<close>; what a turn prints is its result.
\<close>

section \<open>The sketches\<close>

definition kNodeAddress_hc :: u8 where "kNodeAddress_hc = 0x42"
definition kFirstNodeAddress :: u8 where "kFirstNodeAddress = 0x42"
definition kSecondNodeAddress :: u8 where "kSecondNodeAddress = 0x43"
definition kPollIntervalMs :: u32 where "kPollIntervalMs = 500"

text \<open>Both sketches have the globals \<open>registry\<close> and \<open>last_poll_ms\<close>.\<close>

record poll_sketch =
  ps_registry :: node_registry
  ps_last_poll_ms :: u32

definition Poll_sketch :: poll_sketch where
  "Poll_sketch = \<lparr>ps_registry = NodeRegistry 2500, ps_last_poll_ms = 0\<rparr>"

text \<open>One node: the frame that was received, or the number of bytes that were not a frame.\<close>

definition pollNode ::
  "'w two_wire \<Rightarrow> u8 \<Rightarrow> u32 \<Rightarrow> node_registry \<Rightarrow> 'w \<Rightarrow> ((nat + frame) \<times> node_registry \<times> 'w) option" where
  "pollNode tw address now registry w = do {
     (decoded, len, w) \<leftarrow> receive_frame (wire_receive tw address) w;
     if \<not> decode_ok decoded then Some (Inl len, registry, w)
     else do {
       let frame = dr_frame decoded;
       (_, registry) \<leftarrow> nr_observe registry (f_node_id frame) (f_sequence frame) now;
       Some (Inr frame, registry, w)
     }
   }"

text \<open>
  The two \<open>loop\<close> functions; \<open>None\<close> in the result is the early return. The first has the body
  of \<open>pollNode\<close> in line, and no return between it and \<open>refresh\<close>.
\<close>

definition heartbeat_loop ::
  "'w two_wire \<Rightarrow> u32 \<Rightarrow> poll_sketch \<Rightarrow> 'w \<Rightarrow> (((nat + frame) \<times> nat) option \<times> poll_sketch \<times> 'w) option" where
  "heartbeat_loop tw now s w =
     (if now - ps_last_poll_ms s < 500 then Some (None, s, w)
      else do {
        (received, registry, w) \<leftarrow> pollNode tw kNodeAddress_hc now (ps_registry s) w;
        registry \<leftarrow> nr_refresh registry now;
        online \<leftarrow> nr_online_count registry;
        Some (Some (received, online), \<lparr>ps_registry = registry, ps_last_poll_ms = now\<rparr>, w)
      })"

definition multi_node_loop ::
  "'w two_wire \<Rightarrow> u32 \<Rightarrow> poll_sketch \<Rightarrow> 'w \<Rightarrow>
   (((nat + frame) \<times> (nat + frame) \<times> nat) option \<times> poll_sketch \<times> 'w) option" where
  "multi_node_loop tw now s w =
     (if now - ps_last_poll_ms s < kPollIntervalMs then Some (None, s, w)
      else do {
        (first, registry, w) \<leftarrow> pollNode tw kFirstNodeAddress now (ps_registry s) w;
        (second, registry, w) \<leftarrow> pollNode tw kSecondNodeAddress now registry w;
        registry \<leftarrow> nr_refresh registry now;
        online \<leftarrow> nr_online_count registry;
        Some (Some (first, second, online), \<lparr>ps_registry = registry, ps_last_poll_ms = now\<rparr>, w)
      })"

section \<open>What they keep track of\<close>

text \<open>The effect of a received frame on the registry's map; node IDs from 32 on are ignored.\<close>

definition entered :: "u32 \<Rightarrow> nat + frame \<Rightarrow> registry_map \<Rightarrow> registry_map" where
  "entered now received m = (case received of
     Inl len \<Rightarrow> m
   | Inr f \<Rightarrow> if unat (f_node_id f) < kMaxNodes
       then m(f_node_id f \<mapsto> observed (f_node_id f) (f_sequence f) now) else m)"

definition online_nodes :: "registry_map \<Rightarrow> u8 set" where
  "online_nodes m = {n. \<exists>s. m n = Some s \<and> ns_online s}"

definition ps_ok :: "poll_sketch \<Rightarrow> bool" where
  "ps_ok s \<longleftrightarrow> nr_inv (ps_registry s) \<and> nr_timeout_ms (ps_registry s) = 2500"

lemma pollNode_effect:
  assumes tw: "fifo_wire tw buf" and inv: "nr_inv r"
  shows "\<exists>received r' w'. pollNode tw a now r w = Some (received, r', w') \<and> nr_inv r' \<and>
    nr_timeout_ms r' = nr_timeout_ms r \<and> nr_map r' = entered now received (nr_map r)"
proof -
  obtain d len w' where d: "receive_frame (wire_receive tw a) w = Some (d, len, w')"
    using transport.receive_frame_defined [OF wire_transport [OF tw]] by blast
  show ?thesis
  proof (cases "decode_ok d")
    case False
    with d inv show ?thesis by (simp add: pollNode_def entered_def)
  next
    case True
    obtain r' where "nr_step r (Observe (f_node_id (dr_frame d)) (f_sequence (dr_frame d)) now) =
        Some (fst (registry_spec (nr_abs r) (Observe (f_node_id (dr_frame d)) (f_sequence (dr_frame d)) now)), r')"
      "nr_inv r'" "nr_abs r' = snd (registry_spec (nr_abs r) (Observe (f_node_id (dr_frame d)) (f_sequence (dr_frame d)) now))"
      using nr_step_in [OF inv] by blast
    with d True show ?thesis
      by (auto simp: pollNode_def entered_def nr_abs_def split: Option.bind_splits if_splits)
  qed
qed

lemma refresh_effect:
  assumes inv: "nr_inv r"
  shows "\<exists>r'. nr_refresh r now = Some r' \<and> nr_inv r' \<and> nr_timeout_ms r' = nr_timeout_ms r \<and>
    nr_map r' = map_option (aged (nr_timeout_ms r) now) \<circ> nr_map r \<and>
    nr_online_count r' = Some (card (online_nodes (nr_map r')))"
proof -
  obtain r' where "nr_step r (Refresh now) = Some (None, r')" "nr_inv r'"
    "nr_abs r' = (nr_timeout_ms r, map_option (aged (nr_timeout_ms r) now) \<circ> nr_map r)"
    using nr_step_in [OF inv, of "Refresh now"] by (auto simp: nr_abs_def)
  then show ?thesis
    using nr_online_count_in [of r'] by (auto simp: nr_abs_def online_nodes_def split: Option.bind_splits)
qed

lemma heartbeat_loop_effect:
  assumes tw: "fifo_wire tw buf" and ok: "ps_ok s"
  shows "\<exists>x s' w'. heartbeat_loop tw now s w = Some (x, s', w') \<and> ps_ok s' \<and>
    (if now - ps_last_poll_ms s < 500 then x = None \<and> s' = s
     else \<exists>received. x = Some (received, card (online_nodes (nr_map (ps_registry s')))) \<and> ps_last_poll_ms s' = now \<and>
       nr_map (ps_registry s') = map_option (aged 2500 now) \<circ> entered now received (nr_map (ps_registry s)))"
proof (cases "now - ps_last_poll_ms s < 500")
  case True
  with ok show ?thesis by (simp add: heartbeat_loop_def)
next
  case False
  have r: "nr_inv (ps_registry s)" "nr_timeout_ms (ps_registry s) = 2500" using ok by (simp_all add: ps_ok_def)
  obtain received r1 w1 where r1: "pollNode tw kNodeAddress_hc now (ps_registry s) w = Some (received, r1, w1)" "nr_inv r1"
    "nr_timeout_ms r1 = 2500" "nr_map r1 = entered now received (nr_map (ps_registry s))"
    using pollNode_effect [OF tw r(1), of kNodeAddress_hc now w] r(2) by auto
  obtain r2 where "nr_refresh r1 now = Some r2" "nr_inv r2" "nr_timeout_ms r2 = 2500"
    "nr_map r2 = map_option (aged 2500 now) \<circ> nr_map r1" "nr_online_count r2 = Some (card (online_nodes (nr_map r2)))"
    using refresh_effect [OF r1(2), of now] r1(3) by auto
  with r1 False show ?thesis by (simp add: heartbeat_loop_def ps_ok_def)
qed

lemma multi_node_loop_effect:
  assumes tw: "fifo_wire tw buf" and ok: "ps_ok s"
  shows "\<exists>x s' w'. multi_node_loop tw now s w = Some (x, s', w') \<and> ps_ok s' \<and>
    (if now - ps_last_poll_ms s < kPollIntervalMs then x = None \<and> s' = s
     else \<exists>first second. x = Some (first, second, card (online_nodes (nr_map (ps_registry s')))) \<and> ps_last_poll_ms s' = now \<and>
       nr_map (ps_registry s') =
         map_option (aged 2500 now) \<circ> entered now second (entered now first (nr_map (ps_registry s))))"
proof (cases "now - ps_last_poll_ms s < kPollIntervalMs")
  case True
  with ok show ?thesis by (simp add: multi_node_loop_def)
next
  case False
  have r: "nr_inv (ps_registry s)" "nr_timeout_ms (ps_registry s) = 2500" using ok by (simp_all add: ps_ok_def)
  obtain first r1 w1 where r1: "pollNode tw kFirstNodeAddress now (ps_registry s) w = Some (first, r1, w1)" "nr_inv r1"
    "nr_timeout_ms r1 = 2500" "nr_map r1 = entered now first (nr_map (ps_registry s))"
    using pollNode_effect [OF tw r(1), of kFirstNodeAddress now w] r(2) by auto
  obtain second r2 w2 where r2: "pollNode tw kSecondNodeAddress now r1 w1 = Some (second, r2, w2)" "nr_inv r2"
    "nr_timeout_ms r2 = 2500" "nr_map r2 = entered now second (nr_map r1)"
    using pollNode_effect [OF tw r1(2), of kSecondNodeAddress now w1] r1(3) by auto
  obtain r3 where "nr_refresh r2 now = Some r3" "nr_inv r3" "nr_timeout_ms r3 = 2500"
    "nr_map r3 = map_option (aged 2500 now) \<circ> nr_map r2" "nr_online_count r3 = Some (card (online_nodes (nr_map r3)))"
    using refresh_effect [OF r2(2), of now] r2(3) by auto
  with r1 r2 False show ?thesis by (simp add: multi_node_loop_def ps_ok_def)
qed

text \<open>As components: an input is the time and the driver's state when \<open>loop\<close> is entered.\<close>

definition heartbeat_step ::
  "'w two_wire \<Rightarrow> poll_sketch \<Rightarrow> u32 \<times> 'w \<Rightarrow> (((nat + frame) \<times> nat) option \<times> poll_sketch) option" where
  "heartbeat_step tw s i = do { (x, s, _) \<leftarrow> heartbeat_loop tw (fst i) s (snd i); Some (x, s) }"

definition multi_node_step ::
  "'w two_wire \<Rightarrow> poll_sketch \<Rightarrow> u32 \<times> 'w \<Rightarrow> (((nat + frame) \<times> (nat + frame) \<times> nat) option \<times> poll_sketch) option" where
  "multi_node_step tw s i = do { (x, s, _) \<leftarrow> multi_node_loop tw (fst i) s (snd i); Some (x, s) }"

lemma ps_ok_start: "ps_ok Poll_sketch"
  by (simp add: ps_ok_def Poll_sketch_def nr_inv_NodeRegistry) (simp add: NodeRegistry_def)

lemma heartbeat_safe:
  assumes "fifo_wire tw buf"
  shows "safe_component (heartbeat_step tw) ps_ok Poll_sketch"
proof
  show "ps_ok Poll_sketch" by (rule ps_ok_start)
  have t: "\<exists>x s'. heartbeat_step tw s i = Some (x, s') \<and> ps_ok s'" if "ps_ok s" for s i
    using heartbeat_loop_effect [OF assms that, of "fst i" "snd i"] by (auto simp: heartbeat_step_def)
  show "\<exists>x s'. heartbeat_step tw s i = Some (x, s')" if "ps_ok s" for s i using t [OF that] by blast
  show "ps_ok s'" if "ps_ok s" "heartbeat_step tw s i = Some (x, s')" for s i x s'
    using t [OF that(1), of i] that(2) by auto
qed

lemma multi_node_safe:
  assumes "fifo_wire tw buf"
  shows "safe_component (multi_node_step tw) ps_ok Poll_sketch"
proof
  show "ps_ok Poll_sketch" by (rule ps_ok_start)
  have t: "\<exists>x s'. multi_node_step tw s i = Some (x, s') \<and> ps_ok s'" if "ps_ok s" for s i
    using multi_node_loop_effect [OF assms that, of "fst i" "snd i"] by (auto simp: multi_node_step_def)
  show "\<exists>x s'. multi_node_step tw s i = Some (x, s')" if "ps_ok s" for s i using t [OF that] by blast
  show "ps_ok s'" if "ps_ok s" "multi_node_step tw s i = Some (x, s')" for s i x s'
    using t [OF that(1), of i] that(2) by auto
qed

text \<open>What a frame that was just received looks like in the registry, and every other entry.\<close>

lemma entered_refreshed:
  assumes "received = Inr f" and "unat (f_node_id f) < kMaxNodes"
  shows "(map_option (aged 2500 now) \<circ> entered now received m) (f_node_id f) =
    Some \<lparr>ns_node_id = f_node_id f, ns_last_sequence = f_sequence f, ns_last_seen_ms = now, ns_online = True\<rparr>"
  using assms by (simp add: entered_def aged_def observed_def)

lemma entered_other:
  "\<forall>f. received = Inr f \<longrightarrow> f_node_id f \<noteq> n \<Longrightarrow> entered now received m n = m n"
  by (auto simp: entered_def split: sum.split)

text \<open>
  The heartbeat controller lists exactly the nodes it hears. After any number of turns, a
  turn in which the poll is due reads one frame; a padded reply that starts with the encoding of
  a frame is received as that frame; its node (IDs below 32) is then online, with its sequence
  and the current time, every other node's entry is kept and re-evaluated against the 2500 ms
  timeout, and the printed number is the number of nodes that are online.
\<close>

theorem heartbeat_controller_tracks_nodes:
  assumes "fifo_wire tw buf" and "run (heartbeat_step tw) Poll_sketch inputs = Some (outs, s)"
    and "now - ps_last_poll_ms s \<ge> 500"
  shows "\<exists>received online s' w'. heartbeat_loop tw now s w = Some (Some (received, online), s', w') \<and>
    ps_last_poll_ms s' = now \<and>
    (\<forall>f pad m w1. frame_wf f \<longrightarrow> tw_requestFrom tw kNodeAddress_hc (of_nat kMaxEncodedFrameSize) w = (m, w1) \<longrightarrow>
       buf w1 = encoded_bytes f @ pad \<longrightarrow> received = Inr (canon f)) \<and>
    (\<forall>f. received = Inr f \<longrightarrow> unat (f_node_id f) < kMaxNodes \<longrightarrow> nr_get (ps_registry s') (f_node_id f) = Some (Some
       \<lparr>ns_node_id = f_node_id f, ns_last_sequence = f_sequence f, ns_last_seen_ms = now, ns_online = True\<rparr>)) \<and>
    (\<forall>n. (\<forall>f. received = Inr f \<longrightarrow> f_node_id f \<noteq> n) \<longrightarrow>
       nr_get (ps_registry s') n = map_option (map_option (aged 2500 now)) (nr_get (ps_registry s) n)) \<and>
    online = card {n. \<exists>st. nr_get (ps_registry s') n = Some (Some st) \<and> ns_online st}"
proof -
  note safe = heartbeat_safe [OF assms(1)]
  have ok: "ps_ok s" by (rule safe_component.run_inv [OF safe safe_component.inv_start [OF safe] assms(2)])
  obtain received s' w' where s': "heartbeat_loop tw now s w =
      Some (Some (received, card (online_nodes (nr_map (ps_registry s')))), s', w')"
    "ps_ok s'" "ps_last_poll_ms s' = now"
    "nr_map (ps_registry s') = map_option (aged 2500 now) \<circ> entered now received (nr_map (ps_registry s))"
    using heartbeat_loop_effect [OF assms(1) ok, of now w] unfolding if_not_P [OF leD [OF assms(3)]] by blast
  have get: "nr_get (ps_registry s) n = Some (nr_map (ps_registry s) n)"
    "nr_get (ps_registry s') n = Some (nr_map (ps_registry s') n)" for n
    using nr_get_in ok s'(2) by (simp_all add: ps_ok_def)
  have "received = Inr (canon f)" if "frame_wf f" "buf w1 = encoded_bytes f @ pad"
    "tw_requestFrom tw kNodeAddress_hc (of_nat kMaxEncodedFrameSize) w = (m, w1)" for f pad m w1
    using wire_receive_frame_padded [OF assms(1) that(1,3,2)] s'(1)
    unfolding heartbeat_loop_def if_not_P [OF leD [OF assms(3)]]
    by (auto simp: pollNode_def decode_ok_def Let_def split: Option.bind_splits)
  moreover have "nr_get (ps_registry s') (f_node_id f) = Some (Some \<lparr>ns_node_id = f_node_id f,
      ns_last_sequence = f_sequence f, ns_last_seen_ms = now, ns_online = True\<rparr>)"
    if "received = Inr f" "unat (f_node_id f) < kMaxNodes" for f
    using entered_refreshed [OF that] by (simp add: get s'(4) del: comp_apply)
  moreover have "nr_get (ps_registry s') n = map_option (map_option (aged 2500 now)) (nr_get (ps_registry s) n)"
    if "\<forall>f. received = Inr f \<longrightarrow> f_node_id f \<noteq> n" for n
    using entered_other [OF that, of now "nr_map (ps_registry s)"] by (simp add: get s'(4))
  moreover have "card (online_nodes (nr_map (ps_registry s'))) =
      card {n. \<exists>st. nr_get (ps_registry s') n = Some (Some st) \<and> ns_online st}"
    by (simp add: get online_nodes_def)
  ultimately show ?thesis using s'(1,3) by blast
qed

text \<open>A reply for the witnesses: a heartbeat of node 3.\<close>

definition heartbeat_of_3 :: frame where
  "heartbeat_of_3 = Frame\<lparr>f_type := heartbeat, f_node_id := 3, f_sequence := 9\<rparr>"

theorem heartbeat_controller_tracks_nodes_witness:
  "\<exists>online s' w'. heartbeat_loop (list_driver (encoded_bytes heartbeat_of_3 @ replicate 32 0)) 600 Poll_sketch [] =
      Some (Some (Inr (canon heartbeat_of_3), online), s', w') \<and>
    nr_get (ps_registry s') 3 = Some (Some \<lparr>ns_node_id = 3, ns_last_sequence = 9, ns_last_seen_ms = 600, ns_online = True\<rparr>)"
proof -
  let ?tw = "list_driver (encoded_bytes heartbeat_of_3 @ replicate 32 0)"
  have r: "run (heartbeat_step ?tw) Poll_sketch [] = Some ([], Poll_sketch)" "(600 :: u32) - ps_last_poll_ms Poll_sketch \<ge> 500"
    by (simp_all add: Poll_sketch_def)
  have f: "frame_wf heartbeat_of_3" "f_node_id (canon heartbeat_of_3) = 3" "f_sequence (canon heartbeat_of_3) = 9"
    "unat (3 :: u8) < kMaxNodes" by code_simp+
  have q: "tw_requestFrom ?tw kNodeAddress_hc (of_nat kMaxEncodedFrameSize) [] =
      (40, encoded_bytes heartbeat_of_3 @ replicate 32 0)" by code_simp
  obtain received online s' w' where l: "heartbeat_loop ?tw 600 Poll_sketch [] = Some (Some (received, online), s', w')"
    and rec: "\<forall>f pad m w1. frame_wf f \<longrightarrow> tw_requestFrom ?tw kNodeAddress_hc (of_nat kMaxEncodedFrameSize) [] = (m, w1) \<longrightarrow>
       w1 = encoded_bytes f @ pad \<longrightarrow> received = Inr (canon f)"
    and upd: "\<forall>f. received = Inr f \<longrightarrow> unat (f_node_id f) < kMaxNodes \<longrightarrow> nr_get (ps_registry s') (f_node_id f) = Some (Some
       \<lparr>ns_node_id = f_node_id f, ns_last_sequence = f_sequence f, ns_last_seen_ms = 600, ns_online = True\<rparr>)"
    using heartbeat_controller_tracks_nodes [OF fifo_list_driver r, of "[]"] by (elim exE conjE)
  have "received = Inr (canon heartbeat_of_3)" by (rule rec [rule_format, OF f(1) q refl])
  with l upd [rule_format, of "canon heartbeat_of_3", unfolded f(2,3), OF _ f(4)] show ?thesis by blast
qed




end
