(* ===== verification/Heartbeat_System.thy ===== *)
theory Heartbeat_System
  imports Faulty_Properties Heartbeat_Controllers
begin

text \<open>
  The heartbeat controller sketch and the Pico node program on the bus with faults: what the
  registry says of the node, and that it never lists a node that does not exist.
\<close>

text \<open>A turn of the controller; the sketch never writes to the node.\<close>

definition poll_step ::
  "poll_sketch \<times> pico_bus \<Rightarrow> u64 turn_input \<Rightarrow> (((nat + frame) \<times> nat) option \<times> poll_sketch \<times> pico_bus) option" where
  "poll_step s i = heartbeat_loop (faulty_driver (ti_node i) (ti_node' i) (ti_write i) (ti_read i))
     (ti_now_ms i) (fst s) (snd s)"

section \<open>Who a received frame comes from\<close>

text \<open>One changed byte may shorten a padded frame, but it never changes where it comes from.\<close>

lemma read_source_genuine:
  assumes "frame_wf f" and "canonical g"
    and eq: "arrive ft (wire_image f @ pad) = wire_image g @ rest"
  shows "f_node_id g = f_node_id f \<and> f_sequence g = f_sequence f"
proof (cases ft)
  case Fails
  with eq show ?thesis by simp
next
  case Passes
  have "wire_image g ! k = wire_image f ! k" if "k < 8" for k
  proof -
    have "(wire_image g @ rest) ! k = (wire_image f @ pad) ! k" using eq Passes by simp
    with that assms(1,2) show ?thesis by (simp add: nth_append shape canonical_def)
  qed
  from this [of 4] this [of 5] show ?thesis by (simp add: wire_image_nth)
next
  case (Damaged i x)
  have g: "frame_wf g" using assms(2) by (simp add: canonical_def)
  have same: "wire_image g ! k = wire_image f ! k" if "k < 8" "i \<noteq> k" for k
  proof -
    have "(wire_image g @ rest) ! k = (wire_image f @ pad) ! k"
      unfolding eq [symmetric] using that Damaged by simp
    with that assms(1) g show ?thesis by (simp add: nth_append shape)
  qed
  show ?thesis
  proof (cases "i = 6")
    case True
    with same [of 4] same [of 5] show ?thesis by (simp add: wire_image_nth)
  next
    case False
    with same [of 6] have "(of_nat (wire_len g) :: u8) = of_nat (wire_len f)" by (simp add: wire_image_nth)
    then have "wire_len f = wire_len g" by (metis unat_wire_len)
    from arrive_padded [OF assms(1) g _ eq this] Damaged have "wire_image g = wire_image f" by simp
    then show ?thesis by (metis wire_image_nth(5,6))
  qed
qed

lemma truthful_source:
  assumes "truthful n R f"
  shows "f_node_id f = n"
proof -
  have "f_node_id g = n" if "heartbeat_frame n s t = Some g" for s t g
    using heartbeat_frame_eq [of n s t] that by auto
  with assms show ?thesis by (auto simp: truthful_def make_ack_frame_eq)
qed

text \<open>Only bytes of the node's frame come out of a read: nothing else has the magic byte.\<close>

lemma faulty_frame:
  assumes "pico_honest G w" and "receive_frame (wire_receive (faulty_driver t t' fw fr) addr) w = Some (r, n, w')"
  shows "pico_honest G w'" and "decode_ok r \<Longrightarrow> f_node_id (dr_frame r) = kNodeId"
    and "fr = Passes \<Longrightarrow> decode_ok r" and "fr = Fails \<Longrightarrow> \<not> decode_ok r"
proof -
  let ?ev = "Turn t t' # read_of fr"
  show "pico_honest G w'" using faulty_receive [OF assms] by blast
  obtain R f where w1: "truthful kNodeId R f"
    "arrive fr (take 40 (concat (map app_served (fst (at_node ?ev w))))) =
      arrive fr (wire_image f @ replicate (40 - length (wire_image f)) 0)"
    using faulty_request [OF assms(1) refl, of t t' fr] by blast
  obtain m w2 where req: "tw_requestFrom (faulty_driver t t' fw fr) addr 40 w = (m, w2)" by (metis prod.exhaust)
  then have rx: "pb_rx w2 = arrive fr (wire_image f @ replicate (40 - length (wire_image f)) 0)" "m = length (pb_rx w2)"
    using w1(2) by (auto simp: faulty_driver_def read_of_def split_beta Let_def)
  note f = truthful_frame [OF w1(1)]
  then have len: "length (wire_image f) \<le> 40" using wire_len_le [of f] by (simp add: shape)
  have head: "\<exists>rest. pb_rx w2 @ replicate (40 - m) 0 = wire_image (dr_frame r) @ rest \<and> canonical (dr_frame r)"
    if "decode_ok r" using wire_receive_frame_accepted [OF fifo_faulty_driver req assms(2) that] .
  show no: "\<not> decode_ok r" if "fr = Fails"
    using faulty_read_fails assms(2) unfolding that by blast
  show "f_node_id (dr_frame r) = kNodeId" if "decode_ok r"
  proof -
    have fr: "fr \<noteq> Fails" using no that by blast
    then have "m = 40" using rx len by (cases fr) simp_all
    with head [OF that] rx(1) obtain rest where
      g: "arrive fr (wire_image f @ replicate (40 - length (wire_image f)) 0) = wire_image (dr_frame r) @ rest"
      "canonical (dr_frame r)" by auto
    from read_source_genuine [OF _ g(2,1)] f truthful_source [OF w1(1)] show ?thesis by simp
  qed
  show "decode_ok r" if "fr = Passes"
    using receive_passes [OF assms(1) assms(2)[unfolded that] w1(2)[unfolded that] w1(1)] by simp
qed

section \<open>The registry\<close>

text \<open>The map that the controller keeps: nothing, or an entry of node 0.\<close>

definition only_node :: "registry_map \<Rightarrow> bool" where
  "only_node m \<longleftrightarrow> (\<forall>n. n \<noteq> kNodeId \<longrightarrow> m n = None)"

lemma poll_turn:
  assumes ok: "ps_ok s" and honest: "pico_honest G w" and only: "only_node (nr_map (ps_registry s))"
  shows "\<exists>x s' w'. poll_step (s, w) i = Some (x, s', w') \<and> ps_ok s' \<and> pico_honest G w' \<and> only_node (nr_map (ps_registry s')) \<and>
    (ti_now_ms i - ps_last_poll_ms s \<ge> 500 \<longrightarrow> (\<exists>received. x = Some (received, card (online_nodes (nr_map (ps_registry s')))) \<and>
       (\<forall>f. received = Inr f \<longrightarrow> f_node_id f = kNodeId) \<and>
       (ti_read i = Passes \<longrightarrow> (\<exists>f. received = Inr f)) \<and> (ti_read i = Fails \<longrightarrow> (\<exists>l. received = Inl l)) \<and>
       nr_map (ps_registry s') = map_option (aged 2500 (ti_now_ms i)) \<circ> entered (ti_now_ms i) received (nr_map (ps_registry s))))"
proof -
  let ?now = "ti_now_ms i" and ?tw = "faulty_driver (ti_node i) (ti_node' i) (ti_write i) (ti_read i)"
  obtain x s' w' where t: "heartbeat_loop ?tw ?now s w = Some (x, s', w')" "ps_ok s'"
    "if ?now - ps_last_poll_ms s < 500 then x = None \<and> s' = s
     else \<exists>received. x = Some (received, card (online_nodes (nr_map (ps_registry s')))) \<and> ps_last_poll_ms s' = ?now \<and>
       nr_map (ps_registry s') = map_option (aged 2500 ?now) \<circ> entered ?now received (nr_map (ps_registry s))"
    using heartbeat_loop_effect [OF fifo_faulty_driver ok] by blast
  show ?thesis
  proof (cases "?now - ps_last_poll_ms s < 500")
    case True
    then have "\<not> 500 \<le> ?now - ps_last_poll_ms s" "w' = w" using t(1) by (auto simp: heartbeat_loop_def)
    with True t honest only show ?thesis by (simp add: poll_step_def)
  next
    case False
    with t(3) obtain received where x: "x = Some (received, card (online_nodes (nr_map (ps_registry s'))))"
      "nr_map (ps_registry s') = map_option (aged 2500 ?now) \<circ> entered ?now received (nr_map (ps_registry s))"
      by auto
    obtain r n w1 where r: "receive_frame (wire_receive ?tw kNodeAddress_hc) w = Some (r, n, w1)"
      "received = (if decode_ok r then Inr (dr_frame r) else Inl n)" "w' = w1"
      using t(1) False x(1)
      by (auto simp: heartbeat_loop_def pollNode_def Let_def split: if_splits Option.bind_splits)
    note src = faulty_frame [OF honest r(1)]
    have node: "f_node_id f = kNodeId" if "received = Inr f" for f using that r(2) src(2) by (auto split: if_splits)
    have "only_node (nr_map (ps_registry s'))"
      using only node by (auto simp: x(2) only_node_def entered_def split: sum.split)
    with t(1,2) x src(1,3,4) r(2,3) node show ?thesis by (auto simp: poll_step_def)
  qed
qed

lemma poll_runs:
  "ps_ok s \<Longrightarrow> pico_honest G w \<Longrightarrow> only_node (nr_map (ps_registry s)) \<Longrightarrow>
   \<exists>outs s' w'. run poll_step (s, w) inputs = Some (outs, s', w') \<and> ps_ok s' \<and> pico_honest G w' \<and>
     only_node (nr_map (ps_registry s'))"
proof (induction inputs arbitrary: s w)
  case Nil
  then show ?case by simp
next
  case (Cons i inputs)
  obtain x s1 w1 where 1: "poll_step (s, w) i = Some (x, s1, w1)" "ps_ok s1" "pico_honest G w1" "only_node (nr_map (ps_registry s1))"
    using poll_turn [OF Cons.prems] by blast
  from Cons.IH [OF this(2-4)] 1(1) show ?case by auto
qed



end
