(* ===== verification/Fuzz_Harness.thy ===== *)
theory Fuzz_Harness
  imports Stream_Decoder
begin

text \<open>
  The invariants that the repository fuzzes for (\<open>tests/fuzz_frame_decoder.cpp\<close>), as a
  function on every input: \<open>None\<close> is undefined behaviour, \<open>Some False\<close> a call of
  \<open>invariant_failure()\<close>, \<open>Some True\<close> the normal return.
\<close>

section \<open>The harness\<close>

fun payload_equal_loop :: "frame \<Rightarrow> frame \<Rightarrow> nat \<Rightarrow> nat \<Rightarrow> bool option" where
  "payload_equal_loop l r i 0 = Some True"
| "payload_equal_loop l r i (Suc n) = do {
     a \<leftarrow> rd (f_payload l) i;
     b \<leftarrow> rd (f_payload r) i;
     if a \<noteq> b then Some False else payload_equal_loop l r (Suc i) n
   }"

definition frames_equal :: "frame \<Rightarrow> frame \<Rightarrow> bool option" where
  "frames_equal l r =
     (if f_type l \<noteq> f_type r \<or> f_flags l \<noteq> f_flags r \<or> f_node_id l \<noteq> f_node_id r \<or>
         f_sequence l \<noteq> f_sequence r \<or> f_payload_length l \<noteq> f_payload_length r
      then Some False
      else payload_equal_loop l r 0 (unat (f_payload_length l)))"

text \<open>The checks of the strict decoder and the prefix inspector on the whole input.\<close>

definition fuzz_strict :: "byte_ptr \<Rightarrow> nat \<Rightarrow> bool option" where
  "fuzz_strict data sz = do {
     exact \<leftarrow> decode_frame data sz;
     prefix_length \<leftarrow> frame_length_from_prefix data sz;
     if prefix_length > sz \<or> prefix_length > kMaxEncodedFrameSize then Some False
     else if decode_ok exact then
       if prefix_length \<noteq> sz then Some False
       else do {
         reencoded \<leftarrow> encode_frame (dr_frame exact);
         round_trip \<leftarrow> decode_encoded reencoded;
         same \<leftarrow> (if decode_ok round_trip then frames_equal (dr_frame exact) (dr_frame round_trip)
                 else Some False);
         Some same
       }
     else Some True
   }"

text \<open>The loop that feeds the input to a stream decoder, from index \<open>i\<close>, \<open>n\<close> bytes.\<close>

fun fuzz_stream_loop :: "u8 list \<Rightarrow> nat \<Rightarrow> nat \<Rightarrow> stream_decoder \<Rightarrow> (bool \<times> stream_decoder) option" where
  "fuzz_stream_loop data i 0 stream = Some (True, stream)"
| "fuzz_stream_loop data i (Suc n) stream = do {
     b \<leftarrow> rd data i;
     (result, stream) \<leftarrow> feed stream b;
     if buffered_size stream > kMaxEncodedFrameSize then Some (False, stream)
     else if sr_status result = Frame_ready then do {
       encoded \<leftarrow> encode_frame (sr_frame result);
       decoded \<leftarrow> decode_encoded encoded;
       if \<not> decode_ok decoded then Some (False, stream)
       else fuzz_stream_loop data (Suc i) n stream
     }
     else fuzz_stream_loop data (Suc i) n stream
   }"

definition LLVMFuzzerTestOneInput :: "byte_ptr \<Rightarrow> nat \<Rightarrow> bool option" where
  "LLVMFuzzerTestOneInput data sz = do {
     strict_ok \<leftarrow> fuzz_strict data sz;
     if \<not> strict_ok then Some False
     else do {
       (stream_ok, stream) \<leftarrow> (case data of
          Some bs \<Rightarrow> fuzz_stream_loop bs 0 sz StreamDecoder
        | None \<Rightarrow> if sz = 0 then Some (True, StreamDecoder) else None);
       Some (stream_ok \<and> buffered_size (sd_reset stream) = 0)
     }
   }"

section \<open>It never fails\<close>

lemma payload_equal_loop_refl:
  "i + n \<le> length (f_payload f) \<Longrightarrow> payload_equal_loop f f i n = Some True"
  by (induction n arbitrary: i) (simp_all add: ub_simps)

lemma frames_equal_refl: "canonical f \<Longrightarrow> frames_equal f f = Some True"
  by (simp add: frames_equal_def canonical_def frame_wf_def payload_equal_loop_refl)

lemma reencode_canonical:
  assumes "canonical f"
  shows "\<exists>e. encode_frame f = Some e \<and> decode_encoded e = Some \<lparr>dr_frame = f, dr_error = No_error\<rparr>"
proof -
  have wf: "frame_wf f" using assms by (simp add: canonical_def)
  with assms show ?thesis
    using encode_frame_spec [OF wf] decode_encoded_spec [OF wf] canon_canonical by auto
qed

lemma fuzz_strict_ok:
  assumes "n \<le> length bs"
  shows "fuzz_strict (Some bs) n = Some True"
proof -
  have p: "prefix_spec (take n bs) \<le> n" "prefix_spec (take n bs) \<le> 40"
    using le_trans [OF prefix_spec_bounds(1), of "take n bs" n] prefix_spec_bounds(2) by simp_all
  show ?thesis
  proof (cases "decode_spec (take n bs)")
    case (Inl e)
    with p assms show ?thesis
      using decode_spec_not_No_error [of "take n bs"]
      by (simp add: fuzz_strict_def frame_length_from_prefix_spec decode_frame_spec decode_ok_def)
  next
    case (Inr f)
    then have "canonical f" by (simp add: decode_spec_iff)
    moreover have "prefix_spec (take n bs) = n" using prefix_spec_decoded [OF Inr] assms by simp
    ultimately show ?thesis
      using reencode_canonical [of f] frames_equal_refl [of f] Inr assms p
      by (auto simp: fuzz_strict_def frame_length_from_prefix_spec decode_frame_spec)
  qed
qed

lemma fuzz_stream_loop_ok:
  "sd_inv d \<Longrightarrow> i + n \<le> length bs \<Longrightarrow> \<exists>d'. fuzz_stream_loop bs i n d = Some (True, d')"
proof (induction n arbitrary: i d)
  case 0
  then show ?case by simp
next
  case (Suc n)
  obtain x d' where x: "feed d (bs ! i) = Some (x, d')" "sd_inv d'"
    using stream.step_total [OF Suc.prems(1)] by blast
  then have r: "x = fst (stream_spec (sd_pending d) (bs ! i))"
    using stream.step_refines [OF Suc.prems(1)] by (metis fst_conv)
  have size: "\<not> buffered_size d' > 40" using x(2) by (simp add: sd_inv_def buffered_size_def)
  have "canonical (sr_frame x)" if "sr_status x = Frame_ready"
    using stream_spec_ready [of "sd_pending d" "bs ! i"] that r by (simp add: decode_spec_iff)
  with reencode_canonical [of "sr_frame x"]
  have enc: "sr_status x = Frame_ready \<Longrightarrow>
      \<exists>e. encode_frame (sr_frame x) = Some e \<and>
          decode_encoded e = Some \<lparr>dr_frame = sr_frame x, dr_error = No_error\<rparr>" by blast
  from Suc.IH [OF x(2), of "Suc i"] Suc.prems x size enc show ?case
    by (cases "sr_status x = Frame_ready") (auto simp: ub_simps)
qed

text \<open>
  C32: The fuzz target never reports a failure. On every input, the strict decoder and the
  prefix inspector agree (a decoded buffer's prefix length is its size), decoding round-trips, the
  stream decoder stays within its buffer and every frame it delivers can be encoded and decoded
  again, and \<open>reset\<close> leaves nothing buffered; no read leaves the input.
\<close>

theorem fuzz_target_never_fails:
  assumes "n \<le> length bs"
  shows "LLVMFuzzerTestOneInput (Some bs) n = Some True \<and> LLVMFuzzerTestOneInput None 0 = Some True"
proof
  obtain d where "fuzz_stream_loop bs 0 n StreamDecoder = Some (True, d)"
    using fuzz_stream_loop_ok [OF sd_inv_StreamDecoder, of 0 n bs] assms by auto
  with fuzz_strict_ok [OF assms] show "LLVMFuzzerTestOneInput (Some bs) n = Some True"
    by (simp add: LLVMFuzzerTestOneInput_def buffered_size_def sd_reset_def)
  show "LLVMFuzzerTestOneInput None 0 = Some True"
    by (simp add: LLVMFuzzerTestOneInput_def fuzz_strict_def decode_ok_def buffered_size_def sd_reset_def)
qed

theorem fuzz_target_never_fails_witness:
  "LLVMFuzzerTestOneInput (Some [0xB7, 1, 2, 0, 0, 0, 0, 0x46, 0xB7]) 8 = Some True"
  using fuzz_target_never_fails [of 8 "[0xB7, 1, 2, 0, 0, 0, 0, 0x46, 0xB7]"] by simp

end
