(* ===== verification/Host_Examples.thy ===== *)
theory Host_Examples
  imports Stream_Decoder Node_Registry Reliability
begin

text \<open>
  The host programs under \<open>examples/\<close>: each \<open>main\<close> as a function of its exit code, with the
  values that it prints where they carry its point. \<open>None\<close> is undefined behaviour or a loop
  that does not end.
\<close>

section \<open>\<open>frame_codec_example.cpp\<close>\<close>

definition codec_example_frame :: "frame option" where
  "codec_example_frame = do {
     payload \<leftarrow> wr (f_payload Frame) 0 0x2a;
     payload \<leftarrow> wr payload 1 0x01;
     Some (Frame\<lparr>f_type := state, f_node_id := 4, f_sequence := 9, f_payload_length := 2,
                 f_payload := payload\<rparr>)
   }"

definition frame_codec_example_main :: "int option" where
  "frame_codec_example_main = do {
     frame \<leftarrow> codec_example_frame;
     encoded \<leftarrow> encode_frame frame;
     decoded \<leftarrow> decode_encoded encoded;
     if \<not> decode_ok decoded then Some 1
     else if f_node_id (dr_frame decoded) \<noteq> f_node_id frame \<or>
             f_sequence (dr_frame decoded) \<noteq> f_sequence frame \<or>
             f_payload_length (dr_frame decoded) \<noteq> f_payload_length frame
     then Some 2
     else Some 0
   }"

section \<open>\<open>host_simulator.cpp\<close>\<close>

text \<open>The exit code and the two printed numbers of online nodes.\<close>

definition host_simulator_main :: "(int \<times> nat list) option" where
  "host_simulator_main = do {
     encoded \<leftarrow> encode_frame (Frame\<lparr>f_type := heartbeat, f_node_id := 3, f_sequence := 1\<rparr>);
     decoded \<leftarrow> decode_encoded encoded;
     if \<not> decode_ok decoded then Some (1, [])
     else do {
       (_, registry) \<leftarrow> nr_observe (NodeRegistry 3000) (f_node_id (dr_frame decoded))
         (f_sequence (dr_frame decoded)) 1000;
       registry \<leftarrow> nr_refresh registry 2500;
       online \<leftarrow> nr_online_count registry;
       registry \<leftarrow> nr_refresh registry 4501;
       late \<leftarrow> nr_online_count registry;
       Some (0, [online, late])
     }
   }"

section \<open>\<open>reliable_queue_example.cpp\<close>\<close>

definition example_command :: "u8 \<Rightarrow> u8 \<Rightarrow> frame option" where
  "example_command node sequence = do {
     payload \<leftarrow> wr (f_payload Frame) 0 0x55;
     Some (Frame\<lparr>f_type := command, f_node_id := node, f_sequence := sequence, f_payload_length := 1,
                 f_payload := payload\<rparr>)
   }"

definition reliable_queue_example_main :: "int option" where
  "reliable_queue_example_main = do {
     cmd \<leftarrow> example_command 2 11;
     let queue = ReliableQueue \<lparr>rp_timeout_ms = 100, rp_max_attempts = 3\<rparr>;
     let (queued, queue) = enqueue queue cmd 0;
     if queued \<noteq> Queued then Some 1
     else let (first, queue) = next_due queue 0 in
     if td_action first \<noteq> Tx_send \<or> td_attempts first \<noteq> 1 then Some 2
     else let (early, queue) = next_due queue 99 in
     if td_action early \<noteq> Tx_none then Some 3
     else let (retry, queue) = next_due queue 100 in
     if td_action retry \<noteq> Tx_send \<or> td_attempts retry \<noteq> 2 then Some 4
     else let (resolution, queue) = acknowledge queue (f_node_id cmd) (f_sequence cmd) ack_accepted in
     if resolution \<noteq> Resolved_accepted \<or> pending_count queue \<noteq> 0 then Some 5
     else Some 0
   }"

section \<open>\<open>lossy_link_simulator.cpp\<close>\<close>

text \<open>
  The loop: its result is the number of transmissions and the times at which they were made.
  The first packet is dropped, every later one is acknowledged.
\<close>

partial_function (option) lossy_loop ::
  "reliable_queue \<Rightarrow> u32 \<Rightarrow> u32 \<Rightarrow> u32 list \<Rightarrow> (u32 \<times> u32 list) option" where
  "lossy_loop queue now_ms sent stamps =
     (if pending_count queue = 0 then Some (sent, stamps)
      else
        let (decision, queue) = next_due queue now_ms;
            sent' = (if td_action decision = Tx_send then sent + 1 else sent);
            stamps' = (if td_action decision = Tx_send then stamps @ [now_ms] else stamps);
            queue = (if td_action decision = Tx_send \<and> sent' \<noteq> 1
                     then snd (acknowledge queue (f_node_id (td_frame decision))
                                 (f_sequence (td_frame decision)) ack_accepted)
                     else queue)
        in lossy_loop queue (now_ms + 50) sent' stamps')"

definition lossy_link_simulator_main :: "(int \<times> u32 list) option" where
  "lossy_link_simulator_main = do {
     cmd \<leftarrow> example_command 4 17;
     let (queued, queue) = enqueue (ReliableQueue \<lparr>rp_timeout_ms = 200, rp_max_attempts = 3\<rparr>) cmd 0;
     if queued \<noteq> Queued then Some (1, [])
     else do {
       (sent, stamps) \<leftarrow> lossy_loop queue 0 0 [];
       Some (if sent = 2 then 0 else 1, stamps)
     }
   }"

section \<open>\<open>malformed_link_simulator.cpp\<close>\<close>

text \<open>\<open>feed(decoder, bytes, length)\<close>: the result of the last byte, a default result for none.\<close>

fun feed_bytes :: "stream_decoder \<Rightarrow> u8 list \<Rightarrow> stream_result \<Rightarrow> (stream_result \<times> stream_decoder) option" where
  "feed_bytes d [] r = Some (r, d)"
| "feed_bytes d (b # bs) r = do { (r, d) \<leftarrow> feed d b; feed_bytes d bs r }"

definition expect :: "stream_result \<Rightarrow> stream_status \<Rightarrow> decode_error \<Rightarrow> bool" where
  "expect r status err \<longleftrightarrow> sr_status r = status \<and> sr_error r = err"

text \<open>One scenario after another: bytes, expected outcome, exit code when it differs.\<close>

fun scenarios ::
  "stream_decoder \<Rightarrow> (u8 list \<times> stream_status \<times> decode_error \<times> int) list \<Rightarrow> nat \<Rightarrow> nat \<Rightarrow> int option" where
  "scenarios d [] n_ready n_errors = Some (if n_ready = 4 \<and> n_errors = 3 then 0 else 9)"
| "scenarios d ((bs, status, err, code) # rest) n_ready n_errors = do {
     (r, d) \<leftarrow> feed_bytes d bs StreamResult;
     if \<not> expect r status err then Some code
     else scenarios d rest (n_ready + (if status = Frame_ready then 1 else 0))
            (n_errors + (if status = Frame_error then 1 else 0))
   }"

definition malformed_link_simulator_main :: "int option" where
  "malformed_link_simulator_main = do {
     payload \<leftarrow> wr (f_payload Frame) 0 0x42;
     payload \<leftarrow> wr payload 1 0x99;
     encoded \<leftarrow> encode_frame (Frame\<lparr>f_type := state, f_node_id := 5, f_sequence := 23,
                                     f_payload_length := 2, f_payload := payload\<rparr>);
     let valid = take (ef_length encoded) (ef_bytes encoded);
     last_byte \<leftarrow> rd (ef_bytes encoded) (ef_length encoded - 1);
     bad \<leftarrow> wr (ef_bytes encoded) (ef_length encoded - 1) (last_byte XOR 0x01);
     let bad_checksum = take (ef_length encoded) bad;
     scenarios StreamDecoder
       [([0x00], Discarded, Bad_magic, 1),
        (valid, Frame_ready, No_error, 2),
        (bad_checksum, Frame_error, Bad_checksum, 3),
        (valid, Frame_ready, No_error, 4),
        ([kFrameMagic, kProtocolVersion + 1], Frame_error, Unsupported_version, 5),
        (valid, Frame_ready, No_error, 6),
        ([kFrameMagic, kProtocolVersion, type_byte state, 0, 5, 24, of_nat (kMaxPayloadSize + 1)],
         Frame_error, Payload_too_large, 7),
        (valid, Frame_ready, No_error, 8)] 0 0
   }"

section \<open>They all succeed\<close>

text \<open>The three kinds of turns of the loop that this run takes, and its end.\<close>

lemma lossy_turns:
  "pending_count q = 0 \<Longrightarrow> lossy_loop q now sent l = Some (sent, l)"
  "pending_count q \<noteq> 0 \<Longrightarrow> next_due q now = (TxDecision, q') \<Longrightarrow>
     lossy_loop q now sent l = lossy_loop q' (now + 50) sent l"
  "pending_count q \<noteq> 0 \<Longrightarrow> next_due q now = (d, q') \<Longrightarrow> td_action d = Tx_send \<Longrightarrow>
     lossy_loop q now 0 l = lossy_loop q' (now + 50) 1 (l @ [now])"
  "pending_count q \<noteq> 0 \<Longrightarrow> next_due q now = (d, q') \<Longrightarrow> td_action d = Tx_send \<Longrightarrow>
     acknowledge q' (f_node_id (td_frame d)) (f_sequence (td_frame d)) ack_accepted = (r, q'') \<Longrightarrow>
     lossy_loop q now 1 l = lossy_loop q'' (now + 50) 2 (l @ [now])"
  by (simp_all add: lossy_loop.simps [of q now sent l] lossy_loop.simps [of q now 0 l]
      lossy_loop.simps [of q now 1 l] TxDecision_def)

lemma lossy_run:
  assumes q: "q = ReliableQueue \<lparr>rp_timeout_ms = 200, rp_max_attempts = 3\<rparr>"
  shows "lossy_loop (snd (enqueue q (the (example_command 4 17)) 0)) 0 0 [] = Some (2, [0, 200])"
proof -
  let ?q0 = "snd (enqueue (ReliableQueue \<lparr>rp_timeout_ms = 200, rp_max_attempts = 3\<rparr>) (the (example_command 4 17)) 0)"
  let ?q1 = "snd (next_due ?q0 0)"
  let ?q2 = "snd (next_due ?q1 200)"
  let ?q3 = "snd (acknowledge ?q2 4 17 ack_accepted)"
  have "pending_count ?q0 \<noteq> 0" "next_due ?q0 0 = (fst (next_due ?q0 0), ?q1)"
    "td_action (fst (next_due ?q0 0)) = Tx_send" by code_simp+
  note first = lossy_turns(3) [OF this]
  have waiting: "pending_count ?q1 \<noteq> 0" "next_due ?q1 50 = (TxDecision, ?q1)" "next_due ?q1 100 = (TxDecision, ?q1)"
    "next_due ?q1 150 = (TxDecision, ?q1)" by code_simp+
  have "next_due ?q1 200 = (fst (next_due ?q1 200), ?q2)" "td_action (fst (next_due ?q1 200)) = Tx_send"
    by code_simp+
  note second = lossy_turns(4) [OF waiting(1) this]
  have acked: "acknowledge ?q2 (f_node_id (td_frame (fst (next_due ?q1 200))))
      (f_sequence (td_frame (fst (next_due ?q1 200)))) ack_accepted =
      (fst (acknowledge ?q2 4 17 ack_accepted), ?q3)" "pending_count ?q3 = 0" by code_simp+
  have "lossy_loop ?q0 0 0 [] = lossy_loop ?q1 50 1 [0]" using first by simp
  also have "\<dots> = lossy_loop ?q1 100 1 [0]" using lossy_turns(2) [OF waiting(1,2)] by simp
  also have "\<dots> = lossy_loop ?q1 150 1 [0]" using lossy_turns(2) [OF waiting(1,3)] by simp
  also have "\<dots> = lossy_loop ?q1 200 1 [0]" using lossy_turns(2) [OF waiting(1,4)] by simp
  also have "\<dots> = lossy_loop ?q3 250 2 [0, 200]" using second [OF acked(1)] by simp
  also have "\<dots> = Some (2, [0, 200])" by (rule lossy_turns(1) [OF acked(2)])
  finally show ?thesis unfolding q .
qed

lemma lossy_main: "lossy_link_simulator_main = Some (0, [0, 200])"
proof -
  let ?q = "ReliableQueue \<lparr>rp_timeout_ms = 200, rp_max_attempts = 3\<rparr>"
  have c: "example_command 4 17 = Some (the (example_command 4 17))" and
    e: "fst (enqueue ?q (the (example_command 4 17)) 0) = Queued" by code_simp+
  show ?thesis
    unfolding lossy_link_simulator_main_def
    by (subst c) (simp add: split_beta e lossy_run [OF refl])
qed

text \<open>
  The five host programs run to their end with exit code 0. The simulated link loses the
  first transmission at 0 ms and the command is sent again at 200 ms, the policy's timeout; the
  heartbeat's node, seen at 1000 ms, is online at 2500 ms and offline at 4501 ms, the timeout being
  3000 ms.
\<close>

theorem host_programs_succeed:
  "frame_codec_example_main = Some 0 \<and> host_simulator_main = Some (0, [1, 0]) \<and>
   reliable_queue_example_main = Some 0 \<and> lossy_link_simulator_main = Some (0, [0, 200]) \<and>
   malformed_link_simulator_main = Some 0"
proof (intro conjI)
  show "frame_codec_example_main = Some 0" by code_simp
  show "host_simulator_main = Some (0, [1, 0])" by code_simp
  show "reliable_queue_example_main = Some 0" by code_simp
  show "lossy_link_simulator_main = Some (0, [0, 200])" by (rule lossy_main)
  show "malformed_link_simulator_main = Some 0" by code_simp
qed

end
