(* ===== verification/Version.thy ===== *)
theory Version
  imports Picomesh_Prelude
begin

text \<open>
  The constants of \<open>include/picomesh/version.h\<close>, and that the string and the numbers agree.
\<close>

definition version_major :: u32 where "version_major = 0"
definition version_minor :: u32 where "version_minor = 1"
definition version_patch :: u32 where "version_patch = 0"
definition version_string :: string where "version_string = ''0.1.0''"

fun decimal :: "nat \<Rightarrow> string" where
  "decimal n = (if n < 10 then [char_of (48 + n)] else decimal (n div 10) @ [char_of (48 + n mod 10)])"

lemma version_string_agrees:
  "version_string =
     decimal (unat version_major) @ ''.'' @ decimal (unat version_minor) @ ''.'' @ decimal (unat version_patch)"
  by code_simp

end
