(* ===== verification/Spec2Isabelle.thy ===== *)
theory Spec2Isabelle
  imports Stream_Decoder Sequence_Tracker Pico_Bus Arduino_Bus Node_Guarantees Sketch_Guarantees
    Faulty_Properties Arduino_Faults Heartbeat_System Fuzz_Harness Host_Examples Version
begin

text \<open>
  PicoMesh: a frame protocol for small networks of microcontrollers, and its ports to the Pico
  SDK and to Arduino.

  \<^bold>\<open>The program and its theories.\<close> A frame (\<open>include/picomesh/frame.h\<close>, \<open>src/frame.cpp\<close>) is a 7-byte
  header, up to 32 bytes of payload and a checksum byte (\<open>src/checksum.cpp\<close>). Every component has
  a theory that holds its code and, in the same or the next theory, its specification and lemmas.

  \<^item> \<open>Picomesh_Prelude\<close>: arrays whose accesses are checked (\<open>rd\<close>, \<open>wr\<close>, \<open>copy_n\<close>), runs of components,
    the interfaces \<open>safe_component\<close> and \<open>refined_component\<close>, bytes. Outside an array the model
    answers \<open>None\<close>, which stands for undefined behaviour throughout; a theorem with \<open>Some\<close> on the
    right says that no access leaves its array.
  \<^item> \<open>Checksum\<close>, \<open>Frame_Codec\<close>, \<open>Wire_Format\<close>: \<open>checksum8\<close>, \<open>encode_frame\<close>, \<open>decode_frame\<close>,
    \<open>frame_length_from_prefix\<close>, and the wire image that they implement (locale \<open>delimited_codec\<close>).
  \<^item> \<open>Stream_Decoder\<close>: \<open>StreamDecoder\<close> (\<open>src/stream_decoder.cpp\<close>), refined to a machine on lists.
  \<^item> \<open>Node_Table\<close>, \<open>Node_Registry\<close>, \<open>Sequence_Tracker\<close>: the tables of 32 nodes of
    \<open>src/node_registry.cpp\<close> and \<open>src/sequence_tracker.cpp\<close>, as maps from node IDs.
  \<^item> \<open>Reliability\<close>, \<open>Retry_Queue\<close>, \<open>Retry_Properties\<close>: acknowledgements and \<open>ReliableQueue\<close>
    (\<open>src/reliability.cpp\<close>); the slots implement a map moved by the rules \<open>queue_rel\<close>, and the
    locale \<open>scheduler\<close> gives the order of transmissions.
  \<^item> \<open>Transport\<close>, \<open>Wire_Transport\<close>, \<open>Transport_Properties\<close>: \<open>include/picomesh/transport.h\<close> as the
    locale \<open>transport\<close>, and its implementations \<open>I2cControllerTransport\<close>, \<open>UartTransport\<close>
    (\<open>ports/pico-sdk/picomesh_pico_transport.cpp\<close>) and \<open>WireControllerTransport\<close>
    (\<open>src/arduino/wire_transport.cpp\<close>).
  \<^item> \<open>Pico_Endpoint\<close>, \<open>Pico_Mailbox\<close>, \<open>Pico_Properties\<close>, \<open>Pico_Attach\<close>: the interrupt-driven
    \<open>I2cPeripheralEndpoint\<close> of the Pico port. \<open>node_step\<close> interleaves the interrupt handler with
    the main program between any two bytes that \<open>publish\<close> copies.
  \<^item> \<open>Wire_Endpoint\<close>: the callback-driven \<open>WirePeripheralEndpoint\<close> of the Arduino port. \<open>wire_step\<close>
    lets a callback run between the test and the critical section of \<open>poll\<close>.
  \<^item> \<open>Endpoint_Client\<close>, \<open>Node_Application\<close>, \<open>Arduino_Node\<close>: the two node programs
    (\<open>examples/PicoSdkI2cNode/main.cpp\<close>, \<open>examples/ArduinoHeartbeatNode\<close>) over the locale \<open>endpoint\<close>,
    which both endpoints interpret.
  \<^item> \<open>Node_Interleaving\<close>, \<open>Node_Guarantees\<close>: the Pico node program once more, statement by statement
    with a program counter, the interrupt handler running between any two of its steps; it refines
    the same program over a mailbox. \<open>Sketch_Interleaving\<close>, \<open>Sketch_Guarantees\<close>: the same for the
    Arduino node sketch and its callbacks.
  \<^item> \<open>Command_Controller\<close>, \<open>Heartbeat_Controllers\<close>: the three controller sketches
    (\<open>examples/ArduinoReliableCommandController\<close>, \<open>ArduinoHeartbeatController\<close>,
    \<open>ArduinoMultiNodeController\<close>).
  \<^item> \<open>Command_System\<close>: the command controller with a node at the other end of its bus, over the
    locale \<open>command_partner\<close>. \<open>Pico_Bus\<close> and \<open>Arduino_Bus\<close> interpret it on the two node programs;
    the theorems of this root theory are about the controller and the Pico node.
  \<^item> \<open>Faulty_System\<close>: the command controller on a bus with faults, over the locale \<open>faulty_partner\<close>,
    which extends \<open>command_partner\<close> by an invariant that faults keep (\<open>backed\<close>, \<open>truthful\<close>).
    \<open>Faulty_Bus\<close> and \<open>Faulty_Properties\<close> interpret it on the Pico node, \<open>Arduino_Faults\<close> on the
    Arduino node. \<open>Heartbeat_System\<close>: the heartbeat controller and the Pico node on this bus.
  \<^item> \<open>Fuzz_Harness\<close>, \<open>Host_Examples\<close>: \<open>tests/fuzz_frame_decoder.cpp\<close> on every input, and the host
    programs of \<open>examples/\<close>. \<open>Version\<close>: the constants of \<open>version.h\<close>.

  \<^bold>\<open>State.\<close> Classes are records with the fields of the source, enumerations are datatypes (an
  8-bit enumeration whose values come from the wire is a byte with named constants), integers
  have their width, \<open>millis()\<close> and SDK clocks are arguments. Out-parameters are results.
  Objects that are shared through static pointers (\<open>endpoints_\<close>, \<open>active_\<close>) are numbered.

  \<^bold>\<open>Interrupts.\<close> Handlers and callbacks run to completion. The critical sections of the main
  program are single steps, everything between them is interleaved with handlers at the
  granularity of the theories \<open>Pico_Mailbox\<close>, \<open>Node_Interleaving\<close>, \<open>Wire_Endpoint\<close> and
  \<open>Sketch_Interleaving\<close>. Where only
  the order of whole loop turns and transfers matters (\<open>Node_Application\<close>, \<open>Arduino_Node\<close> and the
  theories of the bus), a turn is one step. Fences (\<open>__dmb\<close>) and \<open>volatile\<close> have no further effect
  in this model.

  \<^bold>\<open>Faults.\<close> In every turn of a controller the write and the read each have a fate (\<open>bus_fate\<close>): the
  bytes pass, one byte has some of its bits changed, or the transfer fails and the bytes are lost.
  Changes of several bytes are outside this model: an 8-bit sum cannot notice all of them.

  \<^bold>\<open>What is outside.\<close> The Pico SDK and the Arduino core are parameters (\<open>i2c_sdk\<close>, \<open>uart_sdk\<close>,
  \<open>two_wire\<close>, \<open>irq_masks\<close>); what the code needs of them is stated by \<open>documented_i2c\<close> (a read
  returns at most the requested length, or an error), \<open>fifo_wire\<close> (\<open>available\<close> counts the bytes that
  \<open>read\<close> takes, and \<open>requestFrom\<close> leaves at most the requested number there) and \<open>fifo_uart\<close>. Calls
  into them that only configure hardware are logs.

  \<^bold>\<open>What the lemmas show.\<close> For the protocol core: the codec round-trips, accepts exactly its own
  encodings, detects any single changed byte, and reports errors in the documented order; the
  stream decoder delivers what was sent, resynchronises within 40 bytes and never leaves its
  buffer; registry and tracker are maps with wrap-safe time and sequence arithmetic; queued
  commands are sent at most \<open>max_attempts\<close> times, no earlier than the timeout, and settled by
  exactly their acknowledgement. For the ports: every transport keeps to its buffer, both
  endpoints implement mailboxes under every interleaving, responses are never torn, and the
  boundaries of these promises (late interrupts, empty writes, re-attachment) are theorems too.
  For the programs: they run for ever without leaving a buffer, answer commands, keep at most one
  command in flight, and track the nodes that answer. For the systems: without faults every command
  is settled in the turn that sends it; with faults nothing false is ever reported, and a command
  is given up only after three disturbed transmissions, with either node; the registry of the
  heartbeat controller lists no node that is not there.

  \<^bold>\<open>Step counts.\<close> The Pico node program polls a waiting frame within 30 of its steps and serves the
  answer within 42. Its \<open>publish\<close> takes at most 14 steps for a heartbeat of 12 bytes (choosing the
  buffer, a step for each byte, the critical section) and at most 12 for an acknowledgement of
  10; the longest way to the next poll leads through the rest of an acknowledgement or of the
  first heartbeat, the top of the loop and a heartbeat. On Arduino \<open>publish\<close> is one step, and the
  answer is served within six. Interrupts and callbacks are not counted.

  \<^bold>\<open>Loops.\<close> Bounded loops are structural recursion on the remaining count. \<open>wire_drain\<close> and the
  loop of the lossy-link simulator may run for ever and are partial functions; that they return
  is a theorem. There is no fuel.

  \<^bold>\<open>Not modelled.\<close> Printing, pin and serial set-up, \<open>sleep_ms\<close>; headers that only include others;
  the unit tests (concrete inputs of modelled functions); the Python and PowerShell scripts.
\<close>

section \<open>The whole system\<close>

text \<open>
  A command crosses the whole system in one turn. Let the command controller be in any state
  that it reaches over any driver, the Pico node in any idle state that it reaches, and connect
  them by a bus that delivers bytes. Whenever a turn of the controller's loop transmits a
  command and the receive poll is due, the driver accepts the frame, the node's main loop
  receives exactly this command, the controller reads the acknowledgement of its sequence with
  status \<open>accepted\<close>, the queue is empty again, and the node is idle for the next one.
\<close>

theorem command_settled_over_bus:
  assumes "fifo_wire tw buf" and "controller_setup t0 = Some (r0, c0)"
    and "run (controller_step tw) c0 inputs = Some (outs, c)"
    and "node_main_start enable t1 = Some (Inr a0)" and "run (app_step rp2040_masks) a0 evs = Some (outs', a)"
    and "node_idle a"
    and "controller_loop (bus_driver t t') now c \<lparr>pb_node = a, pb_rx = rx, pb_log = []\<rparr> = Some (r, c', w')"
    and "td_action (lr_decision r) = Tx_send" and "now - cc_last_receive_ms c \<ge> kReceivePollMs"
  shows "lr_sent r = Some True \<and> Received (Some (td_frame (lr_decision r))) \<in> set (pb_log w') \<and>
    lr_ack r = Some (f_sequence (td_frame (lr_decision r)), ack_accepted, Resolved_accepted) \<and>
    pending_count (cc_queue c') = 0 \<and> node_idle (pb_node w')"
proof -
  have "cc_inv c0" using controller_setup_ok [of t0] assms(2) by auto
  then have c: "cc_inv c" by (rule safe_component.run_inv [OF controller_safe [OF assms(1)] _ assms(3)])
  have "na_inv a0" using node_main_start_ok [of enable t1] assms(4) by auto
  then have a: "na_inv a" using app.run_inv assms(5) by blast
  have "pico_ready \<lparr>pb_node = a, pb_rx = rx, pb_log = []\<rparr>" using a assms(6) by (simp add: pico_ready_def)
  from pico_partner.answered_turn [OF c this _ assms(8,9), where i = "(t, t')"] assms(7) show ?thesis
    by (simp add: pico_ready_def pico_got_def)
qed

theorem command_settled_over_bus_witness:
  "\<exists>c a r c' w'. controller_setup 0 = Some (Queued, c) \<and> node_main_start 0 2000 = Some (Inr a) \<and>
    controller_loop (bus_driver 1000000 1000004) 20 c \<lparr>pb_node = a, pb_rx = [], pb_log = []\<rparr> = Some (r, c', w') \<and>
    lr_ack r = Some (0, ack_accepted, Resolved_accepted) \<and> pending_count (cc_queue c') = 0"
proof -
  let ?c = "snd (the (controller_setup 0))"
  define a where "a = projr (the (node_main_start 0 2000))"
  have c: "controller_setup 0 = Some (Queued, ?c)" "run (controller_step (list_driver [])) ?c [] = Some ([], ?c)"
    by code_simp+
  have a: "node_main_start 0 2000 = Some (Inr a)" "run (app_step rp2040_masks) a [] = Some ([], a)" "node_idle a"
    unfolding a_def by code_simp+
  let ?w = "\<lparr>pb_node = a, pb_rx = [], pb_log = []\<rparr>"
  have "cc_inv ?c" using controller_setup_ok [of 0] c(1) by auto
  from controller_loop_ok [OF fifo_bus_driver this] obtain r c' w' where
    l: "controller_loop (bus_driver 1000000 1000004) 20 ?c ?w = Some (r, c', w')" by blast
  have due: "td_action (fst (next_due (cc_queue ?c) 20)) = Tx_send" "td_frame (fst (next_due (cc_queue ?c) 20)) = queued_command 0"
    "pending_count (cc_queue ?c) \<noteq> 0" by code_simp+
  have "lr_decision r = fst (next_due (cc_queue ?c) 20)"
    using l due(3) by (auto simp: controller_loop_def transmitDue_def Let_def split_beta split: Option.bind_splits if_splits)
  with due have d: "td_action (lr_decision r) = Tx_send" "f_sequence (td_frame (lr_decision r)) = 0" by simp_all
  have p: "20 - cc_last_receive_ms ?c \<ge> kReceivePollMs" by code_simp
  from command_settled_over_bus [OF fifo_list_driver c a l d(1) p] c(1) a(1) l d(2) show ?thesis by metis
qed



end
